(* ===== verification/Sfp_Prelude.thy ===== *)
theory Sfp_Prelude
  imports Main "HOL-Library.Word"
begin

text \<open>
  The vocabulary shared by the theories of this development: the widths of the machine
  integers (\<^verbatim>\<open>uint8_t\<close>, \<^verbatim>\<open>uint16_t\<close>), the ways a run of the library can go wrong
  as values of a datatype, the composition of operations that may go wrong, array
  access with its bounds, and the collections of rewrite rules that the component
  theories extend.
\<close>

unbundle bit_operations_syntax

section \<open>Machine integers\<close>

type_synonym u8 = "8 word"
type_synonym u16 = "16 word"

section \<open>Results\<close>

text \<open>
  What the C++ program leaves undefined or aborts on is a value here, so that its absence
  can be proved: a failed \<^verbatim>\<open>assert\<close>, a call or store through a null pointer, an array
  access outside its bounds, a loop that does not return, a mutex locked by its owner or
  unlocked when it is free, an exception thrown by a buffer that is asked to grow beyond its
  limit.
\<close>

datatype fault = AssertFailed | NullDeref | OutOfBounds | Diverged | MutexMisuse | LengthError

type_synonym 'a res = "fault + 'a"

definition bindR :: "'a res \<Rightarrow> ('a \<Rightarrow> 'b res) \<Rightarrow> 'b res" where
  "bindR m f = (case m of Inl e \<Rightarrow> Inl e | Inr x \<Rightarrow> f x)"

definition assertR :: "bool \<Rightarrow> 'a res \<Rightarrow> 'a res" where
  "assertR b m = (if b then m else Inl AssertFailed)"

text \<open>A \<^verbatim>\<open>for\<close> loop that threads a state through a list of inputs.\<close>

primrec foldR :: "('s \<Rightarrow> 'a \<Rightarrow> 's res) \<Rightarrow> 'a list \<Rightarrow> 's \<Rightarrow> 's res" where
  "foldR f [] s = Inr s"
| "foldR f (x # xs) s = bindR (f s x) (foldR f xs)"

text \<open>Reading and writing one element of a C array.\<close>

definition array_get :: "'a list \<Rightarrow> nat \<Rightarrow> 'a res" where
  "array_get xs i = (if i < length xs then Inr (xs ! i) else Inl OutOfBounds)"

definition array_set :: "'a list \<Rightarrow> nat \<Rightarrow> 'a \<Rightarrow> 'a list res" where
  "array_set xs i x = (if i < length xs then Inr (xs[i := x]) else Inl OutOfBounds)"

text \<open>\<^verbatim>\<open>memcpy (dst, src, n)\<close>: the first \<open>n\<close> elements are replaced.\<close>

definition memcpy :: "'a list \<Rightarrow> 'a list \<Rightarrow> nat \<Rightarrow> 'a list res" where
  "memcpy dst src n =
     (if n \<le> length dst \<and> n \<le> length src then Inr (take n src @ drop n dst)
      else Inl OutOfBounds)"

named_theorems sfp_consts \<open>values of the library's constants\<close>
named_theorems sfp_ops \<open>definitions of the operations that only compose others\<close>

section \<open>Generic lemmas\<close>

lemma bindR_Inr [simp]: "bindR (Inr x) f = f x"
  by (simp add: bindR_def)

lemma bindR_Inl [simp]: "bindR (Inl e) f = Inl e"
  by (simp add: bindR_def)

lemma bindR_eq_Inr: "bindR m f = Inr y \<longleftrightarrow> (\<exists>x. m = Inr x \<and> f x = Inr y)"
  by (cases m) auto

lemma bindR_assoc: "bindR (bindR m f) g = bindR m (\<lambda>x. bindR (f x) g)"
  by (cases m) auto

lemma assertR_True [simp]: "b \<Longrightarrow> assertR b m = m"
  by (simp add: assertR_def)

lemma assertR_False [simp]: "\<not> b \<Longrightarrow> assertR b m = Inl AssertFailed"
  by (simp add: assertR_def)

lemma bindR_cong [fundef_cong]:
  "m = m' \<Longrightarrow> (\<And>x. m' = Inr x \<Longrightarrow> f x = g x) \<Longrightarrow> bindR m f = bindR m' g"
  by (cases m') auto

lemma foldR_append: "foldR f (xs @ ys) s = bindR (foldR f xs s) (foldR f ys)"
  by (induction xs arbitrary: s) (auto simp: bindR_assoc intro: bindR_cong)

lemma foldR_map: "foldR f (map g xs) s = foldR (\<lambda>s x. f s (g x)) xs s"
  by (induction xs arbitrary: s) (auto intro: bindR_cong)

lemma foldR_cong:
  "(\<And>s x. x \<in> set xs \<Longrightarrow> f s x = g s x) \<Longrightarrow> foldR f xs s = foldR g xs s"
  by (induction xs arbitrary: s) (auto intro: bindR_cong)

text \<open>An invariant of the body, with totality, is an invariant of the loop.\<close>

lemma foldR_total:
  assumes "\<And>s x. P s \<Longrightarrow> x \<in> set xs \<Longrightarrow> \<exists>s'. f s x = Inr s' \<and> P s'" and "P s"
  shows "\<exists>s'. foldR f xs s = Inr s' \<and> P s'"
  using assms
proof (induction xs arbitrary: s)
  case (Cons x xs)
  then obtain s1 where s1: "f s x = Inr s1" "P s1" by force
  with Cons obtain s2 where "foldR f xs s1 = Inr s2" "P s2" by force
  with s1 show ?case by simp
qed simp

lemma array_get_ok [simp]: "i < length xs \<Longrightarrow> array_get xs i = Inr (xs ! i)"
  by (simp add: array_get_def)

lemma array_set_ok [simp]: "i < length xs \<Longrightarrow> array_set xs i x = Inr (xs[i := x])"
  by (simp add: array_set_def)

lemma memcpy_ok [simp]:
  "n \<le> length dst \<Longrightarrow> n \<le> length src \<Longrightarrow> memcpy dst src n = Inr (take n src @ drop n dst)"
  by (simp add: memcpy_def)

lemma take_Suc_update [simp]:
  "n < length xs \<Longrightarrow> take (Suc n) (xs[n := x]) = take n xs @ [x]"
  by (simp add: take_Suc_conv_app_nth)

text \<open>A loop over the indices of an array prefix is a loop over its elements.\<close>

lemma foldR_array:
  assumes "n \<le> length xs"
  shows "foldR (\<lambda>s i. bindR (array_get xs i) (f s)) [0..<n] s = foldR f (take n xs) s"
proof -
  have "take n xs = map (\<lambda>i. xs ! i) [0..<n]"
    using assms by (intro nth_equalityI) auto
  moreover have "foldR (\<lambda>s i. bindR (array_get xs i) (f s)) [0..<n] s
      = foldR (\<lambda>s i. f s (xs ! i)) [0..<n] s"
    using assms by (intro foldR_cong) auto
  ultimately show ?thesis by (simp add: foldR_map)
qed

text \<open>
  A result that is a value with a property, or one of some tolerated faults: partial
  correctness up to those faults.
\<close>

definition safe :: "fault set \<Rightarrow> 'a res \<Rightarrow> ('a \<Rightarrow> bool) \<Rightarrow> bool" where
  "safe E m P \<longleftrightarrow> (case m of Inl e \<Rightarrow> e \<in> E | Inr x \<Rightarrow> P x)"

lemma safe_simps [simp]: "safe E (Inr x) P \<longleftrightarrow> P x" "safe E (Inl e) P \<longleftrightarrow> e \<in> E"
  by (simp_all add: safe_def)

lemma safe_bind:
  "safe E m P \<Longrightarrow> (\<And>x. P x \<Longrightarrow> safe E (f x) Q) \<Longrightarrow> safe E (bindR m f) Q"
  by (cases m) auto

lemma safe_mono: "safe E m P \<Longrightarrow> (\<And>x. P x \<Longrightarrow> Q x) \<Longrightarrow> safe E m Q"
  by (cases m) auto

lemma safeD: "safe E m P \<Longrightarrow> m = Inr x \<Longrightarrow> P x"
  by simp

section \<open>Simulation of a specification by an operation that may go wrong\<close>

text \<open>
  A specification reacts to an input with a new state, frames to send and payloads to
  deliver; its reaction to a list of inputs is the concatenation of its reactions.
\<close>

primrec run_spec ::
  "('a \<Rightarrow> 'i \<Rightarrow> 'a \<times> 'f list \<times> 'd list) \<Rightarrow> 'a \<Rightarrow> 'i list \<Rightarrow> 'a \<times> 'f list \<times> 'd list" where
  "run_spec spec a [] = (a, [], [])"
| "run_spec spec a (i # is) =
     (let (a, fs, ds) = spec a i; (a, fs', ds') = run_spec spec a is in (a, fs @ fs', ds @ ds'))"

lemma run_spec_append:
  "run_spec spec a (is @ js) =
     (let (a, fs, ds) = run_spec spec a is; (a, fs', ds') = run_spec spec a js in (a, fs @ fs', ds @ ds'))"
  by (induction "is" arbitrary: a) (auto simp: Let_def split: prod.splits)

lemma run_spec_single [simp]: "run_spec spec a [i] = spec a i"
  by (simp split: prod.split)

text \<open>
  The interface between a loop and its body: if one step never goes wrong, keeps an
  invariant and shows the reaction of the specification, then so does the whole loop.
\<close>

locale simulation =
  fixes inv :: "'s \<Rightarrow> bool" and view :: "'s \<Rightarrow> 'a"
    and obs :: "'s \<Rightarrow> 's \<Rightarrow> 'f list \<Rightarrow> 'd list \<Rightarrow> bool"
    and step :: "'s \<Rightarrow> 'i \<Rightarrow> 's res" and valid :: "'i \<Rightarrow> bool"
    and spec :: "'a \<Rightarrow> 'i \<Rightarrow> 'a \<times> 'f list \<times> 'd list"
  assumes step_ok:
    "inv s \<Longrightarrow> valid i \<Longrightarrow> spec (view s) i = (a, fs, ds) \<Longrightarrow>
     \<exists>s'. step s i = Inr s' \<and> inv s' \<and> view s' = a \<and> obs s s' fs ds"
    and obs_refl: "inv s \<Longrightarrow> obs s s [] []"
    and obs_trans: "obs s t fs ds \<Longrightarrow> obs t u fs' ds' \<Longrightarrow> obs s u (fs @ fs') (ds @ ds')"
begin

lemma run_ok:
  assumes "inv s" and "\<forall>i \<in> set is. valid i" and "run_spec spec (view s) is = (a, fs, ds)"
  shows "\<exists>s'. foldR step is s = Inr s' \<and> inv s' \<and> view s' = a \<and> obs s s' fs ds"
  using assms
proof (induction "is" arbitrary: s a fs ds)
  case Nil
  then show ?case using obs_refl by simp
next
  case (Cons i "is")
  obtain a1 fs1 ds1 where r1: "spec (view s) i = (a1, fs1, ds1)" by (metis prod_cases3)
  obtain a2 fs2 ds2 where r2: "run_spec spec a1 is = (a2, fs2, ds2)" by (metis prod_cases3)
  obtain s1 where s1: "step s i = Inr s1" "inv s1" "view s1 = a1" "obs s s1 fs1 ds1"
    using step_ok [OF Cons.prems(1) _ r1] Cons.prems(2) by auto
  obtain s2 where "foldR step is s1 = Inr s2" "inv s2" "view s2 = a2" "obs s1 s2 fs2 ds2"
    using Cons.IH [OF s1(2), of a2 fs2 ds2] Cons.prems(2) r2 s1(3) by auto
  with s1 obs_trans [OF s1(4)] Cons.prems(3) show ?case by (auto simp: r1 r2)
qed

end

end
