(* ===== verification/Sfp_Crc.thy ===== *)
theory Sfp_Crc
  imports Sfp_Prelude
begin

text \<open>
  The rolling checksum of both directions, \<^verbatim>\<open>_crc_ccitt_update\<close> of
  \<^verbatim>\<open>src/src/serial_framing_protocol.cpp\<close>, the contract that the framing layer relies
  on (also met by the avr-libc function that replaces it on that target), and the proof
  that the source's byte-wise code computes the CRC-CCITT of its bits.
\<close>

section \<open>The code\<close>

text \<open>
  \<^verbatim>\<open>octet ^= crc & 0xff; octet ^= octet << 4;\<close> on a \<^verbatim>\<open>uint8_t\<close>, then the
  16-bit expression that is returned.
\<close>

definition crc_ccitt_update :: "u16 \<Rightarrow> u8 \<Rightarrow> u16" where
  "crc_ccitt_update crc octet =
     (let octet = octet XOR ucast (crc AND 0xff);
          octet = octet XOR push_bit 4 octet
      in ((push_bit 8 (ucast octet) OR (drop_bit 8 crc AND 0xff))
            XOR ucast (drop_bit 4 octet)) XOR push_bit 3 (ucast octet))"

definition SFP_CRC_PRESET :: u16 where
  [sfp_consts]: "SFP_CRC_PRESET = 0xffff"

definition SFP_CRC_GOOD :: u16 where
  [sfp_consts]: "SFP_CRC_GOOD = 0xf0b8"

text \<open>\<^verbatim>\<open>SFP_CRC_SIZE = sizeof(SFPcrc)\<close>\<close>

definition SFP_CRC_SIZE :: nat where
  [sfp_consts]: "SFP_CRC_SIZE = 2"

section \<open>The reference: CRC-CCITT, bit by bit\<close>

text \<open>
  The checksum as the standard describes it: the register is shifted right one bit at a
  time and the reflected generator polynomial \<open>0x8408\<close> is added when a one falls out.
  An octet is added to the low half of the register, then eight bits are shifted.
\<close>

definition crc_bit :: "u16 \<Rightarrow> u16" where
  "crc_bit c = (if bit c 0 then drop_bit 1 c XOR 0x8408 else drop_bit 1 c)"

section \<open>Octet-wise and bit-wise computation agree\<close>

text \<open>
  The source's expression is a shift of the register by one octet, plus a contribution
  that depends on the octet that falls out and the octet that comes in only.
\<close>

definition crc_table :: "u8 \<Rightarrow> u16" where
  "crc_table b =
     (let x = b XOR push_bit 4 b
      in (push_bit 8 (ucast x) XOR ucast (drop_bit 4 x)) XOR push_bit 3 (ucast x))"

lemma ff_mask: "(0xff :: u16) = mask 8"
  by (simp add: mask_eq_exp_minus_1)

lemma lo_octet: "ucast (crc AND 0xff :: u16) = (ucast crc :: u8)"
  unfolding ff_mask by (rule bit_word_eqI) (auto simp: bit_simps)

lemma update_table:
  "crc_ccitt_update crc octet = drop_bit 8 crc XOR crc_table (octet XOR ucast crc)"
proof -
  have "push_bit 8 (ucast x) OR (drop_bit 8 crc AND 0xff)
      = drop_bit 8 crc XOR push_bit 8 (ucast (x::u8))" for x
    unfolding ff_mask by (rule bit_word_eqI) (auto simp: bit_simps dest: bit_imp_le_length)
  then show ?thesis
    by (simp only: crc_ccitt_update_def crc_table_def Let_def lo_octet xor.assoc)
qed

text \<open>
  All the functions involved are linear over exclusive or, so equality of two of them on
  octets needs to be checked on the eight octets with one bit set.
\<close>

definition xor_linear :: "('a::len word \<Rightarrow> 'b::len word) \<Rightarrow> bool" where
  "xor_linear f \<longleftrightarrow> (\<forall>a b. f (a XOR b) = f a XOR f b)"

lemma xor_linear_basis:
  fixes f g :: "u8 \<Rightarrow> 'b::len word"
  assumes f: "xor_linear f" and g: "xor_linear g"
    and basis: "f 1 = g 1" "f 2 = g 2" "f 4 = g 4" "f 8 = g 8"
      "f 16 = g 16" "f 32 = g 32" "f 64 = g 64" "f 128 = g 128"
  shows "f b = g b"
proof -
  have zero: "h 0 = 0" if "xor_linear h" for h :: "u8 \<Rightarrow> 'b word"
    using that [unfolded xor_linear_def, rule_format, of 0 0] by simp
  have bits: "(\<And>i. k \<le> i \<Longrightarrow> \<not> bit b i) \<Longrightarrow> k \<le> 8 \<Longrightarrow> f b = g b" for k
  proof (induction k arbitrary: b)
    case 0
    then have "b = 0" by (intro bit_word_eqI) simp
    then show ?case by (simp add: zero f g)
  next
    case (Suc k)
    show ?case
    proof (cases "bit b k")
      case False
      then have "\<not> bit b i" if "k \<le> i" for i
        using that Suc.prems(1) [of i] by (cases "i = k") auto
      then show ?thesis using Suc.prems(2) by (intro Suc.IH) auto
    next
      case True
      let ?d = "push_bit k 1 :: u8"
      have "\<not> bit (b XOR ?d) i" if "k \<le> i" for i
        using that True Suc.prems(1) [of i] Suc.prems(2)
        by (cases "i = k") (auto simp: bit_simps)
      then have "f (b XOR ?d) = g (b XOR ?d)" using Suc.prems(2) by (intro Suc.IH) auto
      moreover have "k \<in> {0,1,2,3,4,5,6,7}" using Suc.prems(2) by auto
      then have "f ?d = g ?d" using basis by auto
      ultimately have "f ((b XOR ?d) XOR ?d) = g ((b XOR ?d) XOR ?d)"
        using f g by (simp only: xor_linear_def)
      then show ?thesis by (simp add: xor.assoc)
    qed
  qed
  show ?thesis by (rule bits [of 8]) (auto dest: bit_imp_le_length)
qed

lemma crc_bit_linear: "xor_linear crc_bit"
  by (simp add: xor_linear_def crc_bit_def bit_simps ac_simps)

lemma xor_linear_funpow: "xor_linear f \<Longrightarrow> xor_linear (f ^^ n)" for f :: "'a::len word \<Rightarrow> 'a word"
  by (induction n) (auto simp: xor_linear_def)

lemma xor_linear_o: "xor_linear f \<Longrightarrow> xor_linear g \<Longrightarrow> xor_linear (\<lambda>x. f (g x))"
  by (simp add: xor_linear_def)

lemma xor_linear_shift [intro, simp]:
  "xor_linear (push_bit n)" "xor_linear (drop_bit n)" "xor_linear ucast" "xor_linear (\<lambda>x. x)"
  by (simp_all add: xor_linear_def push_bit_xor drop_bit_xor unsigned_xor_eq)

lemma crc_table_linear: "xor_linear crc_table"
  by (simp add: xor_linear_def crc_table_def Let_def push_bit_xor drop_bit_xor unsigned_xor_eq ac_simps)

lemma funpow_8: "(f ^^ 8) x = f (f (f (f (f (f (f (f x)))))))"
  by (simp add: eval_nat_numeral)

lemma table_bits: "(crc_bit ^^ 8) (ucast b) = crc_table b"
proof (rule xor_linear_basis [where f = "\<lambda>b. (crc_bit ^^ 8) (ucast b)" and g = crc_table and b = b])
  show "xor_linear (\<lambda>b. (crc_bit ^^ 8) (ucast b))"
    using xor_linear_funpow [OF crc_bit_linear, of 8] by (simp add: xor_linear_def unsigned_xor_eq)
qed (rule crc_table_linear, simp_all add: funpow_8 crc_bit_def crc_table_def)

lemma crc_bits_shift: "(\<And>i. i < n \<Longrightarrow> \<not> bit c i) \<Longrightarrow> (crc_bit ^^ n) c = drop_bit n c"
proof (induction n arbitrary: c)
  case (Suc n)
  then have "crc_bit c = drop_bit 1 c" by (simp add: crc_bit_def)
  moreover have "(crc_bit ^^ n) (drop_bit 1 c) = drop_bit n (drop_bit 1 c)"
    using Suc.prems by (intro Suc.IH) (simp add: bit_simps)
  ultimately show ?case by (simp add: funpow_swap1)
qed simp

text \<open>
  C25. The octet-wise \<^verbatim>\<open>_crc_ccitt_update\<close> of the source is the bit-serial CRC-CCITT
  (reflected polynomial 0x8408): for every register and every octet it returns what eight
  shift steps return after the octet is added to the register.
\<close>

theorem crc_ccitt_update_bits:
  "crc_ccitt_update crc octet = (crc_bit ^^ 8) (crc XOR ucast octet)"
proof -
  have "crc XOR ucast octet = (crc AND NOT (mask 8)) XOR ucast (octet XOR ucast crc)"
    by (rule bit_word_eqI) (auto simp: bit_simps)
  moreover have "(crc_bit ^^ 8) (crc AND NOT (mask 8)) = drop_bit 8 crc"
  proof -
    have "(crc_bit ^^ 8) (crc AND NOT (mask 8)) = drop_bit 8 (crc AND NOT (mask 8))"
      by (rule crc_bits_shift) (simp add: bit_simps)
    also have "\<dots> = drop_bit 8 crc"
      by (rule bit_word_eqI) (auto simp: bit_simps dest: bit_imp_le_length)
    finally show ?thesis .
  qed
  ultimately show ?thesis
    using xor_linear_funpow [OF crc_bit_linear, of 8]
    by (simp only: xor_linear_def table_bits update_table)
qed

section \<open>What the framing layer relies on\<close>

text \<open>The octet that was shifted out can be recovered from the contribution.\<close>

definition table_inv :: "u16 \<Rightarrow> u8" where
  "table_inv t = (let h = ucast (drop_bit 8 t); x = h XOR drop_bit 5 h in x XOR push_bit 4 x)"

lemma table_inv_linear: "xor_linear table_inv"
  by (simp add: xor_linear_def table_inv_def Let_def push_bit_xor drop_bit_xor unsigned_xor_eq ac_simps)

lemma drop_16: "drop_bit 8 (drop_bit 8 (c :: u16)) = 0"
  by (rule bit_word_eqI) (simp add: bit_drop_bit_eq bit_imp_le_length)

lemma table_inv_mask: "table_inv (drop_bit 8 c) = 0"
  by (simp add: table_inv_def drop_16 del: drop_bit_drop_bit)

lemma table_inv: "table_inv (crc_table b) = b"
proof (rule xor_linear_basis [where f = "\<lambda>b. table_inv (crc_table b)" and g = "\<lambda>b. b" and b = b])
  show "xor_linear (\<lambda>b. table_inv (crc_table b))"
    using table_inv_linear crc_table_linear by (simp add: xor_linear_def)
  show "xor_linear (\<lambda>b. b :: u8)" by simp
qed (simp_all add: table_inv_def crc_table_def)

lemma update_inv: "table_inv (crc_ccitt_update crc octet) = octet XOR ucast crc"
  using table_inv_linear by (simp add: update_table xor_linear_def table_inv_mask table_inv)

lemma update_high:
  "drop_bit 8 (crc_ccitt_update crc octet) = drop_bit 8 (crc_table (octet XOR ucast crc))"
  by (simp add: update_table drop_bit_xor drop_16 del: drop_bit_drop_bit)

lemma u16_halves_eqI: "drop_bit 8 a = drop_bit 8 b \<Longrightarrow> (ucast a :: u8) = ucast b \<Longrightarrow> a = (b :: u16)"
proof (rule bit_word_eqI)
  fix n assume hi: "drop_bit 8 a = drop_bit 8 b" and lo: "(ucast a :: u8) = ucast b" and "n < LENGTH(16)"
  show "bit a n \<longleftrightarrow> bit b n"
  proof (cases "n < 8")
    case True
    then show ?thesis using arg_cong [OF lo, of "\<lambda>w. bit w n"] by (simp add: bit_simps)
  next
    case False
    then show ?thesis using arg_cong [OF hi, of "\<lambda>w. bit w (n - 8)"] by (simp add: bit_simps)
  qed
qed

lemma xor_right_cancel: "(a XOR c = b XOR c) \<longleftrightarrow> a = (b :: 'a::len word)"
proof
  assume "a XOR c = b XOR c"
  then have "(a XOR c) XOR c = (b XOR c) XOR c" by (simp only:)
  then show "a = b" by (simp add: xor.assoc)
qed simp

lemma update_inj_crc: "crc_ccitt_update c a = crc_ccitt_update d a \<Longrightarrow> c = d"
proof (rule u16_halves_eqI)
  assume eq: "crc_ccitt_update c a = crc_ccitt_update d a"
  have "ucast c XOR a = ucast d XOR a"
    using update_inv [of c a] update_inv [of d a] eq by (simp add: xor.commute)
  then show lo: "(ucast c :: u8) = ucast d" by (simp add: xor_right_cancel)
  from eq show "drop_bit 8 c = drop_bit 8 d"
    by (simp add: update_table lo xor_right_cancel)
qed

text \<open>Two octets in a row are recovered from the register they lead to.\<close>

lemma update_inj_pair:
  assumes eq: "crc_ccitt_update (crc_ccitt_update c a) b = crc_ccitt_update (crc_ccitt_update c a') b'"
  shows "a = a' \<and> b = b'"
proof -
  let ?x = "crc_ccitt_update c a" and ?y = "crc_ccitt_update c a'"
  have k: "b XOR ucast ?x = b' XOR ucast ?y"
    using update_inv [of ?x b] update_inv [of ?y b'] eq by simp
  with eq have "drop_bit 8 ?x = drop_bit 8 ?y"
    by (simp add: update_table [of ?x] update_table [of ?y] xor_right_cancel)
  then have "drop_bit 8 (crc_table (a XOR ucast c)) = drop_bit 8 (crc_table (a' XOR ucast c))"
    by (simp add: update_high)
  then have "table_inv (crc_table (a XOR ucast c)) = table_inv (crc_table (a' XOR ucast c))"
    by (simp add: table_inv_def)
  then have "a = a'" by (simp add: table_inv xor_right_cancel)
  with k show ?thesis by (simp add: xor_right_cancel)
qed

text \<open>
  The check sequence of a frame: the complement of the register, least significant octet
  first. Running the register over it leaves the constant \<^verbatim>\<open>SFP_CRC_GOOD\<close>.
\<close>

definition fcs_octets :: "u16 \<Rightarrow> u8 list" where
  "fcs_octets crc = [ucast (NOT crc), ucast (drop_bit 8 (NOT crc))]"

lemma update_residue:
  "crc_ccitt_update (crc_ccitt_update crc (ucast (NOT crc))) (ucast (drop_bit 8 (NOT crc)))
     = SFP_CRC_GOOD"
proof -
  have lo: "ucast (NOT crc) XOR ucast crc = (0xff :: u8)"
  proof -
    have "ucast (NOT crc) XOR ucast crc = (mask 8 :: u8)"
      by (rule bit_word_eqI) (auto simp: bit_simps)
    then show ?thesis by (simp add: mask_eq_exp_minus_1)
  qed
  have t: "crc_table 0xff = 0x0f78" by (simp add: crc_table_def)
  let ?x = "drop_bit 8 crc XOR 0x0f78"
  have "(ucast (drop_bit 8 (NOT crc)) :: u8) XOR ucast ?x = NOT 0 XOR ucast (0x0f78 :: u16)"
    unfolding unsigned_xor_eq
    by (rule bit_word_eqI) (auto simp: bit_simps)
  then have hi: "(ucast (drop_bit 8 (NOT crc)) :: u8) XOR ucast ?x = 0x87" by simp
  have "drop_bit 8 ?x = drop_bit 8 (0x0f78 :: u16)"
    by (simp add: drop_bit_xor drop_16 del: drop_bit_drop_bit)
  then show ?thesis
    by (simp add: update_table [of crc] lo t update_table [of ?x] hi sfp_consts crc_table_def)
qed

section \<open>The interface of a checksum register\<close>

text \<open>
  On AVR the register is updated by \<^verbatim>\<open>_crc_ccitt_update\<close> of avr-libc, elsewhere by the
  function above. The framing layer needs three laws of it, whichever it is.
\<close>

locale crc_register =
  fixes upd :: "u16 \<Rightarrow> u8 \<Rightarrow> u16"
  assumes residue: "upd (upd crc (ucast (NOT crc))) (ucast (drop_bit 8 (NOT crc))) = SFP_CRC_GOOD"
    and inj_crc: "upd c a = upd d a \<Longrightarrow> c = d"
    and inj_pair: "upd (upd c a) b = upd (upd c a') b' \<Longrightarrow> a = a' \<and> b = b'"
begin

lemma fold_fcs: "foldl upd c (xs @ fcs_octets (foldl upd c xs)) = SFP_CRC_GOOD"
  by (simp add: fcs_octets_def residue)

lemma fold_inj: "foldl upd c ys = foldl upd d ys \<Longrightarrow> c = d"
  by (induction ys arbitrary: c d) (auto dest: inj_crc)

text \<open>A check sequence that is accepted is the one of the octets before it.\<close>

lemma fcs_unique:
  "foldl upd c (xs @ [a, b]) = SFP_CRC_GOOD \<longleftrightarrow> [a, b] = fcs_octets (foldl upd c xs)"
proof
  assume "foldl upd c (xs @ [a, b]) = SFP_CRC_GOOD"
  then have "upd (upd (foldl upd c xs) a) b
      = upd (upd (foldl upd c xs) (ucast (NOT (foldl upd c xs))))
          (ucast (drop_bit 8 (NOT (foldl upd c xs))))"
    by (simp add: residue)
  then show "[a, b] = fcs_octets (foldl upd c xs)"
    by (auto simp: fcs_octets_def dest!: inj_pair)
qed (simp add: fcs_octets_def residue)

lemma burst:
  assumes "foldl upd c (xs @ [a, b] @ ys) = foldl upd c (xs @ [a', b'] @ ys)"
  shows "a = a' \<and> b = b'"
proof -
  from assms have "foldl upd (foldl upd c xs) [a, b] = foldl upd (foldl upd c xs) [a', b']"
    by (simp add: fold_inj [where ys = ys])
  then show ?thesis by (simp add: inj_pair)
qed

end

interpretation crc: crc_register crc_ccitt_update
  by unfold_locales (fact update_residue, erule update_inj_crc, erule update_inj_pair)

definition crc_octets :: "u8 list \<Rightarrow> u16" where
  "crc_octets os = foldl crc_ccitt_update SFP_CRC_PRESET os"

lemmas crc_octets_fcs = crc.fold_fcs [of SFP_CRC_PRESET, folded crc_octets_def]
lemmas crc_octets_fcs_unique = crc.fcs_unique [of SFP_CRC_PRESET, folded crc_octets_def]

lemma length_fcs [simp]: "length (fcs_octets c) = SFP_CRC_SIZE"
  by (simp add: fcs_octets_def sfp_consts)

text \<open>
  A frame body is accepted by the checksum exactly when its last two octets are the
  check sequence of the octets before them: the sender's computation is accepted, and no
  other check sequence is.
\<close>

theorem crc_accepts_iff:
  "crc_octets (xs @ [a, b]) = SFP_CRC_GOOD \<longleftrightarrow> [a, b] = fcs_octets (crc_octets xs)"
  by (rule crc_octets_fcs_unique)

text \<open>
  Error detection: damage confined to two adjacent octets of an accepted frame body
  (in particular any change of one octet, and any burst of at most nine bits) is never
  accepted.
\<close>

theorem crc_detects_burst:
  assumes "crc_octets (xs @ [a, b] @ ys) = SFP_CRC_GOOD" and "(a', b') \<noteq> (a, b)"
  shows "crc_octets (xs @ [a', b'] @ ys) \<noteq> SFP_CRC_GOOD"
  using assms crc.burst [of SFP_CRC_PRESET xs a b ys a' b'] by (auto simp: crc_octets_def)

theorem crc_detects_burst_witness:
  "crc_octets ([0x40] @ [0x61, 0x18] @ fcs_octets (crc_octets [0x40, 0x62, 0x18])) \<noteq> SFP_CRC_GOOD"
proof (rule crc_detects_burst [where a = "0x62" and b = "0x18"])
  show "crc_octets ([0x40] @ [0x62, 0x18] @ fcs_octets (crc_octets [0x40, 0x62, 0x18])) = SFP_CRC_GOOD"
    using crc_octets_fcs [of "[0x40, 0x62, 0x18]"] by simp
qed simp

end
