(* ===== verification/Sfp_Types.thy ===== *)
theory Sfp_Types
  imports Sfp_Crc "HOL-Library.While_Combinator"
begin

text \<open>
  The data of the library, from \<^verbatim>\<open>src/include/sfp/serial_framing_protocol.h\<close>:
  configuration, reserved octets, the frame header, packets, the transmitter, the
  receiver and the context that holds both, with what the header's macros and the small
  header functions of \<^verbatim>\<open>serial_framing_protocol.cpp\<close> compute. The ring buffer of
  \<^verbatim>\<open>cxx-util\<close>, which is not part of the repository, is a parameter here, with its
  contract.
\<close>

section \<open>Configuration and constants\<close>

definition SFP_CONFIG_HISTORY_CAPACITY :: nat where
  [sfp_consts]: "SFP_CONFIG_HISTORY_CAPACITY = 8"

definition SFP_CONFIG_MAX_PACKET_SIZE :: nat where
  [sfp_consts]: "SFP_CONFIG_MAX_PACKET_SIZE = 256"

definition SFP_CONFIG_WRITEBUF_SIZE :: nat where
  [sfp_consts]: "SFP_CONFIG_WRITEBUF_SIZE = 512"

definition SFP_ESC :: u8 where
  [sfp_consts]: "SFP_ESC = 0x7d"

definition SFP_FLAG :: u8 where
  [sfp_consts]: "SFP_FLAG = 0x7e"

definition SFP_ESC_FLIP_BIT :: u8 where
  [sfp_consts]: "SFP_ESC_FLIP_BIT = push_bit 5 1"

definition SFP_FIRST_SEQ_BIT :: nat where
  [sfp_consts]: "SFP_FIRST_SEQ_BIT = 0"

definition SFP_NUM_SEQ_BITS :: nat where
  [sfp_consts]: "SFP_NUM_SEQ_BITS = 6"

definition SFP_FIRST_CONTROL_BIT :: nat where
  [sfp_consts]: "SFP_FIRST_CONTROL_BIT = SFP_NUM_SEQ_BITS"

definition SFP_NUM_CONTROL_BITS :: nat where
  [sfp_consts]: "SFP_NUM_CONTROL_BITS = 2"

definition SFP_SEQ_RANGE :: u8 where
  [sfp_consts]: "SFP_SEQ_RANGE = push_bit SFP_NUM_SEQ_BITS 1"

definition SFP_INITIAL_SEQ :: u8 where
  [sfp_consts]: "SFP_INITIAL_SEQ = 0"

datatype SFPframetype = SFP_FRAME_USR | SFP_FRAME_RTX | SFP_FRAME_NAK | SFP_FRAME_SYN

text \<open>The numbers of the enumeration, as the header's control bits hold them.\<close>

fun frametype_code :: "SFPframetype \<Rightarrow> u8" where
  "frametype_code SFP_FRAME_USR = 0"
| "frametype_code SFP_FRAME_RTX = 1"
| "frametype_code SFP_FRAME_NAK = 2"
| "frametype_code SFP_FRAME_SYN = 3"

definition SFP_SEQ_SYN0 :: u8 where [sfp_consts]: "SFP_SEQ_SYN0 = 0"
definition SFP_SEQ_SYN1 :: u8 where [sfp_consts]: "SFP_SEQ_SYN1 = 1"
definition SFP_SEQ_SYN2 :: u8 where [sfp_consts]: "SFP_SEQ_SYN2 = 2"
definition SFP_SEQ_SYN_DIS :: u8 where [sfp_consts]: "SFP_SEQ_SYN_DIS = 3"

datatype SFPescapestate = SFP_ESCAPE_STATE_NORMAL | SFP_ESCAPE_STATE_ESCAPING

datatype SFPframestate = SFP_FRAME_STATE_NEW | SFP_FRAME_STATE_RECEIVING

datatype SFPconnectstate =
    SFP_CONNECT_STATE_DISCONNECTED
  | SFP_CONNECT_STATE_SENT_SYN0
  | SFP_CONNECT_STATE_SENT_SYN1
  | SFP_CONNECT_STATE_CONNECTED

text \<open>The enumerations are finite types, so statements over them can be evaluated.\<close>

instantiation SFPconnectstate :: enum
begin

definition enum_SFPconnectstate :: "SFPconnectstate list" where
  "enum_SFPconnectstate =
     [SFP_CONNECT_STATE_DISCONNECTED, SFP_CONNECT_STATE_SENT_SYN0,
      SFP_CONNECT_STATE_SENT_SYN1, SFP_CONNECT_STATE_CONNECTED]"

definition enum_all_SFPconnectstate :: "(SFPconnectstate \<Rightarrow> bool) \<Rightarrow> bool" where
  "enum_all_SFPconnectstate P \<longleftrightarrow> list_all P enum_class.enum"

definition enum_ex_SFPconnectstate :: "(SFPconnectstate \<Rightarrow> bool) \<Rightarrow> bool" where
  "enum_ex_SFPconnectstate P \<longleftrightarrow> list_ex P enum_class.enum"

instance
proof
  show "(UNIV :: SFPconnectstate set) = set enum_class.enum"
    unfolding enum_SFPconnectstate_def using SFPconnectstate.exhaust by auto
  then show "enum_class.enum_all P \<longleftrightarrow> Ball (UNIV :: SFPconnectstate set) P"
    and "enum_class.enum_ex P \<longleftrightarrow> Bex (UNIV :: SFPconnectstate set) P" for P
    by (simp_all add: enum_all_SFPconnectstate_def enum_ex_SFPconnectstate_def
        list_all_iff list_ex_iff)
  show "distinct (enum_class.enum :: SFPconnectstate list)"
    by (simp add: enum_SFPconnectstate_def)
qed

end

section \<open>Sequence numbers and headers\<close>

text \<open>The header octet is \<open>ccss ssss\<close>: two control bits, six sequence number bits.\<close>

definition nextSeq :: "u8 \<Rightarrow> u8" where
  "nextSeq seq = (seq + 1) AND (SFP_SEQ_RANGE - 1)"

text \<open>The cast of a two-bit number to the enumeration; all four numbers are constants of it.\<close>

definition getFrameType :: "u8 \<Rightarrow> SFPframetype" where
  "getFrameType hdr =
     (let code = drop_bit SFP_FIRST_CONTROL_BIT hdr AND (push_bit SFP_NUM_CONTROL_BITS 1 - 1)
      in if code = 0 then SFP_FRAME_USR else if code = 1 then SFP_FRAME_RTX
         else if code = 2 then SFP_FRAME_NAK else SFP_FRAME_SYN)"

definition getFrameSeq :: "u8 \<Rightarrow> u8" where
  "getFrameSeq hdr = drop_bit SFP_FIRST_SEQ_BIT hdr AND (push_bit SFP_NUM_SEQ_BITS 1 - 1)"

definition isReservedOctet :: "u8 \<Rightarrow> bool" where
  "isReservedOctet octet \<longleftrightarrow> octet = SFP_ESC \<or> octet = SFP_FLAG"

text \<open>\<^verbatim>\<open>SFPheader header = seq << SFP_FIRST_SEQ_BIT; header |= type << SFP_FIRST_CONTROL_BIT\<close>\<close>

definition makeHeader :: "SFPframetype \<Rightarrow> u8 \<Rightarrow> u8" where
  "makeHeader type seq =
     push_bit SFP_FIRST_SEQ_BIT seq OR push_bit SFP_FIRST_CONTROL_BIT (frametype_code type)"

definition seq_ok :: "u8 \<Rightarrow> bool" where
  "seq_ok seq \<longleftrightarrow> seq < SFP_SEQ_RANGE"

section \<open>State\<close>

record SFPpacket =
  buf :: "u8 list"
  len :: nat

definition packet_ok :: "SFPpacket \<Rightarrow> bool" where
  "packet_ok p \<longleftrightarrow> length (buf p) = SFP_CONFIG_MAX_PACKET_SIZE \<and> len p \<le> length (buf p)"

text \<open>The octets of a packet: what is beyond \<^verbatim>\<open>len\<close> is not part of it.\<close>

definition payload :: "SFPpacket \<Rightarrow> u8 list" where
  "payload p = take (len p) (buf p)"

text \<open>
  A callback is the address of a function, a user pointer an address; \<^term>\<open>None\<close> is the
  null pointer. A call of a callback is an event of the context's trace, in the order of
  the calls: it records the function, its arguments and the user pointer. The callbacks
  take their arguments as inputs and their return values are not used by the library.
\<close>

type_synonym funptr = "nat option"
type_synonym pointer = "nat option"

datatype event =
    Write_call nat "u8 list" pointer
  | Deliver_call nat "u8 list" pointer
  | Lock_call nat pointer
  | Unlock_call nat pointer

record 'h SFPtransmitter =
  tx_seq :: u8
  tx_crc :: u16
  history :: 'h
  writebuf :: "u8 list"
  writebufn :: nat
  "write" :: funptr
  writeData :: pointer
  lock :: funptr
  lockData :: pointer
  unlock :: funptr
  unlockData :: pointer

record SFPreceiver =
  rx_seq :: u8
  rx_crc :: u16
  escapeState :: SFPescapestate
  frameState :: SFPframestate
  "header" :: u8
  packet :: SFPpacket
  deliver :: funptr
  deliverData :: pointer

record 'h SFPcontext =
  tx :: "'h SFPtransmitter"
  rx :: SFPreceiver
  connectState :: SFPconnectstate

text \<open>The context together with the calls it has made so far.\<close>

record 'h sfp = "'h SFPcontext" +
  trace :: "event list"

section \<open>The ring buffer of the transmitter\<close>

text \<open>
  \<^verbatim>\<open>util::PotRingbuffer<SFPpacket, SFP_CONFIG_HISTORY_CAPACITY>\<close> is a class of
  \<^verbatim>\<open>cxx-util\<close>: its operations are a parameter \<open>R\<close> of every operation below that uses
  the history.
\<close>

record 'h ringbuffer =
  rb_size :: "'h \<Rightarrow> nat"
  rb_empty :: "'h \<Rightarrow> bool"
  rb_at :: "'h \<Rightarrow> nat \<Rightarrow> SFPpacket"
  rb_popFront :: "'h \<Rightarrow> 'h"
  rb_pushBack :: "'h \<Rightarrow> SFPpacket \<Rightarrow> 'h"

definition rb_list :: "('h, 'z) ringbuffer_scheme \<Rightarrow> 'h \<Rightarrow> SFPpacket list" where
  "rb_list R h = map (rb_at R h) [0..<rb_size R h]"

text \<open>
  What the library relies on: emptiness and indexing agree with the size, popping removes
  the oldest element, pushing appends, and when the capacity is reached the oldest
  elements make room (the \<open>history buffer underrun\<close> of the source's comments).
\<close>

definition ringbuffer_laws :: "('h, 'z) ringbuffer_scheme \<Rightarrow> bool" where
  "ringbuffer_laws R \<longleftrightarrow>
     (\<forall>h. rb_empty R h \<longleftrightarrow> rb_list R h = []) \<and>
     (\<forall>h. rb_list R h \<noteq> [] \<longrightarrow> rb_list R (rb_popFront R h) = tl (rb_list R h)) \<and>
     (\<forall>h p. rb_list R (rb_pushBack R h p) =
        drop (Suc (rb_size R h) - SFP_CONFIG_HISTORY_CAPACITY) (rb_list R h @ [p]))"

text \<open>A concrete ring buffer, a list, for the examples.\<close>

definition list_ringbuffer :: "SFPpacket list ringbuffer" where
  "list_ringbuffer =
     \<lparr>rb_size = length, rb_empty = (\<lambda>h. h = []), rb_at = (!), rb_popFront = tl,
      rb_pushBack = (\<lambda>h p. drop (Suc (length h) - SFP_CONFIG_HISTORY_CAPACITY) (h @ [p]))\<rparr>"

lemma rb_list_list_ringbuffer [simp]: "rb_list list_ringbuffer h = h"
  by (simp add: rb_list_def list_ringbuffer_def map_nth)

lemma list_ringbuffer_laws [simp]: "ringbuffer_laws list_ringbuffer"
  unfolding ringbuffer_laws_def rb_list_list_ringbuffer by (simp add: list_ringbuffer_def)

lemma length_rb_list [simp]: "length (rb_list R h) = rb_size R h"
  by (simp add: rb_list_def)

lemma ringbuffer_empty: "ringbuffer_laws R \<Longrightarrow> rb_empty R h \<longleftrightarrow> rb_list R h = []"
  by (simp add: ringbuffer_laws_def)

lemma ringbuffer_pop: "ringbuffer_laws R \<Longrightarrow> rb_list R h \<noteq> [] \<Longrightarrow> rb_list R (rb_popFront R h) = tl (rb_list R h)"
  by (simp add: ringbuffer_laws_def)

lemma ringbuffer_push:
  "ringbuffer_laws R \<Longrightarrow> rb_list R (rb_pushBack R h p) =
     drop (Suc (rb_size R h) - SFP_CONFIG_HISTORY_CAPACITY) (rb_list R h @ [p])"
  by (simp add: ringbuffer_laws_def)

lemma ringbuffer_pops:
  "ringbuffer_laws R \<Longrightarrow> n \<le> rb_size R h \<Longrightarrow> rb_list R ((rb_popFront R ^^ n) h) = drop n (rb_list R h)"
proof (induction n)
  case (Suc n)
  then have "rb_list R ((rb_popFront R ^^ n) h) = drop n (rb_list R h)" by simp
  moreover from this have "rb_list R ((rb_popFront R ^^ n) h) \<noteq> []" using Suc.prems by simp
  ultimately show ?case using Suc.prems by (simp add: ringbuffer_pop tl_drop drop_Suc)
qed simp

section \<open>Lemmas on headers and sequence numbers\<close>

lemma seq_ok_mask: "seq_ok s \<longleftrightarrow> s AND mask 6 = s"
proof -
  have "seq_ok s \<longleftrightarrow> uint s < 2 ^ 6" by (simp add: seq_ok_def sfp_consts word_less_def)
  also have "\<dots> \<longleftrightarrow> take_bit 6 (uint s) = uint s" by (simp add: take_bit_int_eq_self_iff)
  also have "\<dots> \<longleftrightarrow> take_bit 6 s = s"
    by (simp add: word_uint_eq_iff [of "take_bit 6 s"] unsigned_take_bit_eq)
  finally show ?thesis by (simp add: take_bit_eq_mask)
qed

lemma seq_ok_bit: "seq_ok s \<Longrightarrow> bit s n \<Longrightarrow> n < 6"
  by (metis seq_ok_mask bit_and_iff bit_mask_iff)

lemma mask_consts: "push_bit 2 1 - 1 = (mask 2 :: u8)" "push_bit 6 1 - 1 = (mask 6 :: u8)"
  by (simp_all add: mask_eq_exp_minus_1)

lemma getFrameSeq_mask: "getFrameSeq hdr = hdr AND mask 6"
  by (simp only: getFrameSeq_def sfp_consts mask_consts drop_bit_0 id_apply)

lemma seq_ok_getFrameSeq [simp]: "seq_ok (getFrameSeq hdr)"
  by (simp add: seq_ok_mask getFrameSeq_mask and.assoc)

lemma nextSeq_mask: "nextSeq s = (s + 1) AND mask 6"
  by (simp only: nextSeq_def sfp_consts mask_consts)

lemma seq_ok_nextSeq [simp]: "seq_ok (nextSeq s)"
  by (simp add: seq_ok_mask nextSeq_mask and.assoc)

lemma seq_ok_initial [simp]: "seq_ok SFP_INITIAL_SEQ"
  by (simp add: seq_ok_def sfp_consts)

lemma unat_nextSeq: "unat (nextSeq s) = Suc (unat s) mod 64"
proof -
  have "unat (nextSeq s) = unat (s + 1) mod 64"
    by (simp add: nextSeq_mask unat_mod_distrib flip: take_bit_eq_mask take_bit_eq_mod)
      (simp add: take_bit_eq_mod unat_mod_distrib)
  also have "\<dots> = (Suc (unat s) mod 256) mod 64" by (simp add: unat_word_ariths)
  also have "\<dots> = Suc (unat s) mod 64" by (simp add: mod_mod_cancel)
  finally show ?thesis .
qed

lemma frametype_code_bits: "bit (frametype_code t) n \<Longrightarrow> n < 2"
proof -
  assume "bit (frametype_code t) n"
  moreover have "frametype_code t AND mask 2 = frametype_code t" by (cases t) (simp_all add: mask_eq_exp_minus_1)
  ultimately show ?thesis by (metis bit_and_iff bit_mask_iff)
qed

lemma getFrameSeq_makeHeader [simp]: "seq_ok s \<Longrightarrow> getFrameSeq (makeHeader t s) = s"
  unfolding getFrameSeq_mask makeHeader_def sfp_consts
  by (rule bit_word_eqI) (auto simp: bit_simps dest: seq_ok_bit)

lemma getFrameType_makeHeader [simp]:
  assumes "seq_ok s" shows "getFrameType (makeHeader t s) = t"
proof -
  have "drop_bit 6 (makeHeader t s) AND mask 2 = frametype_code t"
    unfolding makeHeader_def sfp_consts
    by (rule bit_word_eqI) (auto simp: bit_simps dest: seq_ok_bit [OF assms] frametype_code_bits)
  then show ?thesis
    unfolding getFrameType_def sfp_consts mask_consts Let_def by (cases t) simp_all
qed

lemma makeHeader_parts: "makeHeader (getFrameType hdr) (getFrameSeq hdr) = hdr"
proof -
  let ?c = "drop_bit 6 hdr AND mask 2 :: u8"
  have "unat ?c < 4" 
    by (simp add: take_bit_eq_mod unat_mod_distrib flip: take_bit_eq_mask)
  then have "unat ?c \<in> {0,1,2,3}" by auto
  then have "?c \<in> {0,1,2,3}"
    by (simp add: word_unat_eq_iff)
  then have "frametype_code (getFrameType hdr) = ?c"
    unfolding getFrameType_def sfp_consts mask_consts Let_def by auto
  then have "makeHeader (getFrameType hdr) (getFrameSeq hdr) = (hdr AND mask 6) OR push_bit 6 ?c"
    by (simp add: makeHeader_def getFrameSeq_mask sfp_consts)
  also have "\<dots> = hdr"
    by (rule bit_word_eqI) (auto simp: bit_simps)
  finally show ?thesis .
qed

text \<open>
  The header octet loses nothing: the type and the sequence number put into a header are
  read back from it, and every octet is the header of its own type and number.
\<close>

theorem header_roundtrip:
  "(seq_ok s \<longrightarrow> getFrameType (makeHeader t s) = t \<and> getFrameSeq (makeHeader t s) = s)
   \<and> seq_ok (getFrameSeq hdr) \<and> makeHeader (getFrameType hdr) (getFrameSeq hdr) = hdr"
  by (simp add: makeHeader_parts)

theorem header_roundtrip_witness:
  "getFrameType (makeHeader SFP_FRAME_NAK 63) = SFP_FRAME_NAK \<and> getFrameSeq (makeHeader SFP_FRAME_NAK 63) = 63"
proof -
  have "seq_ok 63" by (simp add: seq_ok_def sfp_consts)
  with header_roundtrip [of 63 SFP_FRAME_NAK] show ?thesis by blast
qed

end
