(* ===== verification/Sfp_Setup.thy ===== *)
theory Sfp_Setup
  imports Sfp_Types
begin

text \<open>
  Setting up a context: \<^verbatim>\<open>sfpInit\<close>, \<^verbatim>\<open>sfpResetReceiver\<close> and the callback setters of
  \<^verbatim>\<open>src/src/serial_framing_protocol.cpp\<close>, with \<^verbatim>\<open>sfpIsConnected\<close>. They are applied to
  the memory of a context object, of which they set some members and leave the others.
\<close>

definition sfpResetReceiver :: "'h sfp \<Rightarrow> 'h sfp" where
  "sfpResetReceiver c =
     c\<lparr>rx := (rx c)\<lparr>rx_crc := SFP_CRC_PRESET, escapeState := SFP_ESCAPE_STATE_NORMAL,
                    frameState := SFP_FRAME_STATE_NEW, packet := (packet (rx c))\<lparr>len := 0\<rparr>\<rparr>\<rparr>"

definition sfpSetDeliverCallback :: "'h sfp \<Rightarrow> funptr \<Rightarrow> pointer \<Rightarrow> 'h sfp" where
  "sfpSetDeliverCallback c cbfun userdata =
     c\<lparr>rx := (rx c)\<lparr>deliver := cbfun, deliverData := userdata\<rparr>\<rparr>"

definition sfpSetWriteCallback :: "'h sfp \<Rightarrow> funptr \<Rightarrow> pointer \<Rightarrow> 'h sfp" where
  "sfpSetWriteCallback c cbfun userdata =
     c\<lparr>tx := (tx c)\<lparr>write := cbfun, writeData := userdata\<rparr>\<rparr>"

definition sfpSetLockCallback :: "'h sfp \<Rightarrow> funptr \<Rightarrow> pointer \<Rightarrow> 'h sfp" where
  "sfpSetLockCallback c cbfun userdata =
     c\<lparr>tx := (tx c)\<lparr>lock := cbfun, lockData := userdata\<rparr>\<rparr>"

definition sfpSetUnlockCallback :: "'h sfp \<Rightarrow> funptr \<Rightarrow> pointer \<Rightarrow> 'h sfp" where
  "sfpSetUnlockCallback c cbfun userdata =
     c\<lparr>tx := (tx c)\<lparr>unlock := cbfun, unlockData := userdata\<rparr>\<rparr>"

definition sfpInit :: "'h sfp \<Rightarrow> 'h sfp" where
  "sfpInit c =
     (let c = c\<lparr>connectState := SFP_CONNECT_STATE_DISCONNECTED\<rparr>;
          c = c\<lparr>rx := (rx c)\<lparr>rx_seq := SFP_INITIAL_SEQ\<rparr>\<rparr>;
          c = sfpResetReceiver c;
          c = sfpSetDeliverCallback c None None;
          c = c\<lparr>tx := (tx c)\<lparr>tx_seq := SFP_INITIAL_SEQ\<rparr>\<rparr>;
          c = c\<lparr>tx := (tx c)\<lparr>tx_crc := SFP_CRC_PRESET\<rparr>\<rparr>;
          c = c\<lparr>tx := (tx c)\<lparr>writebufn := 0\<rparr>\<rparr>;
          c = sfpSetWriteCallback c None None;
          c = sfpSetLockCallback c None None
      in sfpSetUnlockCallback c None None)"

definition sfpIsConnected :: "'h sfp \<Rightarrow> bool" where
  "sfpIsConnected c \<longleftrightarrow> SFP_CONNECT_STATE_CONNECTED = connectState c"

lemmas setup_defs = sfpResetReceiver_def sfpSetDeliverCallback_def sfpSetWriteCallback_def
  sfpSetLockCallback_def sfpSetUnlockCallback_def sfpInit_def Let_def

text \<open>
  The memory of a context before it is initialised, with an empty history (the ring buffer
  is the one member with a constructor). Its other members are arbitrary; the examples use
  the value below.
\<close>

definition raw_packet :: SFPpacket where
  "raw_packet = \<lparr>buf = replicate SFP_CONFIG_MAX_PACKET_SIZE 0xcd, len = 0\<rparr>"

definition raw_context :: "SFPpacket list sfp" where
  "raw_context =
     \<lparr>tx = \<lparr>tx_seq = 17, tx_crc = 0, history = [],
            writebuf = replicate SFP_CONFIG_WRITEBUF_SIZE 0xcd, writebufn = 3,
            write = None, writeData = None, lock = None, lockData = None,
            unlock = None, unlockData = None\<rparr>,
      rx = \<lparr>rx_seq = 5, rx_crc = 0, escapeState = SFP_ESCAPE_STATE_ESCAPING,
            frameState = SFP_FRAME_STATE_RECEIVING, header = 0xcd, packet = raw_packet,
            deliver = None, deliverData = None\<rparr>,
      connectState = SFP_CONNECT_STATE_CONNECTED,
      trace = []\<rparr>"

text \<open>An initialised context with all callbacks set.\<close>

definition example_context :: "SFPpacket list sfp" where
  "example_context =
     sfpSetUnlockCallback (sfpSetLockCallback (sfpSetDeliverCallback
       (sfpSetWriteCallback (sfpInit raw_context) (Some 1) (Some 100)) (Some 2) (Some 100))
       (Some 3) (Some 100)) (Some 4) (Some 100)"

end
