(* ===== verification/Sfp_Transmitter.thy ===== *)
theory Sfp_Transmitter
  imports Sfp_Setup
begin

text \<open>
  The transmitter of \<^verbatim>\<open>src/src/serial_framing_protocol.cpp\<close>: the write buffer, octet
  stuffing, the frame writer, the control frames, user frames and retransmissions, the
  transmitter lock. The specification of a frame on the wire (\<open>frame_octets\<close>) is stated
  apart from the code, and the frame writer is proved to put exactly that frame on the
  wire, in full buffers.
\<close>

section \<open>The write buffer\<close>

definition sfpFlushWriteBuffer :: "'h sfp \<Rightarrow> 'h sfp res" where
  "sfpFlushWriteBuffer c =
     (case write (tx c) of
        None \<Rightarrow> Inl NullDeref
      | Some f \<Rightarrow>
          Inr (c\<lparr>trace := trace c
                   @ [Write_call f (take (writebufn (tx c)) (writebuf (tx c))) (writeData (tx c))],
                 tx := (tx c)\<lparr>writebufn := 0\<rparr>\<rparr>))"

text \<open>
  \<^verbatim>\<open>*outlen = 1\<close> is the second component; the return value of the function is always 0.
\<close>

definition sfpBufferedWrite :: "'h sfp \<Rightarrow> u8 \<Rightarrow> ('h sfp \<times> nat) res" where
  "sfpBufferedWrite c octet =
     assertR (write (tx c) \<noteq> None)
     (bindR (if SFP_CONFIG_WRITEBUF_SIZE \<le> writebufn (tx c) then sfpFlushWriteBuffer c else Inr c)
     (\<lambda>c. bindR (array_set (writebuf (tx c)) (writebufn (tx c)) octet)
     (\<lambda>wb. Inr (c\<lparr>tx := (tx c)\<lparr>writebuf := wb, writebufn := Suc (writebufn (tx c))\<rparr>\<rparr>, 1))))"

section \<open>Octet stuffing and the checksum\<close>

definition sfpWriteNoCRC :: "'h sfp \<Rightarrow> u8 \<Rightarrow> ('h sfp \<times> nat) res" where
  "sfpWriteNoCRC c octet =
     bindR (if isReservedOctet octet
            then bindR (sfpBufferedWrite c SFP_ESC) (\<lambda>(c, n). Inr (c, octet XOR SFP_ESC_FLIP_BIT, n))
            else Inr (c, octet, 0))
     (\<lambda>(c, octet, outlen). bindR (sfpBufferedWrite c octet) (\<lambda>(c, n). Inr (c, outlen + n)))"

definition sfpWrite :: "'h sfp \<Rightarrow> u8 \<Rightarrow> ('h sfp \<times> nat) res" where
  "sfpWrite c octet =
     sfpWriteNoCRC (c\<lparr>tx := (tx c)\<lparr>tx_crc := crc_ccitt_update (tx_crc (tx c)) octet\<rparr>\<rparr>) octet"

section \<open>The frame writer\<close>

text \<open>A write that adds the octets written to a running count, \<^verbatim>\<open>*outlen += n\<close>.\<close>

definition counted :: "('s \<Rightarrow> u8 \<Rightarrow> ('s \<times> nat) res) \<Rightarrow> 's \<times> nat \<Rightarrow> u8 \<Rightarrow> ('s \<times> nat) res" where
  "counted put = (\<lambda>(c, outlen) octet. bindR (put c octet) (\<lambda>(c, n). Inr (c, outlen + n)))"

definition sfpTransmitFrameWithHeader ::
  "'h sfp \<Rightarrow> u8 \<Rightarrow> SFPpacket option \<Rightarrow> ('h sfp \<times> nat) res" where
  "sfpTransmitFrameWithHeader c hdr pkt =
     bindR (counted sfpBufferedWrite (c\<lparr>tx := (tx c)\<lparr>tx_crc := SFP_CRC_PRESET\<rparr>\<rparr>, 0) SFP_FLAG)
     (\<lambda>r. bindR (counted sfpWrite r hdr)
     (\<lambda>r. bindR (case pkt of
                  None \<Rightarrow> Inr r
                | Some p \<Rightarrow>
                    foldR (\<lambda>r i. bindR (array_get (buf p) i) (counted sfpWrite r)) [0..<len p] r)
     (\<lambda>r. let crc = NOT (tx_crc (tx (fst r)))
          in bindR (foldR (\<lambda>(r, crc) i. bindR (counted sfpWriteNoCRC r (ucast (crc AND 0x00ff)))
                                              (\<lambda>r. Inr (r, drop_bit 8 crc)))
                      [0..<SFP_CRC_SIZE] (r, crc))
     (\<lambda>(r, crc). bindR (counted sfpBufferedWrite r SFP_FLAG)
     (\<lambda>(c, outlen). bindR (sfpFlushWriteBuffer c) (\<lambda>c. Inr (c, outlen)))))))"

section \<open>Control frames\<close>

definition sfpTransmitControl :: "'h sfp \<Rightarrow> u8 \<Rightarrow> 'h sfp res" where
  "sfpTransmitControl c hdr =
     bindR (sfpTransmitFrameWithHeader c hdr None) (\<lambda>(c, outlen). Inr c)"

definition sfpTransmitNAK :: "'h sfp \<Rightarrow> u8 \<Rightarrow> 'h sfp res" where
  "sfpTransmitNAK c seq = sfpTransmitControl c (makeHeader SFP_FRAME_NAK seq)"

definition sfpTransmitDIS :: "'h sfp \<Rightarrow> 'h sfp res" where
  "sfpTransmitDIS c = sfpTransmitControl c (makeHeader SFP_FRAME_SYN SFP_SEQ_SYN_DIS)"

definition sfpTransmitSYN0 :: "'h sfp \<Rightarrow> 'h sfp res" where
  "sfpTransmitSYN0 c = sfpTransmitControl c (makeHeader SFP_FRAME_SYN SFP_SEQ_SYN0)"

definition sfpTransmitSYN1 :: "'h sfp \<Rightarrow> 'h sfp res" where
  "sfpTransmitSYN1 c = sfpTransmitControl c (makeHeader SFP_FRAME_SYN SFP_SEQ_SYN1)"

definition sfpTransmitSYN2 :: "'h sfp \<Rightarrow> 'h sfp res" where
  "sfpTransmitSYN2 c = sfpTransmitControl c (makeHeader SFP_FRAME_SYN SFP_SEQ_SYN2)"

section \<open>User frames and retransmissions\<close>

definition sfpTransmitFrameImpl ::
  "('h, 'z) ringbuffer_scheme \<Rightarrow> 'h sfp \<Rightarrow> SFPpacket \<Rightarrow> bool \<Rightarrow> ('h sfp \<times> nat) res" where
  "sfpTransmitFrameImpl R c p retransmit =
     (let hdr = makeHeader (if retransmit then SFP_FRAME_RTX else SFP_FRAME_USR) (tx_seq (tx c));
          c = (if retransmit then c
               else c\<lparr>tx := (tx c)\<lparr>history := rb_pushBack R (history (tx c)) p\<rparr>\<rparr>)
      in bindR (sfpTransmitFrameWithHeader c hdr (Some p))
         (\<lambda>(c, outlen). Inr (c\<lparr>tx := (tx c)\<lparr>tx_seq := nextSeq (tx_seq (tx c))\<rparr>\<rparr>, outlen)))"

definition sfpTransmitUSR ::
  "('h, 'z) ringbuffer_scheme \<Rightarrow> 'h sfp \<Rightarrow> SFPpacket \<Rightarrow> ('h sfp \<times> nat) res" where
  "sfpTransmitUSR R c p = sfpTransmitFrameImpl R c p False"

definition sfpTransmitRTX ::
  "('h, 'z) ringbuffer_scheme \<Rightarrow> 'h sfp \<Rightarrow> SFPpacket \<Rightarrow> 'h sfp res" where
  "sfpTransmitRTX R c p = bindR (sfpTransmitFrameImpl R c p True) (\<lambda>(c, outlen). Inr c)"

section \<open>The history\<close>

text \<open>A \<^verbatim>\<open>while\<close> loop over the foreign ring buffer: that it ends is a theorem.\<close>

definition sfpClearHistory :: "('h, 'z) ringbuffer_scheme \<Rightarrow> 'h sfp \<Rightarrow> 'h sfp res" where
  "sfpClearHistory R c =
     (case while_option (\<lambda>h. \<not> rb_empty R h) (rb_popFront R) (history (tx c)) of
        None \<Rightarrow> Inl Diverged
      | Some h \<Rightarrow> Inr (c\<lparr>tx := (tx c)\<lparr>history := h\<rparr>\<rparr>))"

definition sfpTransmitHistory :: "('h, 'z) ringbuffer_scheme \<Rightarrow> 'h sfp \<Rightarrow> 'h sfp res" where
  "sfpTransmitHistory R c =
     foldR (\<lambda>c i. sfpTransmitRTX R c (rb_at R (history (tx c)) i))
       [0..<rb_size R (history (tx c))] c"

text \<open>
  \<^verbatim>\<open>unsigned fastforward = seq - (ctx->tx.seq - ctx->tx.history.size())\<close>: both
  subtractions are done in \<^verbatim>\<open>size_t\<close> (64 bits here), the result is truncated to
  \<^verbatim>\<open>unsigned\<close> (32 bits) and masked.
\<close>

definition fastforward_of :: "u8 \<Rightarrow> u8 \<Rightarrow> nat \<Rightarrow> 32 word" where
  "fastforward_of seq txseq n =
     ucast (ucast seq - (ucast txseq - of_nat n) :: 64 word) AND (ucast SFP_SEQ_RANGE - 1)"

definition sfpTransmitHistoryFromSeq ::
  "('h, 'z) ringbuffer_scheme \<Rightarrow> 'h sfp \<Rightarrow> u8 \<Rightarrow> 'h sfp res" where
  "sfpTransmitHistoryFromSeq R c seq =
     (let h = history (tx c);
          fastforward = unat (fastforward_of seq (tx_seq (tx c)) (rb_size R h));
          h = (if fastforward < rb_size R h then (rb_popFront R ^^ fastforward) h else h)
      in sfpTransmitHistory R (c\<lparr>tx := (tx c)\<lparr>history := h, tx_seq := seq\<rparr>\<rparr>))"

section \<open>The transmitter lock\<close>

definition sfpIsTransmitterLockable :: "'h sfp \<Rightarrow> bool" where
  "sfpIsTransmitterLockable c \<longleftrightarrow> lock (tx c) \<noteq> None \<and> unlock (tx c) \<noteq> None"

definition sfpLockTransmitter :: "'h sfp \<Rightarrow> 'h sfp" where
  "sfpLockTransmitter c =
     (if sfpIsTransmitterLockable c
      then c\<lparr>trace := trace c @ [Lock_call (the (lock (tx c))) (lockData (tx c))]\<rparr> else c)"

definition sfpUnlockTransmitter :: "'h sfp \<Rightarrow> 'h sfp" where
  "sfpUnlockTransmitter c =
     (if sfpIsTransmitterLockable c
      then c\<lparr>trace := trace c @ [Unlock_call (the (unlock (tx c))) (unlockData (tx c))]\<rparr> else c)"

text \<open>
  A scope guarded by a \<^verbatim>\<open>TransmitterLock\<close> object: its constructor locks, its
  destructor unlocks when the scope is left.
\<close>

definition TransmitterLock :: "('h sfp \<Rightarrow> 'h sfp res) \<Rightarrow> 'h sfp \<Rightarrow> 'h sfp res" where
  "TransmitterLock scope c =
     bindR (scope (sfpLockTransmitter c)) (\<lambda>c. Inr (sfpUnlockTransmitter c))"

section \<open>Specification: frames on the wire\<close>

definition escape_octet :: "u8 \<Rightarrow> u8 list" where
  "escape_octet octet =
     (if octet = SFP_ESC \<or> octet = SFP_FLAG then [SFP_ESC, octet XOR SFP_ESC_FLIP_BIT] else [octet])"

definition escape :: "u8 list \<Rightarrow> u8 list" where
  "escape octets = concat (map escape_octet octets)"

definition frame_body :: "u8 \<Rightarrow> u8 list \<Rightarrow> u8 list" where
  "frame_body hdr bs = (hdr # bs) @ fcs_octets (crc_octets (hdr # bs))"

definition frame_octets :: "u8 \<Rightarrow> u8 list \<Rightarrow> u8 list" where
  "frame_octets hdr bs = SFP_FLAG # escape (frame_body hdr bs) @ [SFP_FLAG]"

text \<open>The octets handed to the write callback, in order.\<close>

primrec event_octets :: "event \<Rightarrow> u8 list" where
  "event_octets (Write_call f bs d) = bs"
| "event_octets (Deliver_call f bs d) = []"
| "event_octets (Lock_call f d) = []"
| "event_octets (Unlock_call f d) = []"

definition out_octets :: "event list \<Rightarrow> u8 list" where
  "out_octets es = concat (map event_octets es)"

text \<open>Cutting a list into pieces of \<open>k\<close> elements, the last one shorter.\<close>

fun chunks :: "nat \<Rightarrow> 'a list \<Rightarrow> 'a list list" where
  "chunks k xs =
     (if k = 0 \<or> length xs \<le> k then [xs] else take k xs # chunks k (drop k xs))"

declare chunks.simps [simp del]

lemma chunks_concat:
  assumes "\<forall>w \<in> set ws. length w = k" and "length p \<le> k" and "ws \<noteq> [] \<Longrightarrow> p \<noteq> []" and "0 < k"
  shows "chunks k (concat ws @ p) = ws @ [p]"
  using assms
proof (induction ws)
  case (Cons w ws)
  then have "k < length (concat (w # ws) @ p)" by (cases p) auto
  with Cons show ?case by (subst chunks.simps) auto
qed (simp add: chunks.simps)

lemma concat_chunks: "concat (chunks k xs) = xs"
  by (induction k xs rule: chunks.induct) (subst chunks.simps, simp)

lemma chunks_some: "w \<in> set (chunks k xs) \<Longrightarrow> xs \<noteq> [] \<Longrightarrow> w \<noteq> []"
  by (induction k xs rule: chunks.induct) (subst (asm) (2) chunks.simps, auto split: if_splits)

lemma chunks_bound: "0 < k \<Longrightarrow> w \<in> set (chunks k xs) \<Longrightarrow> length w \<le> k"
  by (induction k xs rule: chunks.induct) (subst (asm) (2) chunks.simps, auto split: if_splits)

lemma escape_Nil [simp]: "escape [] = []"
  by (simp add: escape_def)

lemma escape_Cons: "escape (x # xs) = escape_octet x @ escape xs"
  by (simp add: escape_def)

lemma escape_append: "escape (xs @ ys) = escape xs @ escape ys"
  by (simp add: escape_def)

section \<open>The interface of an octet writer\<close>

text \<open>
  The three write functions are layers of one interface: a writer takes one octet, adds its
  encoding to what has been emitted, reports the number of octets of the encoding and
  updates a view of its state (here the checksum register). A loop over a writer then
  emits the encoding of the whole list.
\<close>

locale octet_writer =
  fixes ok :: "'s \<Rightarrow> bool" and put :: "'s \<Rightarrow> u8 \<Rightarrow> ('s \<times> nat) res"
    and emitted :: "'s \<Rightarrow> u8 list" and view :: "'s \<Rightarrow> 'v"
    and enc :: "u8 \<Rightarrow> u8 list" and upd :: "'v \<Rightarrow> u8 \<Rightarrow> 'v"
  assumes put_ok:
    "ok s \<Longrightarrow> \<exists>s'. put s octet = Inr (s', length (enc octet)) \<and> ok s'
        \<and> emitted s' = emitted s @ enc octet \<and> view s' = upd (view s) octet"
begin

lemma counted_ok:
  "ok s \<Longrightarrow> \<exists>s'. counted put (s, k) octet = Inr (s', k + length (enc octet)) \<and> ok s'
      \<and> emitted s' = emitted s @ enc octet \<and> view s' = upd (view s) octet"
  using put_ok [of s octet] by (auto simp: counted_def)

lemma writes_ok:
  "ok s \<Longrightarrow> \<exists>s'. foldR (counted put) octets (s, k) = Inr (s', k + length (concat (map enc octets)))
      \<and> ok s' \<and> emitted s' = emitted s @ concat (map enc octets) \<and> view s' = foldl upd (view s) octets"
proof (induction octets arbitrary: s k)
  case (Cons octet octets)
  then obtain s1 where s1: "counted put (s, k) octet = Inr (s1, k + length (enc octet))" "ok s1"
      "emitted s1 = emitted s @ enc octet" "view s1 = upd (view s) octet"
    using counted_ok by blast
  from Cons.IH [OF s1(2), of "k + length (enc octet)"] show ?case
    using s1 by (auto simp: add.assoc)
qed simp

end

section \<open>The three write functions are octet writers\<close>

definition tx_ok :: "'h sfp \<Rightarrow> bool" where
  "tx_ok c \<longleftrightarrow> write (tx c) \<noteq> None \<and> length (writebuf (tx c)) = SFP_CONFIG_WRITEBUF_SIZE
     \<and> writebufn (tx c) = 0"

abbreviation write_calls :: "'h sfp \<Rightarrow> u8 list list \<Rightarrow> event list" where
  "write_calls b ws \<equiv> map (\<lambda>w. Write_call (the (write (tx b))) w (writeData (tx b))) ws"

lemma out_octets_simps [simp]:
  "out_octets [] = []"
  "out_octets (e # es) = event_octets e @ out_octets es"
  "out_octets (es @ fs) = out_octets es @ out_octets fs"
  "out_octets (map (\<lambda>w. Write_call f w d) ws) = concat ws"
  by (simp_all add: out_octets_def comp_def)

text \<open>
  The states a frame writer that started in \<open>b\<close> goes through: the checksum register and
  the write buffer have changed, and the buffers written so far were full.
\<close>

definition midframe :: "'h sfp \<Rightarrow> u8 list list \<Rightarrow> u8 list \<Rightarrow> nat \<Rightarrow> u16 \<Rightarrow> 'h sfp" where
  "midframe b ws wb n crc =
     b\<lparr>tx := (tx b)\<lparr>tx_crc := crc, writebuf := wb, writebufn := n\<rparr>,
       trace := trace b @ write_calls b ws\<rparr>"

definition buffers_ok :: "u8 list list \<Rightarrow> u8 list \<Rightarrow> nat \<Rightarrow> bool" where
  "buffers_ok ws wb n \<longleftrightarrow>
     length wb = SFP_CONFIG_WRITEBUF_SIZE \<and> n \<le> SFP_CONFIG_WRITEBUF_SIZE
     \<and> (\<forall>w \<in> set ws. length w = SFP_CONFIG_WRITEBUF_SIZE) \<and> (ws \<noteq> [] \<longrightarrow> 0 < n)"

definition in_frame :: "'h sfp \<Rightarrow> 'h sfp \<Rightarrow> bool" where
  "in_frame b c \<longleftrightarrow> write (tx b) \<noteq> None
     \<and> (\<exists>ws wb n crc. c = midframe b ws wb n crc \<and> buffers_ok ws wb n)"

text \<open>What has been emitted since \<open>b\<close>: what was written and what waits in the buffer.\<close>

definition emitted_since :: "'h sfp \<Rightarrow> 'h sfp \<Rightarrow> u8 list" where
  "emitted_since b c =
     out_octets (drop (length (trace b)) (trace c)) @ take (writebufn (tx c)) (writebuf (tx c))"

lemma emitted_midframe [simp]:
  "emitted_since b (midframe b ws wb n crc) = concat ws @ take n wb"
  by (simp add: emitted_since_def midframe_def)

lemma tx_crc_midframe [simp]: "tx_crc (tx (midframe b ws wb n crc)) = crc"
  by (simp add: midframe_def)

lemma in_frame_midframe:
  "write (tx b) \<noteq> None \<Longrightarrow> buffers_ok ws wb n \<Longrightarrow> in_frame b (midframe b ws wb n crc)"
  by (auto simp: in_frame_def)

lemma flush_midframe:
  "write (tx b) \<noteq> None \<Longrightarrow>
   sfpFlushWriteBuffer (midframe b ws wb n crc) = Inr (midframe b (ws @ [take n wb]) wb 0 crc)"
  by (auto simp: sfpFlushWriteBuffer_def midframe_def)

lemma buffered_midframe:
  assumes "write (tx b) \<noteq> None" and "buffers_ok ws wb n"
  shows "sfpBufferedWrite (midframe b ws wb n crc) octet =
    Inr (if n < SFP_CONFIG_WRITEBUF_SIZE then midframe b ws (wb[n := octet]) (Suc n) crc
         else midframe b (ws @ [take n wb]) (wb[0 := octet]) 1 crc, 1)"
proof -
  have mid: "write (tx (midframe b ws wb n crc)) = write (tx b)"
      "writebuf (tx (midframe b ws wb n crc)) = wb"
      "writebufn (tx (midframe b ws wb n crc)) = n"
      "(midframe b ws wb n crc)\<lparr>tx := (tx (midframe b ws wb n crc))\<lparr>writebuf := wb', writebufn := n'\<rparr>\<rparr>
         = midframe b ws wb' n' crc" for ws wb n crc wb' n'
    by (simp_all add: midframe_def)
  show ?thesis
    using assms by (auto simp: sfpBufferedWrite_def mid flush_midframe buffers_ok_def sfp_consts)
qed

interpretation bw: octet_writer "in_frame b" sfpBufferedWrite "emitted_since b"
  "\<lambda>c. tx_crc (tx c)" "\<lambda>octet. [octet]" "\<lambda>crc octet. crc" for b :: "'h sfp"
proof
  fix c :: "'h sfp" and octet
  assume "in_frame b c"
  then obtain ws wb n crc where b: "write (tx b) \<noteq> None" and c: "c = midframe b ws wb n crc"
    and ok: "buffers_ok ws wb n" by (auto simp: in_frame_def)
  show "\<exists>c'. sfpBufferedWrite c octet = Inr (c', length [octet]) \<and> in_frame b c'
      \<and> emitted_since b c' = emitted_since b c @ [octet] \<and> tx_crc (tx c') = tx_crc (tx c)"
  proof (cases "n < SFP_CONFIG_WRITEBUF_SIZE")
    case True
    with ok have "buffers_ok ws (wb[n := octet]) (Suc n)" by (auto simp: buffers_ok_def)
    with True b ok show ?thesis
      by (simp add: c buffered_midframe in_frame_midframe) (simp add: buffers_ok_def)
  next
    case False
    with ok have "buffers_ok (ws @ [take n wb]) (wb[0 := octet]) 1"
      by (auto simp: buffers_ok_def sfp_consts)
    moreover from False ok have "take 1 (wb[0 := octet]) = [octet]"
      by (cases wb) (auto simp: buffers_ok_def sfp_consts)
    ultimately show ?thesis
      using False b ok by (simp add: c buffered_midframe in_frame_midframe)
  qed
qed

lemma isReserved_escape:
  "escape_octet octet = (if isReservedOctet octet then [SFP_ESC, octet XOR SFP_ESC_FLIP_BIT] else [octet])"
  by (simp add: escape_octet_def isReservedOctet_def)

interpretation wnc: octet_writer "in_frame b" sfpWriteNoCRC "emitted_since b"
  "\<lambda>c. tx_crc (tx c)" escape_octet "\<lambda>crc octet. crc" for b :: "'h sfp"
proof
  fix c :: "'h sfp" and octet
  assume c: "in_frame b c"
  show "\<exists>c'. sfpWriteNoCRC c octet = Inr (c', length (escape_octet octet)) \<and> in_frame b c'
      \<and> emitted_since b c' = emitted_since b c @ escape_octet octet \<and> tx_crc (tx c') = tx_crc (tx c)"
  proof (cases "isReservedOctet octet")
    case True
    from bw.put_ok [OF c, of SFP_ESC] obtain c1 where c1: "sfpBufferedWrite c SFP_ESC = Inr (c1, 1)"
      "in_frame b c1" "emitted_since b c1 = emitted_since b c @ [SFP_ESC]" "tx_crc (tx c1) = tx_crc (tx c)"
      by auto
    from bw.put_ok [OF c1(2), of "octet XOR SFP_ESC_FLIP_BIT"] c1 True show ?thesis
      by (auto simp: sfpWriteNoCRC_def isReserved_escape)
  next
    case False
    with bw.put_ok [OF c, of octet] show ?thesis
      by (auto simp: sfpWriteNoCRC_def isReserved_escape)
  qed
qed

interpretation wr: octet_writer "in_frame b" sfpWrite "emitted_since b"
  "\<lambda>c. tx_crc (tx c)" escape_octet crc_ccitt_update for b :: "'h sfp"
proof
  fix c :: "'h sfp" and octet
  assume "in_frame b c"
  then obtain ws wb n crc where b: "write (tx b) \<noteq> None" and c: "c = midframe b ws wb n crc"
    and ok: "buffers_ok ws wb n" by (auto simp: in_frame_def)
  have upd: "c\<lparr>tx := (tx c)\<lparr>tx_crc := crc_ccitt_update (tx_crc (tx c)) octet\<rparr>\<rparr>
      = midframe b ws wb n (crc_ccitt_update crc octet)"
    by (simp add: c midframe_def)
  show "\<exists>c'. sfpWrite c octet = Inr (c', length (escape_octet octet)) \<and> in_frame b c'
      \<and> emitted_since b c' = emitted_since b c @ escape_octet octet
      \<and> tx_crc (tx c') = crc_ccitt_update (tx_crc (tx c)) octet"
    using wnc.put_ok [OF in_frame_midframe [OF b ok], of "crc_ccitt_update crc octet" octet]
    by (simp add: sfpWrite_def upd) (simp add: c)
qed


section \<open>The frame writer puts one frame on the wire\<close>

definition packet_octets :: "SFPpacket option \<Rightarrow> u8 list" where
  "packet_octets pkt = (case pkt of None \<Rightarrow> [] | Some p \<Rightarrow> payload p)"

definition packet_fits :: "SFPpacket option \<Rightarrow> bool" where
  "packet_fits pkt \<longleftrightarrow> (case pkt of None \<Rightarrow> True | Some p \<Rightarrow> len p \<le> length (buf p))"

lemma packet_fits_simps [simp]:
  "packet_fits None" "packet_fits (Some p) \<longleftrightarrow> len p \<le> length (buf p)"
  "packet_octets None = []" "packet_octets (Some p) = payload p"
  by (simp_all add: packet_fits_def packet_octets_def)

lemma packet_loop:
  "packet_fits pkt \<Longrightarrow>
   (case pkt of None \<Rightarrow> Inr r
    | Some p \<Rightarrow> foldR (\<lambda>r i. bindR (array_get (buf p) i) (counted sfpWrite r)) [0..<len p] r)
   = foldR (counted sfpWrite) (packet_octets pkt) r"
  by (cases pkt) (auto simp: foldR_array payload_def)

text \<open>The loop over the two octets of the complemented checksum, low octet first.\<close>

lemma fcs_loop:
  "bindR (foldR (\<lambda>(r, crc) i. bindR (counted sfpWriteNoCRC r (ucast (crc AND 0x00ff)))
                                   (\<lambda>r. Inr (r, drop_bit 8 crc)))
           [0..<SFP_CRC_SIZE] (r, NOT crc)) (\<lambda>(r, crc). k r)
   = bindR (foldR (counted sfpWriteNoCRC) (fcs_octets crc) r) k"
proof -
  have two: "[0..<SFP_CRC_SIZE] = [0, 1]" by (simp add: sfp_consts upt_rec)
  show ?thesis
    unfolding two fcs_octets_def lo_octet by (simp add: bindR_assoc lo_octet)
qed

lemma flush_in_frame:
  assumes "in_frame b c" and "emitted_since b c = os" and "os \<noteq> []"
    and last: "0 < writebufn (tx c)"
  shows "\<exists>wb. sfpFlushWriteBuffer c = Inr (b\<lparr>tx := (tx b)\<lparr>tx_crc := tx_crc (tx c), writebuf := wb,
             writebufn := 0\<rparr>, trace := trace b @ write_calls b (chunks SFP_CONFIG_WRITEBUF_SIZE os)\<rparr>)
           \<and> length wb = SFP_CONFIG_WRITEBUF_SIZE"
proof -
  from assms(1) obtain ws wb n crc where b: "write (tx b) \<noteq> None" and c: "c = midframe b ws wb n crc"
    and ok: "buffers_ok ws wb n" by (auto simp: in_frame_def)
  have "0 < n" using last by (simp add: c midframe_def)
  then have "chunks SFP_CONFIG_WRITEBUF_SIZE (concat ws @ take n wb) = ws @ [take n wb]"
    using ok by (intro chunks_concat) (auto simp: buffers_ok_def sfp_consts)
  then have "chunks SFP_CONFIG_WRITEBUF_SIZE os = ws @ [take n wb]"
    using assms(2) by (simp add: c)
  moreover have "sfpFlushWriteBuffer c = Inr (midframe b (ws @ [take n wb]) wb 0 crc)"
    by (simp add: c flush_midframe [OF b])
  ultimately show ?thesis
    using ok by (intro exI [of _ wb]) (simp add: c midframe_def buffers_ok_def)
qed

lemma sfpBufferedWrite_pending: "sfpBufferedWrite c octet = Inr (c', n) \<Longrightarrow> 0 < writebufn (tx c')"
  by (auto simp: sfpBufferedWrite_def assertR_def bindR_eq_Inr split: if_splits)

lemma start_midframe:
  assumes "tx_ok c"
  shows "c\<lparr>tx := (tx c)\<lparr>tx_crc := crc\<rparr>\<rparr> = midframe c [] (writebuf (tx c)) 0 crc"
    and "in_frame c (midframe c [] (writebuf (tx c)) 0 crc)"
proof -
  show "c\<lparr>tx := (tx c)\<lparr>tx_crc := crc\<rparr>\<rparr> = midframe c [] (writebuf (tx c)) 0 crc"
    using assms by (cases "tx c") (auto simp: tx_ok_def midframe_def)
  show "in_frame c (midframe c [] (writebuf (tx c)) 0 crc)"
    using assms by (intro in_frame_midframe) (auto simp: tx_ok_def buffers_ok_def)
qed

lemma foldl_const [simp]: "foldl (\<lambda>v x. v) v xs = v"
  by (induction xs) auto

lemma frame_writer_exists:
  assumes ok: "tx_ok c" and fits: "packet_fits pkt"
  defines "bs \<equiv> packet_octets pkt"
  shows "\<exists>wb. sfpTransmitFrameWithHeader c hdr pkt =
      Inr (c\<lparr>tx := (tx c)\<lparr>tx_crc := crc_octets (hdr # bs), writebuf := wb, writebufn := 0\<rparr>,
             trace := trace c @ write_calls c (chunks SFP_CONFIG_WRITEBUF_SIZE (frame_octets hdr bs))\<rparr>,
           length (frame_octets hdr bs))
    \<and> length wb = SFP_CONFIG_WRITEBUF_SIZE"
proof -
  let ?c0 = "midframe c [] (writebuf (tx c)) 0 SFP_CRC_PRESET"
  let ?crc = "crc_octets (hdr # bs)"
  note start = start_midframe [OF ok, of SFP_CRC_PRESET]
  obtain c1 where c1: "counted sfpBufferedWrite (?c0, 0) SFP_FLAG = Inr (c1, 1)" "in_frame c c1"
      "emitted_since c c1 = [SFP_FLAG]" "tx_crc (tx c1) = SFP_CRC_PRESET"
    using bw.counted_ok [OF start(2), of 0 SFP_FLAG] by auto
  obtain c2 where c2: "foldR (counted sfpWrite) (hdr # bs) (c1, 1) = Inr (c2, 1 + length (escape (hdr # bs)))"
      "in_frame c c2" "emitted_since c c2 = SFP_FLAG # escape (hdr # bs)" "tx_crc (tx c2) = ?crc"
    using wr.writes_ok [OF c1(2), of "hdr # bs" 1] c1(3,4) by (auto simp: escape_def crc_octets_def)
  obtain c3 where c3: "foldR (counted sfpWriteNoCRC) (fcs_octets ?crc) (c2, 1 + length (escape (hdr # bs)))
        = Inr (c3, 1 + length (escape (frame_body hdr bs)))" "in_frame c c3"
      "emitted_since c c3 = SFP_FLAG # escape (frame_body hdr bs)" "tx_crc (tx c3) = ?crc"
    using wnc.writes_ok [OF c2(2), of "fcs_octets ?crc" "1 + length (escape (hdr # bs))"] c2(3,4)
    by (auto simp: escape_def frame_body_def)
  obtain c4 where c4: "counted sfpBufferedWrite (c3, 1 + length (escape (frame_body hdr bs))) SFP_FLAG
        = Inr (c4, length (frame_octets hdr bs))" "in_frame c c4"
      "emitted_since c c4 = frame_octets hdr bs" "tx_crc (tx c4) = ?crc"
    using bw.counted_ok [OF c3(2), of "1 + length (escape (frame_body hdr bs))" SFP_FLAG] c3(3,4)
    by (auto simp: frame_octets_def)
  have pend: "0 < writebufn (tx c4)"
    using c4(1) by (auto simp: counted_def bindR_eq_Inr dest: sfpBufferedWrite_pending)
  obtain wb where wb: "sfpFlushWriteBuffer c4 = Inr (c\<lparr>tx := (tx c)\<lparr>tx_crc := ?crc, writebuf := wb,
        writebufn := 0\<rparr>, trace := trace c @ write_calls c (chunks SFP_CONFIG_WRITEBUF_SIZE (frame_octets hdr bs))\<rparr>)"
      "length wb = SFP_CONFIG_WRITEBUF_SIZE"
    using flush_in_frame [OF c4(2,3) _ pend] c4(4) by (auto simp: frame_octets_def)
  have body: "bindR (counted sfpWrite (c1, 1) hdr) (\<lambda>r. foldR (counted sfpWrite) (packet_octets pkt) r)
      = Inr (c2, 1 + length (escape (hdr # bs)))"
    using c2(1) by (simp add: bs_def)
  then obtain r where r: "counted sfpWrite (c1, 1) hdr = Inr r"
      "foldR (counted sfpWrite) (packet_octets pkt) r = Inr (c2, 1 + length (escape (hdr # bs)))"
    by (auto simp: bindR_eq_Inr)
  show ?thesis
    unfolding sfpTransmitFrameWithHeader_def packet_loop [OF fits] Let_def fcs_loop
    using start(1) c1(1) r c2(4) c3(1) c4(1) wb by auto
qed

text \<open>The state after a frame was sent, and the callback calls that sent it.\<close>

definition frame_calls :: "'h sfp \<Rightarrow> u8 \<Rightarrow> u8 list \<Rightarrow> event list" where
  "frame_calls c hdr bs = write_calls c (chunks SFP_CONFIG_WRITEBUF_SIZE (frame_octets hdr bs))"

definition put_frame :: "'h sfp \<Rightarrow> u8 \<Rightarrow> SFPpacket option \<Rightarrow> 'h sfp" where
  "put_frame c hdr pkt =
     c\<lparr>tx := (tx c)\<lparr>tx_crc := crc_octets (hdr # packet_octets pkt),
                    writebuf := writebuf (tx (fst (projr (sfpTransmitFrameWithHeader c hdr pkt)))),
                    writebufn := 0\<rparr>,
       trace := trace c @ frame_calls c hdr (packet_octets pkt)\<rparr>"

lemma sfpTransmitFrameWithHeader_eq:
  assumes "tx_ok c" and "packet_fits pkt"
  shows "sfpTransmitFrameWithHeader c hdr pkt
      = Inr (put_frame c hdr pkt, length (frame_octets hdr (packet_octets pkt)))"
    and "tx_ok (put_frame c hdr pkt)"
  using frame_writer_exists [OF assms, of hdr] assms(1)
  by (auto simp: put_frame_def frame_calls_def tx_ok_def)

lemma put_frame_simps [simp]:
  "rx (put_frame c hdr pkt) = rx c"
  "connectState (put_frame c hdr pkt) = connectState c"
  "tx_seq (tx (put_frame c hdr pkt)) = tx_seq (tx c)"
  "history (tx (put_frame c hdr pkt)) = history (tx c)"
  "write (tx (put_frame c hdr pkt)) = write (tx c)"
  "writeData (tx (put_frame c hdr pkt)) = writeData (tx c)"
  "lock (tx (put_frame c hdr pkt)) = lock (tx c)"
  "lockData (tx (put_frame c hdr pkt)) = lockData (tx c)"
  "unlock (tx (put_frame c hdr pkt)) = unlock (tx c)"
  "unlockData (tx (put_frame c hdr pkt)) = unlockData (tx c)"
  "trace (put_frame c hdr pkt) = trace c @ frame_calls c hdr (packet_octets pkt)"
  by (simp_all add: put_frame_def)

lemma out_frame_calls [simp]: "out_octets (frame_calls c hdr bs) = frame_octets hdr bs"
  by (simp add: frame_calls_def concat_chunks)

lemma frame_calls_cong:
  "write (tx c) = write (tx d) \<Longrightarrow> writeData (tx c) = writeData (tx d) \<Longrightarrow>
   frame_calls c hdr bs = frame_calls d hdr bs"
  by (simp add: frame_calls_def)

text \<open>
  C24. The frame writer puts exactly one frame on the wire: a flag, the stuffed header,
  payload and complemented checksum, and a flag. It hands the frame to the write callback
  in buffers of at most \<^verbatim>\<open>SFP_CONFIG_WRITEBUF_SIZE\<close> octets, reports the number of octets
  written, leaves nothing in the buffer, and changes neither the receiver, the connection
  state, the sequence number nor the history.
\<close>

theorem frame_writer_correct:
  assumes "tx_ok c" and "packet_fits pkt"
  shows "\<exists>c' calls. sfpTransmitFrameWithHeader c hdr pkt
        = Inr (c', length (frame_octets hdr (packet_octets pkt)))
      \<and> trace c' = trace c @ calls
      \<and> (\<forall>e \<in> set calls. \<exists>w. e = Write_call (the (write (tx c))) w (writeData (tx c))
            \<and> length w \<le> SFP_CONFIG_WRITEBUF_SIZE)
      \<and> out_octets calls = frame_octets hdr (packet_octets pkt)
      \<and> tx_ok c' \<and> rx c' = rx c \<and> connectState c' = connectState c
      \<and> tx_seq (tx c') = tx_seq (tx c) \<and> history (tx c') = history (tx c)"
proof -
  have "\<exists>w. e = Write_call (the (write (tx c))) w (writeData (tx c)) \<and> length w \<le> SFP_CONFIG_WRITEBUF_SIZE"
    if "e \<in> set (frame_calls c hdr (packet_octets pkt))" for e
    using that by (auto simp: frame_calls_def sfp_consts dest: chunks_bound [rotated])
  with sfpTransmitFrameWithHeader_eq [OF assms, of hdr] show ?thesis
    by (intro exI [of _ "put_frame c hdr pkt"] exI [of _ "frame_calls c hdr (packet_octets pkt)"]) simp
qed

lemma tx_ok_example: "tx_ok example_context"
  by (simp add: example_context_def raw_context_def setup_defs tx_ok_def)

theorem frame_writer_correct_witness:
  "\<exists>c' n. sfpTransmitFrameWithHeader example_context 0x42 (Some raw_packet) = Inr (c', n)
     \<and> out_octets (trace c') = frame_octets 0x42 []"
proof -
  have "packet_fits (Some raw_packet)" by (simp add: raw_packet_def)
  moreover have "trace example_context = []"
    by (simp add: example_context_def raw_context_def setup_defs)
  ultimately show ?thesis
    using frame_writer_correct [OF tx_ok_example, of "Some raw_packet" "0x42"]
    by (auto simp: payload_def raw_packet_def)
qed

section \<open>What the other transmitter functions do\<close>

text \<open>Arithmetic of the fast-forward computation.\<close>

lemma ucast_of_int: "(ucast (word_of_int x :: 64 word) :: 32 word) = word_of_int x"
  by (rule bit_word_eqI) (simp add: bit_simps)

lemma uint_low_bits: "uint (take_bit 6 (word_of_int x :: 32 word)) = x mod 64"
  by (simp add: unsigned_take_bit_eq uint_word_of_int) (simp add: take_bit_eq_mod mod_mod_cancel)

lemma fastforward_int:
  "uint (fastforward_of seq txseq n) = (uint seq - uint txseq + int n) mod 64"
proof -
  let ?x = "uint seq - uint txseq + int n"
  have m: "ucast SFP_SEQ_RANGE - 1 = (mask 6 :: 32 word)"
    by (simp add: sfp_consts mask_eq_exp_minus_1)
  have w: "(ucast seq - (ucast txseq - of_nat n) :: 64 word) = word_of_int ?x"
    by (simp add: of_int_uint unsigned_of_int)
  have "uint (fastforward_of seq txseq n) = uint (take_bit 6 (word_of_int ?x :: 32 word))"
    by (simp only: fastforward_of_def m w ucast_of_int take_bit_eq_mask)
  also have "\<dots> = ?x mod 64"
    by (rule uint_low_bits)
  finally show ?thesis .
qed

text \<open>In natural numbers, for sequence numbers in range.\<close>

lemma seq_ok_unat: "seq_ok s \<longleftrightarrow> unat s < 64"
  by (simp add: seq_ok_def sfp_consts word_less_nat_alt)

lemma fastforward_nat:
  assumes "seq_ok txseq"
  shows "unat (fastforward_of seq txseq n) = (unat seq + (64 - unat txseq) + n) mod 64"
proof -
  have "int (unat (fastforward_of seq txseq n)) = (uint seq - uint txseq + int n) mod 64"
    by (simp add: fastforward_int)
  also have "\<dots> = (uint seq - uint txseq + int n + 64) mod 64" by simp
  also have "\<dots> = int ((unat seq + (64 - unat txseq) + n) mod 64)"
    using assms by (simp add: seq_ok_unat of_nat_diff zmod_int algebra_simps)
  finally show ?thesis by (simp only: of_nat_eq_iff)
qed


lemma control_eq [simp]:
  "tx_ok c \<Longrightarrow> sfpTransmitControl c hdr = Inr (put_frame c hdr None)"
  by (simp add: sfpTransmitControl_def sfpTransmitFrameWithHeader_eq)

lemma tx_ok_put_frame [simp]: "tx_ok c \<Longrightarrow> packet_fits pkt \<Longrightarrow> tx_ok (put_frame c hdr pkt)"
  by (rule sfpTransmitFrameWithHeader_eq)

lemmas control_defs = sfpTransmitNAK_def sfpTransmitDIS_def sfpTransmitSYN0_def
  sfpTransmitSYN1_def sfpTransmitSYN2_def

text \<open>A user frame or a retransmission: one frame, and the next sequence number.\<close>

definition put_packet :: "SFPframetype \<Rightarrow> 'h sfp \<Rightarrow> SFPpacket \<Rightarrow> 'h sfp" where
  "put_packet t c p =
     (let c' = put_frame c (makeHeader t (tx_seq (tx c))) (Some p)
      in c'\<lparr>tx := (tx c')\<lparr>tx_seq := nextSeq (tx_seq (tx c))\<rparr>\<rparr>)"

lemma tx_ok_upd [simp]:
  "tx_ok (c\<lparr>tx := (tx c)\<lparr>tx_seq := s\<rparr>\<rparr>) \<longleftrightarrow> tx_ok c"
  "tx_ok (c\<lparr>tx := (tx c)\<lparr>history := h\<rparr>\<rparr>) \<longleftrightarrow> tx_ok c"
  "tx_ok (c\<lparr>tx := (tx c)\<lparr>tx_seq := s, history := h\<rparr>\<rparr>) \<longleftrightarrow> tx_ok c"
  "tx_ok (c\<lparr>rx := r\<rparr>) \<longleftrightarrow> tx_ok c"
  "tx_ok (c\<lparr>connectState := st\<rparr>) \<longleftrightarrow> tx_ok c"
  "tx_ok (c\<lparr>trace := es\<rparr>) \<longleftrightarrow> tx_ok c"
  by (simp_all add: tx_ok_def)

lemma put_packet_simps [simp]:
  "rx (put_packet t c p) = rx c"
  "connectState (put_packet t c p) = connectState c"
  "tx_seq (tx (put_packet t c p)) = nextSeq (tx_seq (tx c))"
  "history (tx (put_packet t c p)) = history (tx c)"
  "write (tx (put_packet t c p)) = write (tx c)"
  "writeData (tx (put_packet t c p)) = writeData (tx c)"
  "lock (tx (put_packet t c p)) = lock (tx c)"
  "lockData (tx (put_packet t c p)) = lockData (tx c)"
  "unlock (tx (put_packet t c p)) = unlock (tx c)"
  "unlockData (tx (put_packet t c p)) = unlockData (tx c)"
  "trace (put_packet t c p) = trace c @ frame_calls c (makeHeader t (tx_seq (tx c))) (payload p)"
  by (simp_all add: put_packet_def Let_def)

lemma tx_ok_put_packet [simp]: "tx_ok c \<Longrightarrow> len p \<le> length (buf p) \<Longrightarrow> tx_ok (put_packet t c p)"
  by (simp add: put_packet_def Let_def)

lemma sfpTransmitRTX_eq:
  "tx_ok c \<Longrightarrow> len p \<le> length (buf p) \<Longrightarrow>
   sfpTransmitRTX R c p = Inr (put_packet SFP_FRAME_RTX c p)"
  by (simp add: sfpTransmitRTX_def sfpTransmitFrameImpl_def sfpTransmitFrameWithHeader_eq put_packet_def Let_def)

lemma sfpTransmitUSR_eq:
  assumes "tx_ok c" and "len p \<le> length (buf p)"
  shows "sfpTransmitUSR R c p =
     Inr (put_packet SFP_FRAME_USR (c\<lparr>tx := (tx c)\<lparr>history := rb_pushBack R (history (tx c)) p\<rparr>\<rparr>) p,
          length (frame_octets (makeHeader SFP_FRAME_USR (tx_seq (tx c))) (payload p)))"
  using assms
  by (simp add: sfpTransmitUSR_def sfpTransmitFrameImpl_def sfpTransmitFrameWithHeader_eq put_packet_def Let_def)

text \<open>The retransmission of a list of packets.\<close>

primrec put_history :: "'h sfp \<Rightarrow> SFPpacket list \<Rightarrow> 'h sfp" where
  "put_history c [] = c"
| "put_history c (p # ps) = put_history (put_packet SFP_FRAME_RTX c p) ps"

primrec rtx_frames :: "u8 \<Rightarrow> SFPpacket list \<Rightarrow> (u8 \<times> u8 list) list" where
  "rtx_frames s [] = []"
| "rtx_frames s (p # ps) = (makeHeader SFP_FRAME_RTX s, payload p) # rtx_frames (nextSeq s) ps"

definition frames_calls :: "'h sfp \<Rightarrow> (u8 \<times> u8 list) list \<Rightarrow> event list" where
  "frames_calls c fs = concat (map (\<lambda>(hdr, bs). frame_calls c hdr bs) fs)"

definition frames_octets :: "(u8 \<times> u8 list) list \<Rightarrow> u8 list" where
  "frames_octets fs = concat (map (\<lambda>(hdr, bs). frame_octets hdr bs) fs)"

lemma frames_simps [simp]:
  "frames_calls c [] = []" "frames_octets [] = []"
  "frames_calls c (f # fs) = frame_calls c (fst f) (snd f) @ frames_calls c fs"
  "frames_octets (f # fs) = frame_octets (fst f) (snd f) @ frames_octets fs"
  "frames_octets (fs @ gs) = frames_octets fs @ frames_octets gs"
  by (auto simp: frames_calls_def frames_octets_def case_prod_beta)

lemma out_frames_calls [simp]: "out_octets (frames_calls c fs) = frames_octets fs"
  by (induction fs) auto

lemma frames_calls_cong:
  "write (tx c) = write (tx d) \<Longrightarrow> writeData (tx c) = writeData (tx d) \<Longrightarrow>
   frames_calls c fs = frames_calls d fs"
  using frame_calls_cong [of c d] by (induction fs) simp_all

lemma put_history_simps [simp]:
  "rx (put_history c ps) = rx c"
  "connectState (put_history c ps) = connectState c"
  "tx_seq (tx (put_history c ps)) = (nextSeq ^^ length ps) (tx_seq (tx c))"
  "history (tx (put_history c ps)) = history (tx c)"
  "write (tx (put_history c ps)) = write (tx c)"
  "writeData (tx (put_history c ps)) = writeData (tx c)"
  "lock (tx (put_history c ps)) = lock (tx c)"
  "lockData (tx (put_history c ps)) = lockData (tx c)"
  "unlock (tx (put_history c ps)) = unlock (tx c)"
  "unlockData (tx (put_history c ps)) = unlockData (tx c)"
  by (induction ps arbitrary: c) (auto simp: funpow_swap1)

lemma trace_put_history [simp]:
  "trace (put_history c ps) = trace c @ frames_calls c (rtx_frames (tx_seq (tx c)) ps)"
proof (induction ps arbitrary: c)
  case (Cons p ps)
  then show ?case
    using frames_calls_cong [of "put_packet SFP_FRAME_RTX c p" c] by simp
qed simp

end
