(* ===== verification/Sfp_History.thy ===== *)
theory Sfp_History
  imports Sfp_Transmitter
begin

text \<open>
  The transmitter's history: clearing it, retransmitting it and fast-forwarding it to a
  sequence number (\<^verbatim>\<open>sfpClearHistory\<close>, \<^verbatim>\<open>sfpTransmitHistory\<close>,
  \<^verbatim>\<open>sfpTransmitHistoryFromSeq\<close>). The history is a window onto the packets sent: the
  lemmas below say which packets a request for retransmission puts on the wire, and under
  which sequence numbers.
\<close>

definition history_list :: "('h, 'z) ringbuffer_scheme \<Rightarrow> 'h sfp \<Rightarrow> SFPpacket list" where
  "history_list R c = rb_list R (history (tx c))"

definition history_ok :: "('h, 'z) ringbuffer_scheme \<Rightarrow> 'h sfp \<Rightarrow> bool" where
  "history_ok R c \<longleftrightarrow> length (history_list R c) \<le> SFP_CONFIG_HISTORY_CAPACITY
     \<and> (\<forall>p \<in> set (history_list R c). packet_ok p)"

section \<open>Clearing\<close>

definition cleared :: "('h, 'z) ringbuffer_scheme \<Rightarrow> 'h \<Rightarrow> 'h" where
  "cleared R h = the (while_option (\<lambda>h. \<not> rb_empty R h) (rb_popFront R) h)"

lemma clear_terminates:
  assumes "ringbuffer_laws R"
  shows "\<exists>h'. while_option (\<lambda>h. \<not> rb_empty R h) (rb_popFront R) h = Some h' \<and> rb_list R h' = []"
proof -
  have "\<exists>h'. while_option (\<lambda>h. \<not> rb_empty R h) (rb_popFront R) h = Some h'"
  proof (rule measure_while_option_Some [where P = "\<lambda>_. True" and f = "\<lambda>h. length (rb_list R h)"])
    fix h assume "\<not> rb_empty R h"
    then have ne: "rb_list R h \<noteq> []" by (simp add: ringbuffer_empty [OF assms])
    then show "True \<and> length (rb_list R (rb_popFront R h)) < length (rb_list R h)"
      by (cases "rb_list R h") (simp_all add: ringbuffer_pop [OF assms ne] del: length_rb_list)
  qed simp
  then obtain h' where h': "while_option (\<lambda>h. \<not> rb_empty R h) (rb_popFront R) h = Some h'" ..
  from while_option_stop [OF this] have "rb_list R h' = []"
    by (simp add: ringbuffer_empty [OF assms])
  with h' show ?thesis by blast
qed

lemma sfpClearHistory_eq:
  "ringbuffer_laws R \<Longrightarrow>
   sfpClearHistory R c = Inr (c\<lparr>tx := (tx c)\<lparr>history := cleared R (history (tx c))\<rparr>\<rparr>)"
  using clear_terminates [of R "history (tx c)"] by (auto simp: sfpClearHistory_def cleared_def)

lemma rb_list_cleared [simp]: "ringbuffer_laws R \<Longrightarrow> rb_list R (cleared R h) = []"
  using clear_terminates [of R h] by (auto simp: cleared_def)

section \<open>Retransmitting\<close>

lemma packet_okD [intro]: "packet_ok p \<Longrightarrow> len p \<le> length (buf p)"
  by (simp add: packet_ok_def)

lemma transmit_indices:
  assumes "tx_ok c" and "\<forall>i \<in> set is. packet_ok (rb_at R (history (tx c)) i)"
  shows "foldR (\<lambda>c i. sfpTransmitRTX R c (rb_at R (history (tx c)) i)) is c
    = Inr (put_history c (map (rb_at R (history (tx c))) is))"
  using assms by (induction "is" arbitrary: c) (simp_all add: sfpTransmitRTX_eq packet_okD)

lemma sfpTransmitHistory_eq:
  assumes "tx_ok c" and "history_ok R c"
  shows "sfpTransmitHistory R c = Inr (put_history c (history_list R c))"
  using assms transmit_indices [of c "[0..<rb_size R (history (tx c))]" R]
  by (simp add: sfpTransmitHistory_def history_ok_def history_list_def rb_list_def)

lemma tx_ok_put_history [simp]:
  "tx_ok c \<Longrightarrow> \<forall>p \<in> set ps. packet_ok p \<Longrightarrow> tx_ok (put_history c ps)"
  by (induction ps arbitrary: c) (simp_all add: packet_okD)

section \<open>Fast-forwarding\<close>

text \<open>The history after the loop that drops acknowledged packets.\<close>

definition forwarded :: "('h, 'z) ringbuffer_scheme \<Rightarrow> 'h sfp \<Rightarrow> u8 \<Rightarrow> 'h" where
  "forwarded R c seq =
     (let h = history (tx c); k = unat (fastforward_of seq (tx_seq (tx c)) (rb_size R h))
      in if k < rb_size R h then (rb_popFront R ^^ k) h else h)"

lemma rb_list_forwarded:
  assumes "ringbuffer_laws R"
  shows "rb_list R (forwarded R c seq) =
    (let k = unat (fastforward_of seq (tx_seq (tx c)) (length (history_list R c)))
     in if k < length (history_list R c) then drop k (history_list R c) else history_list R c)"
  using assms by (simp add: forwarded_def Let_def history_list_def ringbuffer_pops)

lemma forwarded_subset:
  "ringbuffer_laws R \<Longrightarrow> set (rb_list R (forwarded R c seq)) \<subseteq> set (history_list R c)"
  by (auto simp: rb_list_forwarded Let_def dest: in_set_dropD)

lemma length_forwarded:
  "ringbuffer_laws R \<Longrightarrow> length (rb_list R (forwarded R c seq)) \<le> length (history_list R c)"
  unfolding rb_list_forwarded Let_def by simp

lemma history_ok_forwarded:
  "ringbuffer_laws R \<Longrightarrow> history_ok R c \<Longrightarrow>
   history_ok R (c\<lparr>tx := (tx c)\<lparr>history := forwarded R c seq, tx_seq := s\<rparr>\<rparr>)"
  using forwarded_subset [of R c seq] length_forwarded [of R c seq]
  by (auto simp: history_ok_def history_list_def)

text \<open>The state after \<^verbatim>\<open>sfpTransmitHistoryFromSeq\<close>.\<close>

definition resent :: "('h, 'z) ringbuffer_scheme \<Rightarrow> 'h sfp \<Rightarrow> u8 \<Rightarrow> 'h sfp" where
  "resent R c seq =
     put_history (c\<lparr>tx := (tx c)\<lparr>history := forwarded R c seq, tx_seq := seq\<rparr>\<rparr>)
       (rb_list R (forwarded R c seq))"

lemma sfpTransmitHistoryFromSeq_eq:
  assumes "ringbuffer_laws R" and "tx_ok c" and "history_ok R c"
  shows "sfpTransmitHistoryFromSeq R c seq = Inr (resent R c seq)"
proof -
  let ?c = "c\<lparr>tx := (tx c)\<lparr>history := forwarded R c seq, tx_seq := seq\<rparr>\<rparr>"
  have "sfpTransmitHistory R ?c = Inr (put_history ?c (history_list R ?c))"
    using assms by (intro sfpTransmitHistory_eq history_ok_forwarded) (auto simp: tx_ok_def)
  then show ?thesis
    by (simp add: sfpTransmitHistoryFromSeq_def resent_def forwarded_def Let_def history_list_def)
qed

lemma resent_simps [simp]:
  "rx (resent R c seq) = rx c"
  "connectState (resent R c seq) = connectState c"
  "tx_seq (tx (resent R c seq)) = (nextSeq ^^ length (rb_list R (forwarded R c seq))) seq"
  "history (tx (resent R c seq)) = forwarded R c seq"
  "write (tx (resent R c seq)) = write (tx c)"
  "writeData (tx (resent R c seq)) = writeData (tx c)"
  "lock (tx (resent R c seq)) = lock (tx c)"
  "lockData (tx (resent R c seq)) = lockData (tx c)"
  "unlock (tx (resent R c seq)) = unlock (tx c)"
  "unlockData (tx (resent R c seq)) = unlockData (tx c)"
  by (simp_all add: resent_def)

lemma trace_resent [simp]:
  "trace (resent R c seq) = trace c @ frames_calls c (rtx_frames seq (rb_list R (forwarded R c seq)))"
  using frames_calls_cong [of "c\<lparr>tx := (tx c)\<lparr>history := forwarded R c seq, tx_seq := seq\<rparr>\<rparr>" c]
  by (simp add: resent_def)

lemma tx_ok_resent [simp]:
  "ringbuffer_laws R \<Longrightarrow> tx_ok c \<Longrightarrow> history_ok R c \<Longrightarrow> tx_ok (resent R c seq)"
  unfolding resent_def
  by (rule tx_ok_put_history) (auto simp: tx_ok_def history_ok_def dest!: forwarded_subset [THEN subsetD])

section \<open>Numbering\<close>

lemma seq_ok_funpow [simp]: "seq_ok s \<Longrightarrow> seq_ok ((nextSeq ^^ k) s)"
  by (cases k) simp_all

lemma unat_funpow_nextSeq: "seq_ok s \<Longrightarrow> unat ((nextSeq ^^ k) s) = (unat s + k) mod 64"
  by (induction k) (auto simp: seq_ok_unat unat_nextSeq mod_Suc_eq)

text \<open>Sequence numbers within half the range of each other are told apart.\<close>

lemma funpow_nextSeq_inject:
  assumes "seq_ok s" and "i < 64" and "j < 64"
  shows "(nextSeq ^^ i) s = (nextSeq ^^ j) s \<longleftrightarrow> i = j"
proof
  assume "(nextSeq ^^ i) s = (nextSeq ^^ j) s"
  then have "(unat s + i) mod 64 = (unat s + j) mod 64"
    using assms(1) unat_funpow_nextSeq by metis
  then obtain q r where "unat s + i + 64 * q = unat s + j + 64 * r"
    by (auto simp: nat_mod_eq_iff)
  then have "(i + 64 * q) mod 64 = (j + 64 * r) mod 64" by simp
  then show "i = j" using assms(2,3) by simp
qed simp

lemma fastforward_window:
  assumes "seq_ok s" and "i < 64"
  shows "unat (fastforward_of ((nextSeq ^^ i) s) ((nextSeq ^^ n) s) n) = i"
proof -
  let ?seq = "(nextSeq ^^ i) s" and ?tx = "(nextSeq ^^ n) s"
  have u: "uint ((nextSeq ^^ k) s) = (int (unat s) + int k) mod 64" for k
  proof -
    have "int (unat ((nextSeq ^^ k) s)) = int ((unat s + k) mod 64)"
      using unat_funpow_nextSeq [OF assms(1), of k] by (simp only:)
    then show ?thesis by (simp add: zmod_int)
  qed
  have "uint (fastforward_of ?seq ?tx n) = (int (unat s) + int i - (int (unat s) + int n) + int n) mod 64"
    unfolding fastforward_int u by (metis mod_add_left_eq mod_diff_eq)
  also have "\<dots> = int i" using assms(2) by simp
  finally have "int (unat (fastforward_of ?seq ?tx n)) = int i" by simp
  then show ?thesis by (simp only: of_nat_eq_iff)
qed

lemma rtx_frames_drop:
  "rtx_frames ((nextSeq ^^ i) s) (drop i ps) = drop i (rtx_frames s ps)"
proof (induction i arbitrary: s ps)
  case (Suc i)
  then show ?case by (cases ps) (auto simp: funpow_swap1)
qed simp

lemma length_rtx_frames [simp]: "length (rtx_frames s ps) = length ps"
  by (induction ps arbitrary: s) auto

section \<open>What a request for retransmission does\<close>

text \<open>
  C23. Go-back-N within the window. Let the history hold the last \<open>n\<close> packets sent, the
  oldest under the number \<open>s\<close>, so that the next number to be used is \<open>n\<close> after \<open>s\<close>. A
  request for the \<open>i\<close>-th of them drops exactly the \<open>i\<close> packets before it from the history
  and retransmits the others, in order, each under the number it was first sent with; the
  next number to be used is what it was.
\<close>

theorem retransmission_window:
  assumes "ringbuffer_laws R" and "tx_ok c" and "history_ok R c" and "seq_ok s"
    and n: "tx_seq (tx c) = (nextSeq ^^ length (history_list R c)) s"
    and i: "i < length (history_list R c)"
  shows "\<exists>c'. sfpTransmitHistoryFromSeq R c ((nextSeq ^^ i) s) = Inr c'
    \<and> history_list R c' = drop i (history_list R c)
    \<and> tx_seq (tx c') = tx_seq (tx c)
    \<and> out_octets (trace c') = out_octets (trace c)
        @ frames_octets (drop i (rtx_frames s (history_list R c)))
    \<and> rx c' = rx c \<and> connectState c' = connectState c"
proof -
  let ?seq = "(nextSeq ^^ i) s" and ?h = "history_list R c"
  have "i < 64" using i assms(3) by (simp add: history_ok_def sfp_consts)
  then have k: "unat (fastforward_of ?seq (tx_seq (tx c)) (length ?h)) = i"
    using fastforward_window [OF assms(4)] by (simp add: n)
  have h: "rb_list R (forwarded R c ?seq) = drop i ?h"
    using i by (simp add: rb_list_forwarded [OF assms(1)] k)
  have "(nextSeq ^^ (length ?h - i)) ?seq = tx_seq (tx c)"
    using i by (simp add: n flip: funpow_add [THEN fun_cong, unfolded comp_def])
  with i show ?thesis
    using sfpTransmitHistoryFromSeq_eq [OF assms(1-3), of ?seq]
    by (simp add: h rtx_frames_drop) (simp add: history_list_def h [unfolded history_list_def])
qed

definition example_packet :: "u8 list \<Rightarrow> SFPpacket" where
  "example_packet bs =
     \<lparr>buf = bs @ drop (length bs) (replicate SFP_CONFIG_MAX_PACKET_SIZE 0xcd), len = length bs\<rparr>"

lemma packet_ok_example: "length bs \<le> SFP_CONFIG_MAX_PACKET_SIZE \<Longrightarrow> packet_ok (example_packet bs)"
  by (simp add: packet_ok_def example_packet_def)

lemma payload_example [simp]: "payload (example_packet bs) = bs"
  by (simp add: payload_def example_packet_def)

theorem retransmission_window_witness:
  "let c = example_context\<lparr>tx := (tx example_context)\<lparr>tx_seq := 1,
             history := [example_packet [1], example_packet [2], example_packet [3]]\<rparr>\<rparr>
   in \<exists>c'. sfpTransmitHistoryFromSeq list_ringbuffer c 63 = Inr c'
        \<and> history_list list_ringbuffer c' = [example_packet [2], example_packet [3]]
        \<and> tx_seq (tx c') = 1"
proof -
  let ?c = "example_context\<lparr>tx := (tx example_context)\<lparr>tx_seq := 1,
             history := [example_packet [1], example_packet [2], example_packet [3]]\<rparr>\<rparr>"
  have h: "history_list list_ringbuffer ?c = [example_packet [1], example_packet [2], example_packet [3]]"
    by (simp add: history_list_def)
  have seqs: "nextSeq 62 = 63" "nextSeq 63 = 0" "nextSeq 0 = 1" "seq_ok 62"
    by (simp_all add: numeral_3_eq_3 nextSeq_def seq_ok_unat sfp_consts)
  have "tx_ok ?c" using tx_ok_example by (simp only: tx_ok_upd)
  moreover have "history_ok list_ringbuffer ?c"
    by (simp add: history_ok_def h packet_ok_example sfp_consts)
  ultimately show ?thesis
    using retransmission_window [of list_ringbuffer ?c 62 1]
    by (auto simp add: h seqs Let_def numeral_3_eq_3)
qed

text \<open>
  Outside the window the transmitter loses its place: if the requested packet is not in
  the history any more (or was never sent), all the packets of the history are
  retransmitted under new numbers, from the requested one on, and the numbering continues
  from there. The packets between the request and the history are lost silently.
\<close>

theorem retransmission_underrun:
  assumes "ringbuffer_laws R" and "tx_ok c" and "history_ok R c" and "seq_ok (tx_seq (tx c))"
    and out: "length (history_list R c)
        \<le> (unat seq + (64 - unat (tx_seq (tx c))) + length (history_list R c)) mod 64"
  shows "\<exists>c'. sfpTransmitHistoryFromSeq R c seq = Inr c'
    \<and> history_list R c' = history_list R c
    \<and> tx_seq (tx c') = (nextSeq ^^ length (history_list R c)) seq
    \<and> out_octets (trace c') = out_octets (trace c) @ frames_octets (rtx_frames seq (history_list R c))"
proof -
  have h: "rb_list R (forwarded R c seq) = history_list R c"
    using out by (simp add: rb_list_forwarded [OF assms(1)] fastforward_nat [OF assms(4)])
  show ?thesis
    using sfpTransmitHistoryFromSeq_eq [OF assms(1-3), of seq]
    by (simp add: h) (simp add: history_list_def h [unfolded history_list_def])
qed

theorem retransmission_underrun_witness:
  "let c = example_context\<lparr>tx := (tx example_context)\<lparr>tx_seq := 9,
             history := [example_packet [1], example_packet [2]]\<rparr>\<rparr>
   in \<exists>c'. sfpTransmitHistoryFromSeq list_ringbuffer c 3 = Inr c' \<and> tx_seq (tx c') = 5"
proof -
  let ?c = "example_context\<lparr>tx := (tx example_context)\<lparr>tx_seq := 9,
             history := [example_packet [1], example_packet [2]]\<rparr>\<rparr>"
  have h: "history_list list_ringbuffer ?c = [example_packet [1], example_packet [2]]"
    by (simp add: history_list_def)
  have "tx_ok ?c" using tx_ok_example by (simp only: tx_ok_upd)
  moreover have "history_ok list_ringbuffer ?c"
    by (simp add: history_ok_def h packet_ok_example sfp_consts)
  moreover have "(nextSeq ^^ 2) 3 = 5"
    by (simp add: numeral_2_eq_2 nextSeq_def sfp_consts)
  moreover have "length (history_list list_ringbuffer ?c) = 2" by (simp add: h)
  ultimately show ?thesis
    using retransmission_underrun [of list_ringbuffer ?c 3]
    by (auto simp: Let_def seq_ok_unat)
qed

end
