(* ===== verification/Sfp_Receiver.thy ===== *)
theory Sfp_Receiver
  imports Sfp_History
begin

text \<open>
  The receiver of \<^verbatim>\<open>src/src/serial_framing_protocol.cpp\<close>: the frame handlers, one
  definition per function, the octet-level entry point \<^verbatim>\<open>sfpDeliverOctet\<close>, and the two
  other entry points that change the context, \<^verbatim>\<open>sfpConnect\<close> and \<^verbatim>\<open>sfpWritePacket\<close>.
\<close>

section \<open>Connection handshake frames\<close>

definition sfpHandleSYN0 :: "('h, 'z) ringbuffer_scheme \<Rightarrow> 'h sfp \<Rightarrow> 'h sfp res" where
  "sfpHandleSYN0 R c =
     (let c = sfpResetReceiver c;
          c = c\<lparr>rx := (rx c)\<lparr>rx_seq := SFP_INITIAL_SEQ\<rparr>\<rparr>;
          c = c\<lparr>tx := (tx c)\<lparr>tx_seq := SFP_INITIAL_SEQ\<rparr>\<rparr>
      in bindR (sfpClearHistory R c)
         (\<lambda>c. bindR (sfpTransmitSYN1 c)
         (\<lambda>c. Inr (c\<lparr>connectState := SFP_CONNECT_STATE_SENT_SYN1\<rparr>))))"

definition sfpHandleSYN1 :: "('h, 'z) ringbuffer_scheme \<Rightarrow> 'h sfp \<Rightarrow> 'h sfp res" where
  "sfpHandleSYN1 R c =
     (if SFP_CONNECT_STATE_DISCONNECTED = connectState c then sfpTransmitDIS c
      else bindR (sfpTransmitSYN2 c)
           (\<lambda>c. bindR (if SFP_INITIAL_SEQ \<noteq> tx_seq (tx c)
                        then sfpTransmitHistoryFromSeq R c SFP_INITIAL_SEQ else Inr c)
           (\<lambda>c. Inr (c\<lparr>connectState := SFP_CONNECT_STATE_CONNECTED\<rparr>))))"

definition sfpHandleSYN2 :: "('h, 'z) ringbuffer_scheme \<Rightarrow> 'h sfp \<Rightarrow> 'h sfp res" where
  "sfpHandleSYN2 R c =
     (if SFP_CONNECT_STATE_DISCONNECTED = connectState c then sfpTransmitDIS c
      else if SFP_CONNECT_STATE_SENT_SYN0 = connectState c then sfpTransmitSYN0 c
      else bindR (if SFP_INITIAL_SEQ \<noteq> tx_seq (tx c)
                  then sfpTransmitHistoryFromSeq R c SFP_INITIAL_SEQ else Inr c)
           (\<lambda>c. Inr (c\<lparr>connectState := SFP_CONNECT_STATE_CONNECTED\<rparr>)))"

definition sfpHandleSYN :: "('h, 'z) ringbuffer_scheme \<Rightarrow> 'h sfp \<Rightarrow> 'h sfp res" where
  "sfpHandleSYN R c =
     assertR (getFrameType (header (rx c)) = SFP_FRAME_SYN)
     (let seq = getFrameSeq (header (rx c))
      in if seq = SFP_SEQ_SYN0 then sfpHandleSYN0 R c
         else if seq = SFP_SEQ_SYN1 then sfpHandleSYN1 R c
         else if seq = SFP_SEQ_SYN2 then sfpHandleSYN2 R c
         else if seq = SFP_SEQ_SYN_DIS
           then Inr (c\<lparr>connectState := SFP_CONNECT_STATE_DISCONNECTED\<rparr>)
         else Inr c)"

section \<open>Negative acknowledgements\<close>

definition sfpHandleNAK :: "('h, 'z) ringbuffer_scheme \<Rightarrow> 'h sfp \<Rightarrow> 'h sfp res" where
  "sfpHandleNAK R c =
     assertR (getFrameType (header (rx c)) = SFP_FRAME_NAK)
     (case connectState c of
        SFP_CONNECT_STATE_DISCONNECTED \<Rightarrow> sfpTransmitDIS c
      | SFP_CONNECT_STATE_SENT_SYN0 \<Rightarrow> sfpTransmitSYN0 c
      | SFP_CONNECT_STATE_SENT_SYN1 \<Rightarrow> sfpTransmitSYN1 c
      | SFP_CONNECT_STATE_CONNECTED \<Rightarrow>
          (let seq = getFrameSeq (header (rx c))
           in if seq \<noteq> tx_seq (tx c) then sfpTransmitHistoryFromSeq R c seq else Inr c))"

section \<open>User frames\<close>

text \<open>
  The first scope, under the lock, may return from the function: the second component of
  its result says whether it does.
\<close>

definition sfpHandleUSR_unconnected :: "'h sfp \<Rightarrow> ('h sfp \<times> bool) res" where
  "sfpHandleUSR_unconnected c =
     bindR (let c = sfpLockTransmitter c
            in case connectState c of
                 SFP_CONNECT_STATE_DISCONNECTED \<Rightarrow> bindR (sfpTransmitDIS c) (\<lambda>c. Inr (c, True))
               | SFP_CONNECT_STATE_SENT_SYN0 \<Rightarrow> bindR (sfpTransmitSYN0 c) (\<lambda>c. Inr (c, True))
               | SFP_CONNECT_STATE_SENT_SYN1 \<Rightarrow> bindR (sfpTransmitSYN1 c) (\<lambda>c. Inr (c, True))
               | SFP_CONNECT_STATE_CONNECTED \<Rightarrow> Inr (c, False))
     (\<lambda>(c, returned). Inr (sfpUnlockTransmitter c, returned))"

definition sfpCallDeliver :: "'h sfp \<Rightarrow> 'h sfp" where
  "sfpCallDeliver c =
     (case deliver (rx c) of
        None \<Rightarrow> c
      | Some f \<Rightarrow>
          c\<lparr>trace := trace c @ [Deliver_call f (payload (packet (rx c))) (deliverData (rx c))]\<rparr>)"

definition sfpHandleUSR :: "'h sfp \<Rightarrow> ('h sfp \<times> int) res" where
  "sfpHandleUSR c =
     assertR (getFrameType (header (rx c)) = SFP_FRAME_USR
              \<or> getFrameType (header (rx c)) = SFP_FRAME_RTX)
     (bindR (sfpHandleUSR_unconnected c)
     (\<lambda>(c, returned).
        if returned then Inr (c, 0)
        else
          (let seq = getFrameSeq (header (rx c))
           in if seq \<noteq> rx_seq (rx c)
              then (let type = getFrameType (header (rx c))
                    in if SFP_FRAME_USR = type
                       then bindR (TransmitterLock (\<lambda>c. sfpTransmitNAK c (rx_seq (rx c))) c)
                              (\<lambda>c. Inr (c, 0))
                       else Inr (c, 0))
              else (let c = sfpCallDeliver c
                    in Inr (c\<lparr>rx := (rx c)\<lparr>rx_seq := nextSeq (rx_seq (rx c))\<rparr>\<rparr>, 1)))))"

section \<open>Frames\<close>

definition sfpHandleFrame ::
  "('h, 'z) ringbuffer_scheme \<Rightarrow> 'h sfp \<Rightarrow> ('h sfp \<times> int) res" where
  "sfpHandleFrame R c =
     (if len (packet (rx c)) < SFP_CRC_SIZE
      then bindR (TransmitterLock (\<lambda>c. sfpTransmitNAK c (rx_seq (rx c))) c) (\<lambda>c. Inr (c, 0))
      else
        (let p = packet (rx c);
             c = c\<lparr>rx := (rx c)\<lparr>packet := p\<lparr>len := len p - SFP_CRC_SIZE\<rparr>\<rparr>\<rparr>
         in if SFP_CRC_GOOD \<noteq> rx_crc (rx c)
            then bindR (TransmitterLock (\<lambda>c. sfpTransmitNAK c (rx_seq (rx c))) c) (\<lambda>c. Inr (c, 0))
            else
              (case getFrameType (header (rx c)) of
                 SFP_FRAME_USR \<Rightarrow> sfpHandleUSR c
               | SFP_FRAME_RTX \<Rightarrow> sfpHandleUSR c
               | SFP_FRAME_NAK \<Rightarrow> bindR (TransmitterLock (sfpHandleNAK R) c) (\<lambda>c. Inr (c, 0))
               | SFP_FRAME_SYN \<Rightarrow> bindR (TransmitterLock (sfpHandleSYN R) c) (\<lambda>c. Inr (c, 0)))))"

section \<open>Octets\<close>

definition sfpBufferOctet :: "'h sfp \<Rightarrow> u8 \<Rightarrow> 'h sfp res" where
  "sfpBufferOctet c octet =
     (let p = packet (rx c)
      in if SFP_CONFIG_MAX_PACKET_SIZE \<le> len p then Inr (sfpResetReceiver c)
         else bindR (array_set (buf p) (len p) octet)
              (\<lambda>b. Inr (c\<lparr>rx := (rx c)\<lparr>packet := \<lparr>buf = b, len = Suc (len p)\<rparr>\<rparr>\<rparr>)))"

text \<open>
  Copying the packet into the caller's buffer \<open>mem\<close>, of which the caller says that it
  holds \<open>maxlen\<close> octets; \<open>outlen\<close> is the variable the caller's last argument points to,
  \<^term>\<open>None\<close> for a null pointer.
\<close>

definition sfpCopyOutPacket ::
  "'h sfp \<Rightarrow> u8 list \<Rightarrow> nat \<Rightarrow> nat option \<Rightarrow> (int \<times> u8 list \<times> nat option) res" where
  "sfpCopyOutPacket c mem maxlen outlen =
     (let p = packet (rx c)
      in if maxlen < len p then Inr (-1, mem, outlen)
         else bindR (memcpy mem (buf p) (len p))
              (\<lambda>mem. case outlen of None \<Rightarrow> Inl NullDeref | Some _ \<Rightarrow> Inr (1, mem, Some (len p))))"

definition sfpDeliverOctet ::
  "('h, 'z) ringbuffer_scheme \<Rightarrow> 'h sfp \<Rightarrow> u8 \<Rightarrow> u8 list option \<Rightarrow> nat \<Rightarrow> nat option
    \<Rightarrow> ('h sfp \<times> int \<times> u8 list option \<times> nat option) res" where
  "sfpDeliverOctet R c octet mem maxlen outlen =
     (if SFP_FLAG = octet then
        bindR (if SFP_FRAME_STATE_RECEIVING = frameState (rx c)
               then bindR (sfpHandleFrame R c)
                    (\<lambda>(c, ret).
                       case mem of
                         None \<Rightarrow> Inr (c, ret, mem, outlen)
                       | Some m \<Rightarrow>
                           if ret \<noteq> 0
                           then bindR (sfpCopyOutPacket c m maxlen outlen)
                                  (\<lambda>(ret, m, outlen). Inr (c, ret, Some m, outlen))
                           else Inr (c, ret, mem, outlen))
               else Inr (c, 0, mem, outlen))
        (\<lambda>(c, ret, mem, outlen). Inr (sfpResetReceiver c, ret, mem, outlen))
      else if SFP_ESC = octet then
        Inr (c\<lparr>rx := (rx c)\<lparr>escapeState := SFP_ESCAPE_STATE_ESCAPING\<rparr>\<rparr>, 0, mem, outlen)
      else
        (let (c, octet) =
               (if SFP_ESCAPE_STATE_ESCAPING = escapeState (rx c)
                then (c\<lparr>rx := (rx c)\<lparr>escapeState := SFP_ESCAPE_STATE_NORMAL\<rparr>\<rparr>,
                      octet XOR SFP_ESC_FLIP_BIT)
                else (c, octet));
             c = c\<lparr>rx := (rx c)\<lparr>rx_crc := crc_ccitt_update (rx_crc (rx c)) octet\<rparr>\<rparr>
         in bindR (if SFP_FRAME_STATE_NEW = frameState (rx c)
                   then Inr (c\<lparr>rx := (rx c)\<lparr>header := octet,
                                            frameState := SFP_FRAME_STATE_RECEIVING\<rparr>\<rparr>)
                   else sfpBufferOctet c octet)
            (\<lambda>c. Inr (c, 0, mem, outlen))))"

section \<open>The other entry points\<close>

definition sfpConnect :: "('h, 'z) ringbuffer_scheme \<Rightarrow> 'h sfp \<Rightarrow> 'h sfp res" where
  "sfpConnect R c =
     (let c = sfpResetReceiver c;
          c = c\<lparr>rx := (rx c)\<lparr>rx_seq := SFP_INITIAL_SEQ\<rparr>\<rparr>
      in TransmitterLock
           (\<lambda>c. let c = c\<lparr>tx := (tx c)\<lparr>tx_seq := SFP_INITIAL_SEQ\<rparr>\<rparr>
                 in bindR (sfpClearHistory R c)
                    (\<lambda>c. bindR (sfpTransmitSYN0 c)
                    (\<lambda>c. Inr (c\<lparr>connectState := SFP_CONNECT_STATE_SENT_SYN0\<rparr>)))) c)"

text \<open>
  The local \<^verbatim>\<open>SFPpacket packet\<close> is not initialised: \<open>stack\<close> is the memory of its array.
  \<open>octets\<close> is what \<^verbatim>\<open>buf\<close> and \<^verbatim>\<open>len\<close> describe. The result holds \<^verbatim>\<open>*outlen\<close>; the
  return value is always 0.
\<close>

definition sfpWritePacket ::
  "('h, 'z) ringbuffer_scheme \<Rightarrow> 'h sfp \<Rightarrow> u8 list \<Rightarrow> u8 list \<Rightarrow> ('h sfp \<times> nat) res" where
  "sfpWritePacket R c stack octets =
     assertR (length octets \<le> SFP_CONFIG_MAX_PACKET_SIZE)
     (bindR (memcpy stack octets (length octets))
     (\<lambda>b. bindR (sfpTransmitUSR R (sfpLockTransmitter c) \<lparr>buf = b, len = length octets\<rparr>)
     (\<lambda>(c, outlen). Inr (sfpUnlockTransmitter c, outlen))))"

text \<open>
  The loop of every client of the library: octets are delivered one by one, without a
  buffer, and \<^verbatim>\<open>assert (-1 != rc)\<close> (\<^verbatim>\<open>MessageQueueImpl::handleRead\<close>,
  \<^verbatim>\<open>sfp::Context::input\<close>).
\<close>

definition deliver_octet :: "('h, 'z) ringbuffer_scheme \<Rightarrow> 'h sfp \<Rightarrow> u8 \<Rightarrow> 'h sfp res" where
  "deliver_octet R c octet =
     bindR (sfpDeliverOctet R c octet None 0 None)
     (\<lambda>(c, rc, mem, outlen). assertR (rc \<noteq> -1) (Inr c))"

definition deliver_octets :: "('h, 'z) ringbuffer_scheme \<Rightarrow> 'h sfp \<Rightarrow> u8 list \<Rightarrow> 'h sfp res" where
  "deliver_octets R c octets = foldR (deliver_octet R) octets c"

end
