(* ===== verification/Sfp_Protocol.thy ===== *)
theory Sfp_Protocol
  imports Sfp_Receiver
begin

text \<open>
  What the library promises at the level of frames, apart from octets, checksums, buffers
  and callbacks: an abstract endpoint with its connection state, its two sequence numbers
  and the payloads of its history, and its reaction to one received frame. The handlers of
  \<open>Sfp_Receiver\<close> are proved to refine it: same state, exactly the frames of the reaction
  on the wire, exactly its deliveries, no fault, the lock taken and released around every
  write and not held during a delivery.
\<close>

section \<open>The abstract endpoint\<close>

record endpoint =
  conn :: SFPconnectstate
  rxs :: u8
  txs :: u8
  hist :: "u8 list list"

type_synonym frame = "SFPframetype \<times> u8 \<times> u8 list"

abbreviation SYN :: "u8 \<Rightarrow> frame" where "SYN s \<equiv> (SFP_FRAME_SYN, s, [])"
abbreviation NAK :: "u8 \<Rightarrow> frame" where "NAK s \<equiv> (SFP_FRAME_NAK, s, [])"
abbreviation USR :: "u8 \<Rightarrow> u8 list \<Rightarrow> frame" where "USR s bs \<equiv> (SFP_FRAME_USR, s, bs)"
abbreviation RTX :: "u8 \<Rightarrow> u8 list \<Rightarrow> frame" where "RTX s bs \<equiv> (SFP_FRAME_RTX, s, bs)"

primrec rtx :: "u8 \<Rightarrow> u8 list list \<Rightarrow> frame list" where
  "rtx s [] = []"
| "rtx s (bs # bss) = RTX s bs # rtx (nextSeq s) bss"

text \<open>The packets of the history from a sequence number on, if it is in the window.\<close>

definition hist_from :: "endpoint \<Rightarrow> u8 \<Rightarrow> u8 list list" where
  "hist_from e seq =
     (let k = unat (fastforward_of seq (txs e) (length (hist e)))
      in if k < length (hist e) then drop k (hist e) else hist e)"

definition resend :: "endpoint \<Rightarrow> u8 \<Rightarrow> endpoint \<times> frame list" where
  "resend e seq =
     (e\<lparr>hist := hist_from e seq, txs := (nextSeq ^^ length (hist_from e seq)) seq\<rparr>,
      rtx seq (hist_from e seq))"

definition resend_all :: "endpoint \<Rightarrow> endpoint \<times> frame list" where
  "resend_all e = (if txs e \<noteq> SFP_INITIAL_SEQ then resend e SFP_INITIAL_SEQ else (e, []))"

definition on_syn :: "endpoint \<Rightarrow> u8 \<Rightarrow> endpoint \<times> frame list" where
  "on_syn e seq =
     (if seq = SFP_SEQ_SYN0 then
        (e\<lparr>rxs := SFP_INITIAL_SEQ, txs := SFP_INITIAL_SEQ, hist := [],
           conn := SFP_CONNECT_STATE_SENT_SYN1\<rparr>, [SYN SFP_SEQ_SYN1])
      else if seq = SFP_SEQ_SYN1 then
        (if conn e = SFP_CONNECT_STATE_DISCONNECTED then (e, [SYN SFP_SEQ_SYN_DIS])
         else let (e, fs) = resend_all e
              in (e\<lparr>conn := SFP_CONNECT_STATE_CONNECTED\<rparr>, SYN SFP_SEQ_SYN2 # fs))
      else if seq = SFP_SEQ_SYN2 then
        (if conn e = SFP_CONNECT_STATE_DISCONNECTED then (e, [SYN SFP_SEQ_SYN_DIS])
         else if conn e = SFP_CONNECT_STATE_SENT_SYN0 then (e, [SYN SFP_SEQ_SYN0])
         else let (e, fs) = resend_all e in (e\<lparr>conn := SFP_CONNECT_STATE_CONNECTED\<rparr>, fs))
      else if seq = SFP_SEQ_SYN_DIS then (e\<lparr>conn := SFP_CONNECT_STATE_DISCONNECTED\<rparr>, [])
      else (e, []))"

text \<open>Before the connection stands, any other frame is answered by the handshake frame of the state.\<close>

definition not_connected :: "endpoint \<Rightarrow> frame list" where
  "not_connected e =
     (case conn e of
        SFP_CONNECT_STATE_DISCONNECTED \<Rightarrow> [SYN SFP_SEQ_SYN_DIS]
      | SFP_CONNECT_STATE_SENT_SYN0 \<Rightarrow> [SYN SFP_SEQ_SYN0]
      | SFP_CONNECT_STATE_SENT_SYN1 \<Rightarrow> [SYN SFP_SEQ_SYN1]
      | SFP_CONNECT_STATE_CONNECTED \<Rightarrow> [])"

definition on_nak :: "endpoint \<Rightarrow> u8 \<Rightarrow> endpoint \<times> frame list" where
  "on_nak e seq =
     (if conn e \<noteq> SFP_CONNECT_STATE_CONNECTED then (e, not_connected e)
      else if seq \<noteq> txs e then resend e seq else (e, []))"

definition on_user :: "endpoint \<Rightarrow> bool \<Rightarrow> u8 \<Rightarrow> u8 list \<Rightarrow> endpoint \<times> frame list \<times> u8 list list" where
  "on_user e retransmitted seq bs =
     (if conn e \<noteq> SFP_CONNECT_STATE_CONNECTED then (e, not_connected e, [])
      else if seq \<noteq> rxs e then (e, if retransmitted then [] else [NAK (rxs e)], [])
      else (e\<lparr>rxs := nextSeq (rxs e)\<rparr>, [], [bs]))"

fun on_frame :: "endpoint \<Rightarrow> frame \<Rightarrow> endpoint \<times> frame list \<times> u8 list list" where
  "on_frame e (SFP_FRAME_USR, seq, bs) = on_user e False seq bs"
| "on_frame e (SFP_FRAME_RTX, seq, bs) = on_user e True seq bs"
| "on_frame e (SFP_FRAME_NAK, seq, bs) = (let (e, fs) = on_nak e seq in (e, fs, []))"
| "on_frame e (SFP_FRAME_SYN, seq, bs) = (let (e, fs) = on_syn e seq in (e, fs, []))"

section \<open>Abstraction\<close>

definition abs_endpoint :: "('h, 'z) ringbuffer_scheme \<Rightarrow> 'h sfp \<Rightarrow> endpoint" where
  "abs_endpoint R c =
     \<lparr>conn = connectState c, rxs = rx_seq (rx c), txs = tx_seq (tx c),
      hist = map payload (history_list R c)\<rparr>"

definition sfp_ok :: "('h, 'z) ringbuffer_scheme \<Rightarrow> 'h sfp \<Rightarrow> bool" where
  "sfp_ok R c \<longleftrightarrow> tx_ok c \<and> history_ok R c \<and> seq_ok (tx_seq (tx c)) \<and> seq_ok (rx_seq (rx c))
     \<and> packet_ok (packet (rx c))"

definition callbacks :: "'h sfp \<Rightarrow> (funptr \<times> pointer) list" where
  "callbacks c =
     [(write (tx c), writeData (tx c)), (lock (tx c), lockData (tx c)),
      (unlock (tx c), unlockData (tx c)), (deliver (rx c), deliverData (rx c))]"

definition enc :: "frame \<Rightarrow> u8 \<times> u8 list" where
  "enc f = (case f of (t, s, bs) \<Rightarrow> (makeHeader t s, bs))"

definition wire :: "frame list \<Rightarrow> u8 list" where
  "wire fs = frames_octets (map enc fs)"

lemma enc_simp [simp]: "enc (t, s, bs) = (makeHeader t s, bs)"
  by (simp add: enc_def)

lemma map_enc_rtx: "map enc (rtx s (map payload ps)) = rtx_frames s ps"
  by (induction ps arbitrary: s) auto

text \<open>The state of the receiver between two octets of a frame.\<close>

definition sent_by :: "('h, 'z) ringbuffer_scheme \<Rightarrow> 'h sfp \<Rightarrow> 'h sfp \<Rightarrow> endpoint \<times> frame list \<Rightarrow> bool" where
  "sent_by R c c' r \<longleftrightarrow> sfp_ok R c' \<and> callbacks c' = callbacks c \<and> abs_endpoint R c' = fst r
     \<and> trace c' = trace c @ frames_calls c (map enc (snd r))"

lemma sfp_ok_tx [simp]: "sfp_ok R c \<Longrightarrow> tx_ok c"
  by (simp add: sfp_ok_def)

lemma put_control:
  "sfp_ok R c \<Longrightarrow> sent_by R c (put_frame c (makeHeader t s) None) (abs_endpoint R c, [(t, s, [])])"
  by (simp add: sent_by_def sfp_ok_def callbacks_def abs_endpoint_def history_list_def history_ok_def)

lemma history_forwarded:
  "ringbuffer_laws R \<Longrightarrow>
   map payload (rb_list R (forwarded R c seq)) = hist_from (abs_endpoint R c) seq"
  by (simp add: rb_list_forwarded abs_endpoint_def hist_from_def Let_def drop_map)

lemma resent_refines:
  assumes "ringbuffer_laws R" and "sfp_ok R c" and "seq_ok seq"
  shows "sent_by R c (resent R c seq) (resend (abs_endpoint R c) seq)"
proof -
  let ?h = "rb_list R (forwarded R c seq)"
  have "history_ok R (resent R c seq)"
    using history_ok_forwarded [OF assms(1), of c seq] assms(2)
    by (simp add: sfp_ok_def history_ok_def history_list_def)
  moreover have "length ?h = length (hist_from (abs_endpoint R c) seq)"
    by (simp flip: history_forwarded [OF assms(1)])
  moreover have "map enc (rtx seq (hist_from (abs_endpoint R c) seq)) = rtx_frames seq ?h"
    by (simp flip: history_forwarded [OF assms(1)] add: map_enc_rtx)
  ultimately show ?thesis
    using assms history_forwarded [OF assms(1), of c seq]
    by (simp add: sent_by_def sfp_ok_def callbacks_def resend_def)
      (simp add: abs_endpoint_def history_list_def)
qed

text \<open>Two sends in a row, and changes of the connection state.\<close>

lemma sent_by_trans:
  assumes "sent_by R c d (e, fs)" and "sent_by R d d' (e', gs)"
  shows "sent_by R c d' (e', fs @ gs)"
proof -
  have "frames_calls d (map enc gs) = frames_calls c (map enc gs)"
    using assms(1) by (intro frames_calls_cong) (auto simp: sent_by_def callbacks_def)
  with assms show ?thesis by (simp add: sent_by_def frames_calls_def)
qed

lemma sent_by_from:
  assumes "callbacks d = callbacks c" and "trace d = trace c" and "sent_by R d d' r"
  shows "sent_by R c d' r"
proof -
  have "frames_calls d fs = frames_calls c fs" for fs
    using assms(1) by (intro frames_calls_cong) (auto simp: callbacks_def)
  with assms show ?thesis by (simp add: sent_by_def)
qed

lemma sent_by_connect:
  "sent_by R c d (e, fs) \<Longrightarrow> sent_by R c (d\<lparr>connectState := st\<rparr>) (e\<lparr>conn := st\<rparr>, fs)"
  by (auto simp: sent_by_def sfp_ok_def callbacks_def abs_endpoint_def history_list_def history_ok_def)

lemma sent_by_refl: "sfp_ok R c \<Longrightarrow> sent_by R c c (abs_endpoint R c, [])"
  by (simp add: sent_by_def frames_calls_def)

lemma sent_by_ok: "sent_by R c d r \<Longrightarrow> sfp_ok R d"
  and sent_by_abs: "sent_by R c d r \<Longrightarrow> abs_endpoint R d = fst r"
  by (simp_all add: sent_by_def)

lemma resend_all_refines:
  assumes "ringbuffer_laws R" and "sfp_ok R c"
  shows "\<exists>c'. (if SFP_INITIAL_SEQ \<noteq> tx_seq (tx c)
               then sfpTransmitHistoryFromSeq R c SFP_INITIAL_SEQ else Inr c) = Inr c'
    \<and> sent_by R c c' (resend_all (abs_endpoint R c))"
proof -
  have t: "txs (abs_endpoint R c) = tx_seq (tx c)" by (simp add: abs_endpoint_def)
  have "sfpTransmitHistoryFromSeq R c SFP_INITIAL_SEQ = Inr (resent R c SFP_INITIAL_SEQ)"
    using assms by (intro sfpTransmitHistoryFromSeq_eq) (auto simp: sfp_ok_def)
  then show ?thesis
    using resent_refines [OF assms, of SFP_INITIAL_SEQ] sent_by_refl [OF assms(2)]
    by (auto simp: resend_all_def t)
qed

section \<open>The handlers refine the reactions\<close>

lemma sfpHandleSYN0_refines:
  assumes "ringbuffer_laws R" and "sfp_ok R c"
  shows "\<exists>c'. sfpHandleSYN0 R c = Inr c' \<and> sent_by R c c' (on_syn (abs_endpoint R c) SFP_SEQ_SYN0)"
proof -
  let ?c = "c\<lparr>rx := (rx c)\<lparr>rx_crc := SFP_CRC_PRESET, escapeState := SFP_ESCAPE_STATE_NORMAL,
      frameState := SFP_FRAME_STATE_NEW, packet := (packet (rx c))\<lparr>len := 0\<rparr>, rx_seq := SFP_INITIAL_SEQ\<rparr>,
      tx := (tx c)\<lparr>tx_seq := SFP_INITIAL_SEQ, history := cleared R (history (tx c))\<rparr>\<rparr>"
  have ok: "sfp_ok R ?c"
    using assms by (simp add: sfp_ok_def tx_ok_def history_ok_def history_list_def packet_ok_def)
  have cb: "callbacks ?c = callbacks c" "trace ?c = trace c"
      "abs_endpoint R ?c = (abs_endpoint R c)\<lparr>rxs := SFP_INITIAL_SEQ, txs := SFP_INITIAL_SEQ, hist := []\<rparr>"
    using assms(1) by (simp_all add: callbacks_def abs_endpoint_def history_list_def)
  have "sfpHandleSYN0 R c = Inr ((put_frame ?c (makeHeader SFP_FRAME_SYN SFP_SEQ_SYN1) None)
      \<lparr>connectState := SFP_CONNECT_STATE_SENT_SYN1\<rparr>)"
    using ok assms(1)
    by (simp add: sfpHandleSYN0_def sfpResetReceiver_def sfpClearHistory_eq control_defs)
  moreover have "sent_by R ?c (put_frame ?c (makeHeader SFP_FRAME_SYN SFP_SEQ_SYN1) None)
      (abs_endpoint R ?c, [SYN SFP_SEQ_SYN1])"
    by (rule put_control [OF ok])
  then have "sent_by R c (put_frame ?c (makeHeader SFP_FRAME_SYN SFP_SEQ_SYN1) None)
      (abs_endpoint R ?c, [SYN SFP_SEQ_SYN1])"
    by (rule sent_by_from [OF cb(1,2)])
  from sent_by_connect [OF this, of SFP_CONNECT_STATE_SENT_SYN1] cb
  have "sent_by R c ((put_frame ?c (makeHeader SFP_FRAME_SYN SFP_SEQ_SYN1) None)
      \<lparr>connectState := SFP_CONNECT_STATE_SENT_SYN1\<rparr>) (on_syn (abs_endpoint R c) SFP_SEQ_SYN0)"
    by (simp add: on_syn_def)
  ultimately show ?thesis by blast
qed

lemma sfpHandleSYN1_refines:
  assumes "ringbuffer_laws R" and "sfp_ok R c"
  shows "\<exists>c'. sfpHandleSYN1 R c = Inr c' \<and> sent_by R c c' (on_syn (abs_endpoint R c) SFP_SEQ_SYN1)"
proof (cases "connectState c = SFP_CONNECT_STATE_DISCONNECTED")
  case True
  with put_control [OF assms(2), of SFP_FRAME_SYN SFP_SEQ_SYN_DIS] assms(2) show ?thesis
    by (simp add: sfpHandleSYN1_def control_defs on_syn_def sfp_consts) (simp add: abs_endpoint_def)
next
  case False
  let ?d = "put_frame c (makeHeader SFP_FRAME_SYN SFP_SEQ_SYN2) None"
  have d: "sent_by R c ?d (abs_endpoint R c, [SYN SFP_SEQ_SYN2])" by (rule put_control [OF assms(2)])
  obtain c' where c': "(if SFP_INITIAL_SEQ \<noteq> tx_seq (tx ?d)
      then sfpTransmitHistoryFromSeq R ?d SFP_INITIAL_SEQ else Inr ?d) = Inr c'"
      "sent_by R ?d c' (resend_all (abs_endpoint R c))"
    using resend_all_refines [OF assms(1) sent_by_ok [OF d]] sent_by_abs [OF d] by auto
  obtain e fs where r: "resend_all (abs_endpoint R c) = (e, fs)" by fastforce
  have "sent_by R c (c'\<lparr>connectState := SFP_CONNECT_STATE_CONNECTED\<rparr>)
      (e\<lparr>conn := SFP_CONNECT_STATE_CONNECTED\<rparr>, [SYN SFP_SEQ_SYN2] @ fs)"
    using sent_by_trans [OF d] c'(2) by (intro sent_by_connect) (simp add: r)
  moreover have "conn (abs_endpoint R c) \<noteq> SFP_CONNECT_STATE_DISCONNECTED"
    using False by (simp add: abs_endpoint_def)
  ultimately show ?thesis
    using False c'(1) assms(2)
    by (auto simp: sfpHandleSYN1_def control_defs on_syn_def r sfp_consts)
qed


lemma sfpHandleSYN2_refines:
  assumes "ringbuffer_laws R" and "sfp_ok R c"
  shows "\<exists>c'. sfpHandleSYN2 R c = Inr c' \<and> sent_by R c c' (on_syn (abs_endpoint R c) SFP_SEQ_SYN2)"
proof -
  have conn: "conn (abs_endpoint R c) = connectState c" by (simp add: abs_endpoint_def)
  show ?thesis
  proof (cases "connectState c \<in> {SFP_CONNECT_STATE_DISCONNECTED, SFP_CONNECT_STATE_SENT_SYN0}")
    case True
    with put_control [OF assms(2), of SFP_FRAME_SYN] assms(2) show ?thesis
      by (auto simp: sfpHandleSYN2_def control_defs on_syn_def conn sfp_consts)
  next
    case False
    obtain e fs where r: "resend_all (abs_endpoint R c) = (e, fs)" by fastforce
    from resend_all_refines [OF assms] obtain c' where
      c': "(if SFP_INITIAL_SEQ \<noteq> tx_seq (tx c)
            then sfpTransmitHistoryFromSeq R c SFP_INITIAL_SEQ else Inr c) = Inr c'"
      and "sent_by R c c' (e, fs)" by (auto simp: r)
    from sent_by_connect [OF this(2)] False c' show ?thesis
      by (auto simp: sfpHandleSYN2_def on_syn_def conn r sfp_consts)
  qed
qed

lemma sfpHandleSYN_refines:
  assumes "ringbuffer_laws R" and "sfp_ok R c" and "getFrameType (header (rx c)) = SFP_FRAME_SYN"
  shows "\<exists>c'. sfpHandleSYN R c = Inr c'
    \<and> sent_by R c c' (on_syn (abs_endpoint R c) (getFrameSeq (header (rx c))))"
proof -
  let ?seq = "getFrameSeq (header (rx c))"
  have distinct: "SFP_SEQ_SYN0 \<noteq> SFP_SEQ_SYN1" "SFP_SEQ_SYN0 \<noteq> SFP_SEQ_SYN2" "SFP_SEQ_SYN1 \<noteq> SFP_SEQ_SYN2"
    "SFP_SEQ_SYN_DIS \<noteq> SFP_SEQ_SYN0" "SFP_SEQ_SYN_DIS \<noteq> SFP_SEQ_SYN1" "SFP_SEQ_SYN_DIS \<noteq> SFP_SEQ_SYN2"
    by (simp_all add: sfp_consts)
  consider "?seq = SFP_SEQ_SYN0" | "?seq = SFP_SEQ_SYN1" | "?seq = SFP_SEQ_SYN2"
    | "?seq = SFP_SEQ_SYN_DIS"
    | "?seq \<noteq> SFP_SEQ_SYN0" "?seq \<noteq> SFP_SEQ_SYN1" "?seq \<noteq> SFP_SEQ_SYN2" "?seq \<noteq> SFP_SEQ_SYN_DIS"
    by blast
  then show ?thesis
  proof cases
    case 1
    then show ?thesis using sfpHandleSYN0_refines [OF assms(1,2)] assms(3) by (simp add: sfpHandleSYN_def)
  next
    case 2
    then show ?thesis using sfpHandleSYN1_refines [OF assms(1,2)] assms(3) distinct by (simp add: sfpHandleSYN_def)
  next
    case 3
    then show ?thesis using sfpHandleSYN2_refines [OF assms(1,2)] assms(3) distinct by (simp add: sfpHandleSYN_def)
  next
    case 4
    then show ?thesis
      using sent_by_connect [OF sent_by_refl [OF assms(2)], of SFP_CONNECT_STATE_DISCONNECTED]
        assms(3) distinct by (simp add: sfpHandleSYN_def on_syn_def)
  next
    case 5
    then show ?thesis
      using sent_by_refl [OF assms(2)] assms(3) by (simp add: sfpHandleSYN_def on_syn_def)
  qed
qed

lemma sfpHandleNAK_refines:
  assumes "ringbuffer_laws R" and "sfp_ok R c" and "getFrameType (header (rx c)) = SFP_FRAME_NAK"
  shows "\<exists>c'. sfpHandleNAK R c = Inr c'
    \<and> sent_by R c c' (on_nak (abs_endpoint R c) (getFrameSeq (header (rx c))))"
proof -
  let ?seq = "getFrameSeq (header (rx c))"
  have e: "conn (abs_endpoint R c) = connectState c" "txs (abs_endpoint R c) = tx_seq (tx c)"
    by (simp_all add: abs_endpoint_def)
  have h: "sfpTransmitHistoryFromSeq R c ?seq = Inr (resent R c ?seq)"
    using assms by (intro sfpTransmitHistoryFromSeq_eq) (auto simp: sfp_ok_def)
  show ?thesis
    using assms(3) put_control [OF assms(2), of SFP_FRAME_SYN] sfp_ok_tx [OF assms(2)]
      sent_by_refl [OF assms(2)] resent_refines [OF assms(1,2), of ?seq]
    by (cases "connectState c")
      (auto simp: sfpHandleNAK_def on_nak_def not_connected_def e h control_defs)
qed

section \<open>Callbacks and the lock\<close>

primrec event_deliveries :: "event \<Rightarrow> u8 list list" where
  "event_deliveries (Write_call f bs d) = []"
| "event_deliveries (Deliver_call f bs d) = [bs]"
| "event_deliveries (Lock_call f d) = []"
| "event_deliveries (Unlock_call f d) = []"

definition deliveries :: "event list \<Rightarrow> u8 list list" where
  "deliveries es = concat (map event_deliveries es)"

text \<open>
  The lock discipline as a monitor over the calls, for a context whose transmitter can be
  locked: \<open>held\<close> says whether the lock is held. Writes need the lock; the lock is not
  taken twice; a delivery happens without it, so that the callback may send.
\<close>

fun lock_monitor :: "bool \<Rightarrow> event list \<Rightarrow> bool option" where
  "lock_monitor held [] = Some held"
| "lock_monitor held (Write_call f bs d # es) = (if held then lock_monitor held es else None)"
| "lock_monitor held (Deliver_call f bs d # es) = (if held then None else lock_monitor held es)"
| "lock_monitor held (Lock_call f d # es) = (if held then None else lock_monitor True es)"
| "lock_monitor held (Unlock_call f d # es) = (if held then lock_monitor False es else None)"

lemma lock_monitor_append:
  "lock_monitor held (es @ fs) = Option.bind (lock_monitor held es) (\<lambda>held. lock_monitor held fs)"
  by (induction held es rule: lock_monitor.induct) auto

lemma deliveries_simps [simp]:
  "deliveries [] = []"
  "deliveries (e # es) = event_deliveries e @ deliveries es"
  "deliveries (es @ fs) = deliveries es @ deliveries fs"
  by (simp_all add: deliveries_def)

lemma deliveries_frames_calls [simp]: "deliveries (frames_calls c fs) = []"
proof -
  have "deliveries (write_calls c ws) = []" for ws by (induction ws) auto
  then show ?thesis by (induction fs) (auto simp: frame_calls_def)
qed

lemma lock_monitor_frames_calls [simp]: "lock_monitor True (frames_calls c fs) = Some True"
proof -
  have "lock_monitor True (write_calls c ws) = Some True" for ws by (induction ws) auto
  then show ?thesis by (induction fs) (auto simp: frame_calls_def lock_monitor_append)
qed

text \<open>
  Every call goes to the context's own callback, with its user pointer; a write hands over
  some octets of the write buffer, a delivery those of the packet; locks only in pairs.
\<close>

fun own_call :: "'h sfp \<Rightarrow> event \<Rightarrow> bool" where
  "own_call c (Write_call f bs d) \<longleftrightarrow> write (tx c) = Some f \<and> writeData (tx c) = d
     \<and> bs \<noteq> [] \<and> length bs \<le> SFP_CONFIG_WRITEBUF_SIZE"
| "own_call c (Deliver_call f bs d) \<longleftrightarrow> deliver (rx c) = Some f \<and> deliverData (rx c) = d
     \<and> length bs \<le> SFP_CONFIG_MAX_PACKET_SIZE"
| "own_call c (Lock_call f d) \<longleftrightarrow> sfpIsTransmitterLockable c \<and> lock (tx c) = Some f \<and> lockData (tx c) = d"
| "own_call c (Unlock_call f d) \<longleftrightarrow> sfpIsTransmitterLockable c \<and> unlock (tx c) = Some f \<and> unlockData (tx c) = d"

lemma own_call_cong: "callbacks c = callbacks d \<Longrightarrow> own_call c e = own_call d e"
  by (cases e) (auto simp: callbacks_def sfpIsTransmitterLockable_def)

lemma frame_chunks:
  "w \<in> set (chunks SFP_CONFIG_WRITEBUF_SIZE (frame_octets hdr bs)) \<Longrightarrow> w \<noteq> [] \<and> length w \<le> SFP_CONFIG_WRITEBUF_SIZE"
  using chunks_some [of w SFP_CONFIG_WRITEBUF_SIZE "frame_octets hdr bs"]
    chunks_bound [of SFP_CONFIG_WRITEBUF_SIZE w "frame_octets hdr bs"]
  by (simp add: frame_octets_def SFP_CONFIG_WRITEBUF_SIZE_def)

lemma own_frames_calls: "write (tx c) \<noteq> None \<Longrightarrow> e \<in> set (frames_calls c fs) \<Longrightarrow> own_call c e"
  by (induction fs) (auto simp: frame_calls_def dest: frame_chunks)

text \<open>
  One reaction of the library: the frames it has put on the wire, its deliveries, and its
  use of the lock.
\<close>

definition reacts ::
  "('h, 'z) ringbuffer_scheme \<Rightarrow> 'h sfp \<Rightarrow> 'h sfp \<Rightarrow> endpoint \<Rightarrow> frame list \<Rightarrow> u8 list list \<Rightarrow> bool" where
  "reacts R c c' e fs ds \<longleftrightarrow> sfp_ok R c' \<and> callbacks c' = callbacks c \<and> abs_endpoint R c' = e
     \<and> (\<exists>es. trace c' = trace c @ es \<and> (\<forall>ev \<in> set es. own_call c ev) \<and> out_octets es = wire fs
           \<and> deliveries es = (if deliver (rx c) = None then [] else ds)
           \<and> (sfpIsTransmitterLockable c \<longrightarrow> lock_monitor False es = Some False))"

lemma lock_simps [simp]:
  "rx (sfpLockTransmitter c) = rx c" "rx (sfpUnlockTransmitter c) = rx c"
  "tx (sfpLockTransmitter c) = tx c" "tx (sfpUnlockTransmitter c) = tx c"
  "connectState (sfpLockTransmitter c) = connectState c"
  "connectState (sfpUnlockTransmitter c) = connectState c"
  by (simp_all add: sfpLockTransmitter_def sfpUnlockTransmitter_def)

lemma lock_preserves [simp]:
  "sfp_ok R (sfpLockTransmitter c) \<longleftrightarrow> sfp_ok R c" "sfp_ok R (sfpUnlockTransmitter c) \<longleftrightarrow> sfp_ok R c"
  "callbacks (sfpLockTransmitter c) = callbacks c" "callbacks (sfpUnlockTransmitter c) = callbacks c"
  "abs_endpoint R (sfpLockTransmitter c) = abs_endpoint R c"
  "abs_endpoint R (sfpUnlockTransmitter c) = abs_endpoint R c"
  by (simp_all add: sfp_ok_def tx_ok_def history_ok_def history_list_def callbacks_def abs_endpoint_def)

definition lock_calls :: "'h sfp \<Rightarrow> event list" where
  "lock_calls c = (if sfpIsTransmitterLockable c then [Lock_call (the (lock (tx c))) (lockData (tx c))] else [])"

definition unlock_calls :: "'h sfp \<Rightarrow> event list" where
  "unlock_calls c =
     (if sfpIsTransmitterLockable c then [Unlock_call (the (unlock (tx c))) (unlockData (tx c))] else [])"

lemma trace_locks:
  "trace (sfpLockTransmitter c) = trace c @ lock_calls c"
  "trace (sfpUnlockTransmitter c) = trace c @ unlock_calls c"
  by (simp_all add: sfpLockTransmitter_def sfpUnlockTransmitter_def lock_calls_def unlock_calls_def)

lemma lockable_callbacks: "callbacks c = callbacks d \<Longrightarrow> sfpIsTransmitterLockable c = sfpIsTransmitterLockable d"
  by (simp add: callbacks_def sfpIsTransmitterLockable_def)

lemma locked_scope:
  assumes "sent_by R (sfpLockTransmitter c) d (e, fs)"
  shows "reacts R c (sfpUnlockTransmitter d) e fs []"
proof -
  let ?es = "lock_calls c @ frames_calls (sfpLockTransmitter c) (map enc fs) @ unlock_calls d"
  have cb: "callbacks d = callbacks c" using assms by (simp add: sent_by_def)
  then have l: "sfpIsTransmitterLockable d = sfpIsTransmitterLockable c"
    by (rule lockable_callbacks)
  have u: "unlock_calls d = unlock_calls c"
    using cb by (simp add: unlock_calls_def l) (simp add: callbacks_def)
  have "write (tx (sfpLockTransmitter c)) \<noteq> None"
    using assms cb by (auto simp: sent_by_def sfp_ok_def tx_ok_def callbacks_def)
  then have "own_call c ev" if "ev \<in> set ?es" for ev
    using that own_frames_calls [of "sfpLockTransmitter c" ev] own_call_cong [of "sfpLockTransmitter c" c ev]
    by (auto simp: u) (auto simp: lock_calls_def unlock_calls_def sfpIsTransmitterLockable_def split: if_splits)
  with assms l show ?thesis
    unfolding reacts_def sent_by_def wire_def
    by (intro conjI exI [of _ ?es])
      (simp_all add: trace_locks, simp_all add: lock_calls_def unlock_calls_def lock_monitor_append)
qed

lemma TransmitterLock_refines:
  assumes "\<exists>d. scope (sfpLockTransmitter c) = Inr d \<and> sent_by R (sfpLockTransmitter c) d (e, fs)"
  shows "\<exists>c'. TransmitterLock scope c = Inr c' \<and> reacts R c c' e fs []"
  using assms locked_scope by (auto simp: TransmitterLock_def)


lemma reacts_trans:
  assumes "reacts R c d e fs ds" and "reacts R d d' e' gs ds'"
  shows "reacts R c d' e' (fs @ gs) (ds @ ds')"
proof -
  obtain es where es: "trace d = trace c @ es" "\<forall>ev \<in> set es. own_call c ev" "out_octets es = wire fs"
      "deliveries es = (if deliver (rx c) = None then [] else ds)"
      "sfpIsTransmitterLockable c \<longrightarrow> lock_monitor False es = Some False"
    using assms(1) by (auto simp: reacts_def)
  obtain es' where es': "trace d' = trace d @ es'" "\<forall>ev \<in> set es'. own_call d ev" "out_octets es' = wire gs"
      "deliveries es' = (if deliver (rx d) = None then [] else ds')"
      "sfpIsTransmitterLockable d \<longrightarrow> lock_monitor False es' = Some False"
    using assms(2) by (auto simp: reacts_def)
  have cb: "callbacks d = callbacks c" using assms(1) by (simp add: reacts_def)
  then have "sfpIsTransmitterLockable d = sfpIsTransmitterLockable c" "deliver (rx d) = deliver (rx c)"
      "own_call d = own_call c"
    by (rule lockable_callbacks, simp add: callbacks_def, intro ext own_call_cong)
  with es es' assms cb show ?thesis
    unfolding reacts_def
    by (auto intro!: exI [of _ "es @ es'"] simp: wire_def lock_monitor_append)
qed

lemma reacts_from:
  assumes "callbacks d = callbacks c" and "trace d = trace c" and "reacts R d d' e fs ds"
  shows "reacts R c d' e fs ds"
proof -
  have "sfpIsTransmitterLockable d = sfpIsTransmitterLockable c" "deliver (rx d) = deliver (rx c)"
      "own_call d = own_call c"
    using assms(1) by (rule lockable_callbacks, simp add: callbacks_def, intro ext own_call_cong)
  with assms show ?thesis by (simp add: reacts_def)
qed

lemma reacts_refl: "sfp_ok R c \<Longrightarrow> reacts R c c (abs_endpoint R c) [] []"
  by (auto simp: reacts_def wire_def)

text \<open>Changes of the receiver that no other member depends on.\<close>

lemma reacts_upd:
  assumes "reacts R c d e fs ds" and "sfp_ok R d'" and "callbacks d' = callbacks d" and "trace d' = trace d"
  shows "reacts R c d' (abs_endpoint R d') fs ds"
  using assms by (simp add: reacts_def)

section \<open>User frames\<close>

lemma sfpHandleUSR_unconnected_refines:
  assumes "sfp_ok R c"
  shows "\<exists>c'. sfpHandleUSR_unconnected c = Inr (c', connectState c \<noteq> SFP_CONNECT_STATE_CONNECTED)
    \<and> reacts R c c' (abs_endpoint R c) (not_connected (abs_endpoint R c)) [] \<and> rx c' = rx c"
proof -
  let ?c = "sfpLockTransmitter c"
  have ok: "sfp_ok R ?c" using assms by simp
  have conn: "conn (abs_endpoint R c) = connectState c" by (simp add: abs_endpoint_def)
  have send: "reacts R c (sfpUnlockTransmitter (put_frame ?c (makeHeader SFP_FRAME_SYN s) None))
      (abs_endpoint R c) [SYN s] []" for s
    using put_control [OF ok, of SFP_FRAME_SYN s] by (intro locked_scope) simp
  have none: "reacts R c (sfpUnlockTransmitter ?c) (abs_endpoint R c) [] []"
    using sent_by_refl [OF ok] by (intro locked_scope) simp
  show ?thesis
    using send none ok
    by (cases "connectState c")
      (auto simp: sfpHandleUSR_unconnected_def not_connected_def conn control_defs)
qed

lemma call_deliver_refines:
  assumes "sfp_ok R c"
  shows "reacts R c ((sfpCallDeliver c)\<lparr>rx := (rx (sfpCallDeliver c))\<lparr>rx_seq := nextSeq (rx_seq (rx (sfpCallDeliver c)))\<rparr>\<rparr>)
    ((abs_endpoint R c)\<lparr>rxs := nextSeq (rx_seq (rx c))\<rparr>) [] [payload (packet (rx c))]"
proof -
  have "trace ((sfpCallDeliver c)\<lparr>rx := r\<rparr>) = trace c @ (case deliver (rx c) of None \<Rightarrow> []
      | Some f \<Rightarrow> [Deliver_call f (payload (packet (rx c))) (deliverData (rx c))])" for r
    by (simp add: sfpCallDeliver_def split: option.split)
  moreover have "rx (sfpCallDeliver c) = rx c" "tx (sfpCallDeliver c) = tx c"
      "connectState (sfpCallDeliver c) = connectState c"
    by (simp_all add: sfpCallDeliver_def split: option.split)
  moreover have "length (payload (packet (rx c))) \<le> SFP_CONFIG_MAX_PACKET_SIZE"
    using assms by (simp add: sfp_ok_def packet_ok_def payload_def)
  ultimately show ?thesis
    using assms
    by (auto simp: reacts_def sfp_ok_def tx_ok_def history_ok_def history_list_def callbacks_def
        abs_endpoint_def wire_def split: option.split)
qed

lemma nak_refines:
  assumes "sfp_ok R c"
  shows "\<exists>c'. TransmitterLock (\<lambda>c. sfpTransmitNAK c (rx_seq (rx c))) c = Inr c'
    \<and> reacts R c c' (abs_endpoint R c) [NAK (rx_seq (rx c))] []"
  using assms put_control [of R "sfpLockTransmitter c" SFP_FRAME_NAK "rx_seq (rx c)"]
  by (intro TransmitterLock_refines) (simp add: control_defs)

lemma sfpHandleUSR_refines:
  fixes c :: "'h sfp"
  assumes ok: "sfp_ok R c"
    and type: "getFrameType (header (rx c)) = (if retransmitted then SFP_FRAME_RTX else SFP_FRAME_USR)"
    and r: "on_user (abs_endpoint R c) retransmitted (getFrameSeq (header (rx c)))
              (payload (packet (rx c))) = (e, fs, ds)"
  shows "\<exists>c' ret. sfpHandleUSR c = Inr (c', ret) \<and> reacts R c c' e fs ds
    \<and> ret = (if ds = [] then 0 else 1)"
proof -
  obtain c1 where c1: "sfpHandleUSR_unconnected c = Inr (c1, connectState c \<noteq> SFP_CONNECT_STATE_CONNECTED)"
      "reacts R c c1 (abs_endpoint R c) (not_connected (abs_endpoint R c)) []" "rx c1 = rx c"
    using sfpHandleUSR_unconnected_refines [OF ok] by blast
  have ok1: "sfp_ok R c1" and abs1: "abs_endpoint R c1 = abs_endpoint R c"
    using c1(2) by (simp_all add: reacts_def)
  have conn: "conn (abs_endpoint R c) = connectState c" "rxs (abs_endpoint R c) = rx_seq (rx c)"
    by (simp_all add: abs_endpoint_def)
  have body: "sfpHandleUSR c =
      (if connectState c \<noteq> SFP_CONNECT_STATE_CONNECTED then Inr (c1, 0)
       else if getFrameSeq (header (rx c)) \<noteq> rx_seq (rx c)
       then (if retransmitted then Inr (c1, 0)
             else bindR (TransmitterLock (\<lambda>c. sfpTransmitNAK c (rx_seq (rx c))) c1) (\<lambda>c. Inr (c, 0)))
       else Inr ((sfpCallDeliver c1)\<lparr>rx := (rx (sfpCallDeliver c1))
                    \<lparr>rx_seq := nextSeq (rx_seq (rx (sfpCallDeliver c1)))\<rparr>\<rparr>, 1))"
    using type by (simp add: sfpHandleUSR_def c1(1,3) Let_def)
  show ?thesis
  proof (cases "connectState c = SFP_CONNECT_STATE_CONNECTED")
    case False
    then show ?thesis using r c1(2) by (auto simp: body on_user_def conn)
  next
    case True
    then have nc: "not_connected (abs_endpoint R c) = []" by (simp add: not_connected_def conn)
    show ?thesis
    proof (cases "getFrameSeq (header (rx c)) = rx_seq (rx c)")
      case seq: True
      have "reacts R c1 ((sfpCallDeliver c1)\<lparr>rx := (rx (sfpCallDeliver c1))
              \<lparr>rx_seq := nextSeq (rx_seq (rx (sfpCallDeliver c1)))\<rparr>\<rparr>) e [] ds"
        using call_deliver_refines [OF ok1] r True seq by (simp add: on_user_def conn abs1 c1(3))
      from reacts_trans [OF c1(2) this] show ?thesis
        using r True seq by (auto simp: body on_user_def conn nc)
    next
      case seq: False
      show ?thesis
      proof (cases retransmitted)
        case True
        with seq \<open>connectState c = SFP_CONNECT_STATE_CONNECTED\<close> r c1(2) nc show ?thesis
          by (auto simp: body on_user_def conn)
      next
        case retr: False
        obtain c2 where c2: "TransmitterLock (\<lambda>c. sfpTransmitNAK c (rx_seq (rx c))) c1 = Inr c2"
            "reacts R c1 c2 (abs_endpoint R c) [NAK (rx_seq (rx c))] []"
          using nak_refines [OF ok1] by (auto simp: abs1 c1(3))
        from reacts_trans [OF c1(2) c2(2)] c2(1) retr seq True r show ?thesis
          by (auto simp: body on_user_def conn nc)
      qed
    qed
  qed
qed

section \<open>Frames\<close>

text \<open>What the receiver has got when a flag arrives: nothing usable, or a frame.\<close>

definition received :: "'h sfp \<Rightarrow> frame option" where
  "received c =
     (let p = packet (rx c)
      in if len p < SFP_CRC_SIZE \<or> rx_crc (rx c) \<noteq> SFP_CRC_GOOD then None
         else Some (getFrameType (header (rx c)), getFrameSeq (header (rx c)),
                    take (len p - SFP_CRC_SIZE) (buf p)))"

definition on_input :: "endpoint \<Rightarrow> frame option \<Rightarrow> endpoint \<times> frame list \<times> u8 list list" where
  "on_input e f = (case f of None \<Rightarrow> (e, [NAK (rxs e)], []) | Some f \<Rightarrow> on_frame e f)"

definition on_connect :: "endpoint \<Rightarrow> endpoint \<times> frame list" where
  "on_connect e =
     (e\<lparr>rxs := SFP_INITIAL_SEQ, txs := SFP_INITIAL_SEQ, hist := [],
        conn := SFP_CONNECT_STATE_SENT_SYN0\<rparr>, [SYN SFP_SEQ_SYN0])"

definition on_send :: "endpoint \<Rightarrow> u8 list \<Rightarrow> endpoint \<times> frame list" where
  "on_send e bs =
     (e\<lparr>hist := drop (Suc (length (hist e)) - SFP_CONFIG_HISTORY_CAPACITY) (hist e @ [bs]),
        txs := nextSeq (txs e)\<rparr>, [USR (txs e) bs])"

lemma sfp_ok_packet [simp]:
  "sfp_ok R c \<Longrightarrow> len p \<le> len (packet (rx c)) \<Longrightarrow> buf p = buf (packet (rx c)) \<Longrightarrow>
   sfp_ok R (c\<lparr>rx := (rx c)\<lparr>packet := p\<rparr>\<rparr>)"
  by (auto simp: sfp_ok_def history_ok_def history_list_def packet_ok_def [of p]
      packet_ok_def [of "packet (rx c)"])

lemma packet_upd [simp]:
  "callbacks (c\<lparr>rx := (rx c)\<lparr>packet := p\<rparr>\<rparr>) = callbacks c"
  "abs_endpoint R (c\<lparr>rx := (rx c)\<lparr>packet := p\<rparr>\<rparr>) = abs_endpoint R c"
  by (simp_all add: callbacks_def abs_endpoint_def history_list_def)

lemma sfpHandleFrame_refines:
  fixes c :: "'h sfp"
  assumes laws: "ringbuffer_laws R" and ok: "sfp_ok R c"
    and r: "on_input (abs_endpoint R c) (received c) = (e, fs, ds)"
  shows "\<exists>c' ret. sfpHandleFrame R c = Inr (c', ret) \<and> reacts R c c' e fs ds
    \<and> ret = (if ds = [] then 0 else 1)"
proof -
  let ?p = "packet (rx c)"
  let ?c = "c\<lparr>rx := (rx c)\<lparr>packet := ?p\<lparr>len := len ?p - SFP_CRC_SIZE\<rparr>\<rparr>\<rparr>"
  let ?t = "getFrameType (header (rx c))" and ?s = "getFrameSeq (header (rx c))"
  have ok': "sfp_ok R ?c" using ok by simp
  have rxs: "rxs (abs_endpoint R c) = rx_seq (rx c)" by (simp add: abs_endpoint_def)
  show ?thesis
  proof (cases "len ?p < SFP_CRC_SIZE")
    case True
    then show ?thesis
      using nak_refines [OF ok] r by (auto simp: sfpHandleFrame_def received_def on_input_def rxs)
  next
    case long: False
    show ?thesis
    proof (cases "rx_crc (rx c) = SFP_CRC_GOOD")
      case False
      obtain c' where c': "TransmitterLock (\<lambda>c. sfpTransmitNAK c (rx_seq (rx c))) ?c = Inr c'"
          "reacts R ?c c' (abs_endpoint R c) [NAK (rx_seq (rx c))] []"
        using nak_refines [OF ok'] by auto
      have "reacts R c c' (abs_endpoint R c) [NAK (rx_seq (rx c))] []"
        by (rule reacts_from [OF _ _ c'(2)]) simp_all
      with c'(1) long False r show ?thesis
        by (auto simp: sfpHandleFrame_def received_def on_input_def rxs Let_def)
    next
      case True
      have f: "on_frame (abs_endpoint R c) (?t, ?s, payload (packet (rx ?c))) = (e, fs, ds)"
        using r long True by (simp add: received_def on_input_def payload_def Let_def)
      have body: "sfpHandleFrame R c =
          (case ?t of SFP_FRAME_USR \<Rightarrow> sfpHandleUSR ?c | SFP_FRAME_RTX \<Rightarrow> sfpHandleUSR ?c
           | SFP_FRAME_NAK \<Rightarrow> bindR (TransmitterLock (sfpHandleNAK R) ?c) (\<lambda>c. Inr (c, 0))
           | SFP_FRAME_SYN \<Rightarrow> bindR (TransmitterLock (sfpHandleSYN R) ?c) (\<lambda>c. Inr (c, 0)))"
        using long True by (simp add: sfpHandleFrame_def Let_def)
      have "\<exists>c' ret. sfpHandleFrame R c = Inr (c', ret) \<and> reacts R ?c c' e fs ds \<and> ret = (if ds = [] then 0 else 1)"
      proof (cases ?t)
        case SFP_FRAME_USR
        with sfpHandleUSR_refines [OF ok', of False e fs ds] f show ?thesis by (simp add: body)
      next
        case SFP_FRAME_RTX
        with sfpHandleUSR_refines [OF ok', of True e fs ds] f show ?thesis by (simp add: body)
      next
        case SFP_FRAME_NAK
        with f have n: "on_nak (abs_endpoint R c) ?s = (e, fs)" "ds = []" by (auto split: prod.splits)
        have "\<exists>c'. TransmitterLock (sfpHandleNAK R) ?c = Inr c' \<and> reacts R ?c c' e fs []"
          using sfpHandleNAK_refines [OF laws, of "sfpLockTransmitter ?c"] ok' SFP_FRAME_NAK n
          by (intro TransmitterLock_refines) simp
        with SFP_FRAME_NAK n show ?thesis by (auto simp: body)
      next
        case SFP_FRAME_SYN
        with f have n: "on_syn (abs_endpoint R c) ?s = (e, fs)" "ds = []" by (auto split: prod.splits)
        have "\<exists>c'. TransmitterLock (sfpHandleSYN R) ?c = Inr c' \<and> reacts R ?c c' e fs []"
          using sfpHandleSYN_refines [OF laws, of "sfpLockTransmitter ?c"] ok' SFP_FRAME_SYN n
          by (intro TransmitterLock_refines) simp
        with SFP_FRAME_SYN n show ?thesis by (auto simp: body)
      qed
      then show ?thesis using reacts_from [of ?c c] by auto
    qed
  qed
qed

section \<open>Connecting and sending\<close>

lemma sfp_ok_reset:
  "sfp_ok R c \<Longrightarrow> sfp_ok R (sfpResetReceiver c)"
  by (auto simp: sfpResetReceiver_def sfp_ok_def tx_ok_def history_ok_def history_list_def
      packet_ok_def [of "packet (rx c)\<lparr>len := 0\<rparr>"] packet_ok_def [of "packet (rx c)"])

lemma reset_upd [simp]:
  "callbacks (sfpResetReceiver c) = callbacks c" "trace (sfpResetReceiver c) = trace c"
  "abs_endpoint R (sfpResetReceiver c) = abs_endpoint R c"
  by (simp_all add: sfpResetReceiver_def callbacks_def abs_endpoint_def history_list_def)

lemma sfpConnect_refines:
  assumes laws: "ringbuffer_laws R" and ok: "sfp_ok R c"
  shows "\<exists>c'. sfpConnect R c = Inr c'
    \<and> reacts R c c' (fst (on_connect (abs_endpoint R c))) (snd (on_connect (abs_endpoint R c))) []
    \<and> rx c' = (rx (sfpResetReceiver c))\<lparr>rx_seq := SFP_INITIAL_SEQ\<rparr>"
proof -
  let ?c1 = "(sfpResetReceiver c)\<lparr>rx := (rx (sfpResetReceiver c))\<lparr>rx_seq := SFP_INITIAL_SEQ\<rparr>\<rparr>"
  let ?c2 = "sfpLockTransmitter ?c1"
  let ?c3 = "?c2\<lparr>tx := (tx ?c2)\<lparr>tx_seq := SFP_INITIAL_SEQ, history := cleared R (history (tx ?c2))\<rparr>\<rparr>"
  let ?c4 = "put_frame ?c3 (makeHeader SFP_FRAME_SYN SFP_SEQ_SYN0) None"
  let ?e = "(abs_endpoint R c)\<lparr>rxs := SFP_INITIAL_SEQ, txs := SFP_INITIAL_SEQ, hist := []\<rparr>"
  have ok3: "sfp_ok R ?c3"
    using sfp_ok_reset [OF ok] laws by (simp add: sfp_ok_def tx_ok_def history_ok_def history_list_def)
  have cb: "callbacks ?c3 = callbacks ?c2" "trace ?c3 = trace ?c2"
    by (simp_all add: callbacks_def)
  have e3: "abs_endpoint R ?c3 = ?e"
    using laws by (simp add: abs_endpoint_def history_list_def sfpResetReceiver_def)
  have "sent_by R ?c3 ?c4 (?e, [SYN SFP_SEQ_SYN0])"
    using put_control [OF ok3, of SFP_FRAME_SYN SFP_SEQ_SYN0] by (simp only: e3)
  from sent_by_connect [OF sent_by_from [OF cb this], of SFP_CONNECT_STATE_SENT_SYN0]
  have "sent_by R ?c2 (?c4\<lparr>connectState := SFP_CONNECT_STATE_SENT_SYN0\<rparr>) (on_connect (abs_endpoint R c))"
    by (simp add: on_connect_def)
  from locked_scope [OF this [unfolded on_connect_def]]
  have *: "reacts R ?c1 (sfpUnlockTransmitter (?c4\<lparr>connectState := SFP_CONNECT_STATE_SENT_SYN0\<rparr>))
      (fst (on_connect (abs_endpoint R c))) (snd (on_connect (abs_endpoint R c))) []"
    by (simp add: on_connect_def)
  have "callbacks ?c1 = callbacks c"
    by (simp add: sfpResetReceiver_def callbacks_def)
  from reacts_from [OF this _ *]
  have "reacts R c (sfpUnlockTransmitter (?c4\<lparr>connectState := SFP_CONNECT_STATE_SENT_SYN0\<rparr>))
      (fst (on_connect (abs_endpoint R c))) (snd (on_connect (abs_endpoint R c))) []"
    by simp
  moreover have "sfpConnect R c = Inr (sfpUnlockTransmitter (?c4\<lparr>connectState := SFP_CONNECT_STATE_SENT_SYN0\<rparr>))"
    using ok3 laws by (simp add: sfpConnect_def TransmitterLock_def Let_def sfpClearHistory_eq control_defs)
  ultimately show ?thesis by simp
qed

lemma history_push:
  "ringbuffer_laws R \<Longrightarrow> rb_list R (rb_pushBack R (history (tx c)) p) =
     drop (Suc (length (history_list R c)) - SFP_CONFIG_HISTORY_CAPACITY) (history_list R c @ [p])"
  by (simp add: ringbuffer_push history_list_def)

lemma sfpWritePacket_refines:
  assumes laws: "ringbuffer_laws R" and ok: "sfp_ok R c"
    and stack: "length stack = SFP_CONFIG_MAX_PACKET_SIZE"
    and fits: "length bs \<le> SFP_CONFIG_MAX_PACKET_SIZE"
  shows "\<exists>c'. sfpWritePacket R c stack bs = Inr (c', length (wire (snd (on_send (abs_endpoint R c) bs))))
    \<and> reacts R c c' (fst (on_send (abs_endpoint R c) bs)) (snd (on_send (abs_endpoint R c) bs)) []
    \<and> rx c' = rx c"
proof -
  let ?p = "\<lparr>buf = bs @ drop (length bs) stack, len = length bs\<rparr>"
  let ?c1 = "sfpLockTransmitter c"
  let ?c2 = "?c1\<lparr>tx := (tx ?c1)\<lparr>history := rb_pushBack R (history (tx ?c1)) ?p\<rparr>\<rparr>"
  let ?c3 = "put_packet SFP_FRAME_USR ?c2 ?p"
  have p: "packet_ok ?p" "payload ?p = bs"
    using stack fits by (simp_all add: packet_ok_def payload_def)
  have ok2: "sfp_ok R ?c2"
    using ok p(1) history_push [OF laws, of c ?p]
    by (auto simp: sfp_ok_def tx_ok_def history_ok_def history_list_def dest: in_set_dropD)
  have ok3: "sfp_ok R ?c3"
    using ok2 p(1) by (auto simp: sfp_ok_def history_ok_def history_list_def)
  have h: "map payload (drop k (history_list R c @ [?p])) = drop k (map payload (history_list R c) @ [bs])" for k
    by (simp only: drop_map [symmetric] map_append list.map p(2))
  have "abs_endpoint R ?c3 = (abs_endpoint R c)\<lparr>hist := map payload (rb_list R (rb_pushBack R (history (tx c)) ?p)),
      txs := nextSeq (tx_seq (tx c))\<rparr>"
    by (simp add: abs_endpoint_def history_list_def)
  also have "\<dots> = fst (on_send (abs_endpoint R c) bs)"
    unfolding history_push [OF laws] h by (simp add: on_send_def) (simp add: abs_endpoint_def)
  finally have "sent_by R ?c1 ?c3 (on_send (abs_endpoint R c) bs)"
    using ok3 frame_calls_cong [of ?c2 ?c1]
    by (simp add: sent_by_def p(2) callbacks_def) (simp add: on_send_def abs_endpoint_def)
  from locked_scope [OF this [unfolded on_send_def]]
  have "reacts R c (sfpUnlockTransmitter ?c3) (fst (on_send (abs_endpoint R c) bs))
      (snd (on_send (abs_endpoint R c) bs)) []"
    by (simp add: on_send_def)
  moreover have "sfpWritePacket R c stack bs
      = Inr (sfpUnlockTransmitter ?c3, length (wire (snd (on_send (abs_endpoint R c) bs))))"
    using sfpTransmitUSR_eq [of ?c1 ?p R] ok stack fits
    by (simp add: sfpWritePacket_def p(2) wire_def on_send_def) (simp add: abs_endpoint_def sfp_ok_def)
  ultimately show ?thesis by simp
qed

end
