(* ===== verification/Sfp_Framing.thy ===== *)
theory Sfp_Framing
  imports Sfp_Protocol
begin

text \<open>
  The receiver, octet by octet. The specification is an abstract receiver: the body
  collected so far and whether the next octet is escaped, next to the abstract endpoint of
  \<open>Sfp_Protocol\<close>. \<^verbatim>\<open>sfpDeliverOctet\<close> is proved to refine it on every octet whatsoever,
  which gives the absence of faults on arbitrary input; then the frames of the transmitter
  are shown to be received as sent, up to the length the buffer can take.
\<close>

section \<open>The abstract receiver\<close>

record receiver =
  escaping :: bool
  body :: "u8 list"

definition idle :: receiver where
  "idle = \<lparr>escaping = False, body = []\<rparr>"

text \<open>
  The body of a frame, with its check sequence: its header, its payload, or nothing usable.
\<close>

definition parse_body :: "u8 list \<Rightarrow> frame option" where
  "parse_body os =
     (if length os < 1 + SFP_CRC_SIZE \<or> crc_octets os \<noteq> SFP_CRC_GOOD then None
      else Some (getFrameType (hd os), getFrameSeq (hd os), take (length os - 1 - SFP_CRC_SIZE) (tl os)))"

text \<open>A data octet: a full buffer drops everything that was collected.\<close>

definition collect :: "receiver \<Rightarrow> u8 \<Rightarrow> receiver" where
  "collect r octet =
     (if length (body r) \<le> SFP_CONFIG_MAX_PACKET_SIZE then \<lparr>escaping = False, body = body r @ [octet]\<rparr>
      else idle)"

definition on_octet :: "endpoint \<times> receiver \<Rightarrow> u8 \<Rightarrow> (endpoint \<times> receiver) \<times> frame list \<times> u8 list list" where
  "on_octet s octet =
     (let (e, r) = s
      in if octet = SFP_FLAG then
           (if body r = [] then ((e, idle), [], [])
            else let (e, fs, ds) = on_input e (parse_body (body r)) in ((e, idle), fs, ds))
         else if octet = SFP_ESC then ((e, r\<lparr>escaping := True\<rparr>), [], [])
         else ((e, collect r (if escaping r then octet XOR SFP_ESC_FLIP_BIT else octet)), [], []))"

abbreviation on_octets :: "endpoint \<times> receiver \<Rightarrow> u8 list \<Rightarrow> (endpoint \<times> receiver) \<times> frame list \<times> u8 list list" where
  "on_octets \<equiv> run_spec on_octet"

section \<open>Abstraction\<close>

definition abs_receiver :: "'h sfp \<Rightarrow> receiver" where
  "abs_receiver c =
     \<lparr>escaping = (escapeState (rx c) = SFP_ESCAPE_STATE_ESCAPING),
      body = (case frameState (rx c) of
                SFP_FRAME_STATE_NEW \<Rightarrow> []
              | SFP_FRAME_STATE_RECEIVING \<Rightarrow> header (rx c) # payload (packet (rx c)))\<rparr>"

text \<open>The receiver's register is the checksum of what it has collected.\<close>

definition rx_consistent :: "'h sfp \<Rightarrow> bool" where
  "rx_consistent c \<longleftrightarrow> rx_crc (rx c) = crc_octets (body (abs_receiver c))
     \<and> (frameState (rx c) = SFP_FRAME_STATE_NEW \<longrightarrow> len (packet (rx c)) = 0)"

definition sfp_inv :: "('h, 'z) ringbuffer_scheme \<Rightarrow> 'h sfp \<Rightarrow> bool" where
  "sfp_inv R c \<longleftrightarrow> ringbuffer_laws R \<and> sfp_ok R c \<and> rx_consistent c"

definition abs_sfp :: "('h, 'z) ringbuffer_scheme \<Rightarrow> 'h sfp \<Rightarrow> endpoint \<times> receiver" where
  "abs_sfp R c = (abs_endpoint R c, abs_receiver c)"

text \<open>One or more steps of the library, against steps of the specification.\<close>

definition simulates ::
  "('h, 'z) ringbuffer_scheme \<Rightarrow> 'h sfp \<Rightarrow> 'h sfp
    \<Rightarrow> (endpoint \<times> receiver) \<times> frame list \<times> u8 list list \<Rightarrow> bool" where
  "simulates R c c' s \<longleftrightarrow>
     (case s of (a, fs, ds) \<Rightarrow> sfp_inv R c' \<and> abs_sfp R c' = a \<and> reacts R c c' (fst a) fs ds)"

lemma crc_octets_Nil [simp]: "crc_octets [] = SFP_CRC_PRESET"
  by (simp add: crc_octets_def)

lemma crc_octets_snoc: "crc_octets (xs @ [x]) = crc_ccitt_update (crc_octets xs) x"
  by (simp add: crc_octets_def)

lemma abs_receiver_reset [simp]: "abs_receiver (sfpResetReceiver c) = idle"
  by (simp add: abs_receiver_def sfpResetReceiver_def idle_def)

lemma rx_consistent_reset [simp]: "rx_consistent (sfpResetReceiver c)"
  by (simp add: rx_consistent_def) (simp add: sfpResetReceiver_def idle_def)

lemma body_idle [simp]: "body idle = []" "escaping idle = False"
  by (simp_all add: idle_def)

lemma parse_received:
  assumes "sfp_ok R c" and "rx_consistent c" and "frameState (rx c) = SFP_FRAME_STATE_RECEIVING"
  shows "parse_body (body (abs_receiver c)) = received c"
proof -
  have b: "body (abs_receiver c) = header (rx c) # payload (packet (rx c))"
    using assms(3) by (simp add: abs_receiver_def)
  have "length (payload (packet (rx c))) = len (packet (rx c))"
    using assms(1) by (simp add: payload_def sfp_ok_def packet_ok_def)
  moreover have "take (len (packet (rx c)) - SFP_CRC_SIZE) (payload (packet (rx c)))
      = take (len (packet (rx c)) - SFP_CRC_SIZE) (buf (packet (rx c)))"
    by (simp add: payload_def)
  ultimately show ?thesis
    using assms(2) by (simp add: parse_body_def received_def b rx_consistent_def Let_def)
qed

section \<open>One octet\<close>

lemma flag_refines:
  assumes "sfp_inv R c"
  shows "\<exists>c'. deliver_octet R c SFP_FLAG = Inr c' \<and> simulates R c c' (on_octet (abs_sfp R c) SFP_FLAG)"
proof (cases "frameState (rx c)")
  case SFP_FRAME_STATE_NEW
  have "reacts R c (sfpResetReceiver c) (abs_endpoint R c) [] []"
    using reacts_upd [OF reacts_refl, of R c "sfpResetReceiver c"] assms
    by (simp add: sfp_inv_def sfp_ok_reset)
  with SFP_FRAME_STATE_NEW assms show ?thesis
    by (simp add: deliver_octet_def sfpDeliverOctet_def on_octet_def simulates_def abs_sfp_def
        abs_receiver_def [of c] sfp_inv_def sfp_ok_reset)
next
  case SFP_FRAME_STATE_RECEIVING
  have p: "parse_body (body (abs_receiver c)) = received c"
    using parse_received [of R c] SFP_FRAME_STATE_RECEIVING assms by (simp add: sfp_inv_def)
  obtain e fs ds where r: "on_input (abs_endpoint R c) (received c) = (e, fs, ds)"
    by (metis prod_cases3)
  obtain c' ret where c': "sfpHandleFrame R c = Inr (c', ret)" "reacts R c c' e fs ds"
      "ret = (if ds = [] then 0 else 1)"
    using sfpHandleFrame_refines [OF _ _ r] assms by (auto simp: sfp_inv_def)
  have "reacts R c (sfpResetReceiver c') e fs ds"
    using reacts_upd [OF c'(2), of "sfpResetReceiver c'"] c'(2) by (simp add: reacts_def sfp_ok_reset)
  moreover have "deliver_octet R c SFP_FLAG = Inr (sfpResetReceiver c')"
    using SFP_FRAME_STATE_RECEIVING c'(1,3) by (simp add: deliver_octet_def sfpDeliverOctet_def)
  moreover have "on_octet (abs_sfp R c) SFP_FLAG = ((e, idle), fs, ds)"
    using SFP_FRAME_STATE_RECEIVING r p by (simp add: on_octet_def abs_sfp_def) (simp add: abs_receiver_def)
  ultimately show ?thesis
    using assms c'(2) by (auto simp: simulates_def abs_sfp_def sfp_inv_def reacts_def sfp_ok_reset)
qed

text \<open>Octets that only change the receiver: nothing is sent or delivered.\<close>

lemma silent_step:
  assumes "sfp_inv R c" and "d = c\<lparr>rx := r\<rparr>" and "rx_seq r = rx_seq (rx c)" and "deliver r = deliver (rx c)"
    and "deliverData r = deliverData (rx c)" and "packet_ok (packet r)" and "rx_consistent d"
    and "abs_receiver d = a"
  shows "simulates R c d ((abs_endpoint R c, a), [], [])"
proof -
  have "sfp_ok R d" "callbacks d = callbacks c" "trace d = trace c" "abs_endpoint R d = abs_endpoint R c"
    using assms by (simp_all add: sfp_inv_def sfp_ok_def history_ok_def history_list_def callbacks_def abs_endpoint_def)
  with assms show ?thesis
    using reacts_upd [OF reacts_refl, of R c d] by (auto simp: simulates_def sfp_inv_def abs_sfp_def)
qed

lemma length_payload: "packet_ok p \<Longrightarrow> length (payload p) = len p"
  by (simp add: payload_def packet_ok_def)

lemma escape_normal: "escapeState r = SFP_ESCAPE_STATE_NORMAL \<Longrightarrow> r\<lparr>escapeState := SFP_ESCAPE_STATE_NORMAL\<rparr> = r"
  by (cases r) simp

text \<open>The data path: un-escape, update the checksum, store.\<close>

lemma deliver_data:
  fixes c :: "'h sfp"
  assumes "octet \<noteq> SFP_FLAG" and "octet \<noteq> SFP_ESC"
  defines "x \<equiv> (if escaping (abs_receiver c) then octet XOR SFP_ESC_FLIP_BIT else octet)"
  defines "d \<equiv> c\<lparr>rx := (rx c)\<lparr>escapeState := SFP_ESCAPE_STATE_NORMAL,
                              rx_crc := crc_ccitt_update (rx_crc (rx c)) x\<rparr>\<rparr>"
  shows "deliver_octet R c octet =
    (if frameState (rx c) = SFP_FRAME_STATE_NEW
     then Inr (d\<lparr>rx := (rx d)\<lparr>header := x, frameState := SFP_FRAME_STATE_RECEIVING\<rparr>\<rparr>)
     else sfpBufferOctet d x)"
proof -
  have buffered: "bindR (bindR (sfpBufferOctet d x) (\<lambda>c. Inr (c, 0 :: int, None :: u8 list option, None :: nat option)))
      (\<lambda>(c, rc, mem, outlen). assertR (rc \<noteq> -1) (Inr c)) = sfpBufferOctet d x" for d :: "'h sfp" and x
    by (cases "sfpBufferOctet d x") simp_all
  show ?thesis
  proof (cases "escapeState (rx c)")
    case SFP_ESCAPE_STATE_NORMAL
    then have "x = octet" "d = c\<lparr>rx := (rx c)\<lparr>rx_crc := crc_ccitt_update (rx_crc (rx c)) octet\<rparr>\<rparr>"
      by (simp_all add: x_def d_def abs_receiver_def escape_normal)
    with SFP_ESCAPE_STATE_NORMAL assms(1,2) show ?thesis
      by (auto simp: deliver_octet_def sfpDeliverOctet_def buffered Let_def)
  next
    case SFP_ESCAPE_STATE_ESCAPING
    then have "x = octet XOR SFP_ESC_FLIP_BIT" by (simp add: x_def abs_receiver_def)
    with SFP_ESCAPE_STATE_ESCAPING assms(1,2) show ?thesis
      by (auto simp: deliver_octet_def sfpDeliverOctet_def buffered Let_def d_def)
  qed
qed

lemma packet_ok_snoc:
  assumes "packet_ok p" and "len p < SFP_CONFIG_MAX_PACKET_SIZE"
  shows "packet_ok \<lparr>buf = (buf p)[len p := x], len = Suc (len p)\<rparr>"
    and "payload \<lparr>buf = (buf p)[len p := x], len = Suc (len p)\<rparr> = payload p @ [x]"
  using assms by (simp_all add: packet_ok_def payload_def)

lemma data_refines:
  assumes inv: "sfp_inv R c" and o: "octet \<noteq> SFP_FLAG" "octet \<noteq> SFP_ESC"
  shows "\<exists>c'. deliver_octet R c octet = Inr c' \<and> simulates R c c' (on_octet (abs_sfp R c) octet)"
proof -
  define x where "x = (if escaping (abs_receiver c) then octet XOR SFP_ESC_FLIP_BIT else octet)"
  define d where "d = c\<lparr>rx := (rx c)\<lparr>escapeState := SFP_ESCAPE_STATE_NORMAL,
                                  rx_crc := crc_ccitt_update (rx_crc (rx c)) x\<rparr>\<rparr>"
  have run: "deliver_octet R c octet = (if frameState (rx c) = SFP_FRAME_STATE_NEW
      then Inr (d\<lparr>rx := (rx d)\<lparr>header := x, frameState := SFP_FRAME_STATE_RECEIVING\<rparr>\<rparr>)
      else sfpBufferOctet d x)"
    unfolding d_def x_def by (rule deliver_data [OF o])
  have spec: "on_octet (abs_sfp R c) octet = ((abs_endpoint R c, collect (abs_receiver c) x), [], [])"
    using o by (simp add: on_octet_def abs_sfp_def x_def)
  have p: "packet_ok (packet (rx c))" and crc: "rx_crc (rx c) = crc_octets (body (abs_receiver c))"
    using inv by (simp_all add: sfp_inv_def sfp_ok_def rx_consistent_def)
  show ?thesis
  proof (cases "frameState (rx c)")
    case SFP_FRAME_STATE_NEW
    let ?d = "d\<lparr>rx := (rx d)\<lparr>header := x, frameState := SFP_FRAME_STATE_RECEIVING\<rparr>\<rparr>"
    have b: "body (abs_receiver c) = []" "payload (packet (rx c)) = []"
      using SFP_FRAME_STATE_NEW inv
      by (simp_all add: abs_receiver_def sfp_inv_def rx_consistent_def payload_def)
    have a: "abs_receiver ?d = \<lparr>escaping = False, body = [x]\<rparr>"
      by (simp add: abs_receiver_def d_def b(2))
    moreover have "rx_consistent ?d"
      unfolding rx_consistent_def a by (simp add: d_def crc b(1) crc_octets_def)
    ultimately have "simulates R c ?d ((abs_endpoint R c, \<lparr>escaping = False, body = [x]\<rparr>), [], [])"
      using p by (intro silent_step [OF inv, where r = "rx ?d"]) (simp_all add: d_def)
    then show ?thesis
      using SFP_FRAME_STATE_NEW by (simp add: run spec collect_def b(1))
  next
    case SFP_FRAME_STATE_RECEIVING
    then have b: "body (abs_receiver c) = header (rx c) # payload (packet (rx c))"
      by (simp add: abs_receiver_def)
    have full: "length (body (abs_receiver c)) = Suc (len (packet (rx c)))"
      by (simp add: b length_payload [OF p])
    have dp: "packet (rx d) = packet (rx c)" by (simp add: d_def)
    show ?thesis
    proof (cases "len (packet (rx c)) < SFP_CONFIG_MAX_PACKET_SIZE")
      case False
      have "simulates R c (sfpResetReceiver d) ((abs_endpoint R c, idle), [], [])"
        using p by (intro silent_step [OF inv, where r = "rx (sfpResetReceiver d)"])
          (simp_all add: d_def sfpResetReceiver_def packet_ok_def,
           simp_all flip: sfpResetReceiver_def)
      with False SFP_FRAME_STATE_RECEIVING show ?thesis
        by (simp add: run spec collect_def full sfpBufferOctet_def dp)
    next
      case True
      let ?p = "\<lparr>buf = (buf (packet (rx c)))[len (packet (rx c)) := x], len = Suc (len (packet (rx c)))\<rparr>"
      let ?d = "d\<lparr>rx := (rx d)\<lparr>packet := ?p\<rparr>\<rparr>"
      have "len (packet (rx c)) < length (buf (packet (rx c)))" using True p by (simp add: packet_ok_def)
      then have run': "deliver_octet R c octet = Inr ?d"
        using True SFP_FRAME_STATE_RECEIVING by (simp add: run sfpBufferOctet_def dp Let_def)
      have a: "abs_receiver ?d = \<lparr>escaping = False, body = body (abs_receiver c) @ [x]\<rparr>"
        using SFP_FRAME_STATE_RECEIVING packet_ok_snoc(2) [OF p True, of x]
        by (simp add: b) (simp add: abs_receiver_def d_def)
      moreover have "rx_consistent ?d"
        unfolding rx_consistent_def a
        using SFP_FRAME_STATE_RECEIVING by (simp add: d_def crc crc_octets_snoc)
      ultimately have "simulates R c ?d
          ((abs_endpoint R c, \<lparr>escaping = False, body = body (abs_receiver c) @ [x]\<rparr>), [], [])"
        using packet_ok_snoc(1) [OF p True, of x]
        by (intro silent_step [OF inv, where r = "rx ?d"]) (simp_all add: d_def)
      with True run' show ?thesis by (simp add: spec collect_def full)
    qed
  qed
qed

lemma escape_refines:
  assumes "sfp_inv R c"
  shows "\<exists>c'. deliver_octet R c SFP_ESC = Inr c' \<and> simulates R c c' (on_octet (abs_sfp R c) SFP_ESC)"
proof -
  let ?d = "c\<lparr>rx := (rx c)\<lparr>escapeState := SFP_ESCAPE_STATE_ESCAPING\<rparr>\<rparr>"
  have "SFP_ESC \<noteq> SFP_FLAG" by (simp add: sfp_consts)
  have a: "abs_receiver ?d = (abs_receiver c)\<lparr>escaping := True\<rparr>"
    by (cases "frameState (rx c)") (simp_all add: abs_receiver_def)
  have "simulates R c ?d ((abs_endpoint R c, (abs_receiver c)\<lparr>escaping := True\<rparr>), [], [])"
    using assms a by (intro silent_step [where r = "rx ?d"])
      (auto simp: sfp_inv_def sfp_ok_def rx_consistent_def)
  with \<open>SFP_ESC \<noteq> SFP_FLAG\<close> show ?thesis
    by (simp add: deliver_octet_def sfpDeliverOctet_def on_octet_def abs_sfp_def)
qed

lemma deliver_octet_refines:
  assumes "sfp_inv R c"
  shows "\<exists>c'. deliver_octet R c octet = Inr c' \<and> simulates R c c' (on_octet (abs_sfp R c) octet)"
  using flag_refines escape_refines data_refines assms by metis

text \<open>The loop over octets is the loop of the simulation.\<close>

interpretation octets: simulation "sfp_inv R" "abs_sfp R"
  "\<lambda>c c'. reacts R c c' (abs_endpoint R c')" "deliver_octet R" "\<lambda>octet. True" on_octet
  for R :: "('h, 'z) ringbuffer_scheme"
proof
  fix c octet a fs ds
  assume "sfp_inv R c" and "on_octet (abs_sfp R c) octet = (a, fs, ds)"
  with deliver_octet_refines [of R c octet]
  show "\<exists>c'. deliver_octet R c octet = Inr c' \<and> sfp_inv R c' \<and> abs_sfp R c' = a
      \<and> reacts R c c' (abs_endpoint R c') fs ds"
    by (auto simp: simulates_def abs_sfp_def)
next
  fix c assume "sfp_inv R c"
  then show "reacts R c c (abs_endpoint R c) [] []" by (simp add: reacts_refl sfp_inv_def)
next
  fix c d d' fs ds fs' ds'
  assume "reacts R c d (abs_endpoint R d) fs ds" and "reacts R d d' (abs_endpoint R d') fs' ds'"
  then show "reacts R c d' (abs_endpoint R d') (fs @ fs') (ds @ ds')" by (rule reacts_trans)
qed

lemmas deliver_octets_refines = octets.run_ok [folded deliver_octets_def, simplified]

end
