(* ===== verification/Sfp_Link.thy ===== *)
theory Sfp_Link
  imports Sfp_Framing
begin

text \<open>
  From octets to frames. The abstract receiver of \<open>Sfp_Framing\<close> is split into a deframer,
  which turns a stream of octets into a list of inputs (frames, or bodies that are no
  frame), and the endpoint, which reacts to them. What the deframer makes of the
  transmitter's frames, of damaged ones and of those that are too long is established
  here.
\<close>

section \<open>Deframing\<close>

definition flagged :: "receiver \<Rightarrow> frame option list" where
  "flagged r = (if body r = [] then [] else [parse_body (body r)])"

fun deframe :: "receiver \<Rightarrow> u8 list \<Rightarrow> receiver \<times> frame option list" where
  "deframe r [] = (r, [])"
| "deframe r (x # xs) =
     (if x = SFP_FLAG then (let (r', is) = deframe idle xs in (r', flagged r @ is))
      else if x = SFP_ESC then deframe (r\<lparr>escaping := True\<rparr>) xs
      else deframe (collect r (if escaping r then x XOR SFP_ESC_FLIP_BIT else x)) xs)"

abbreviation on_inputs :: "endpoint \<Rightarrow> frame option list \<Rightarrow> endpoint \<times> frame list \<times> u8 list list" where
  "on_inputs \<equiv> run_spec on_input"

lemma on_octets_deframe:
  "on_octets (e, r) xs =
     (let (r', is) = deframe r xs; (e', fs, ds) = on_inputs e is in ((e', r'), fs, ds))"
proof (induction xs arbitrary: e r)
  case (Cons x xs)
  then show ?case
    by (simp add: on_octet_def flagged_def run_spec_append split: prod.splits)
qed simp

lemma deframe_append:
  "deframe r (xs @ ys) =
     (let (r', is) = deframe r xs; (r'', js) = deframe r' ys in (r'', is @ js))"
  by (induction r xs rule: deframe.induct) (auto simp: Let_def split: prod.splits)

section \<open>Un-stuffing\<close>

fun unescape :: "bool \<Rightarrow> u8 list \<Rightarrow> u8 list" where
  "unescape esc [] = []"
| "unescape esc (x # xs) =
     (if x = SFP_ESC then unescape True xs
      else (if esc then x XOR SFP_ESC_FLIP_BIT else x) # unescape False xs)"

lemma flip_flip [simp]: "(x XOR SFP_ESC_FLIP_BIT) XOR SFP_ESC_FLIP_BIT = x"
  by (simp add: xor.assoc)

lemma flip_reserved:
  "isReservedOctet x \<Longrightarrow> x XOR SFP_ESC_FLIP_BIT \<noteq> SFP_ESC \<and> x XOR SFP_ESC_FLIP_BIT \<noteq> SFP_FLAG"
  by (auto simp: isReservedOctet_def sfp_consts)

lemma ESC_not_FLAG [simp]: "SFP_ESC \<noteq> SFP_FLAG" "SFP_FLAG \<noteq> SFP_ESC"
  by (simp_all add: sfp_consts)

lemma unescape_escape [simp]: "unescape False (escape xs @ ys) = xs @ unescape False ys"
proof (induction xs)
  case (Cons x xs)
  then show ?case
    using flip_reserved [of x] by (auto simp: escape_Cons isReserved_escape isReservedOctet_def)
qed simp

lemma unescape_escape_all [simp]: "unescape False (escape xs) = xs"
  using unescape_escape [of xs "[]"] by simp

lemma escape_no_flag: "SFP_FLAG \<notin> set (escape xs)"
proof (induction xs)
  case (Cons x xs)
  then show ?case
    using flip_reserved [of x, THEN conjunct2, THEN not_sym]
    by (auto simp: escape_Cons isReserved_escape isReservedOctet_def)
qed simp

lemma deframe_data:
  assumes "SFP_FLAG \<notin> set xs"
    and "length (body r) + length (unescape (escaping r) xs) \<le> SFP_CONFIG_MAX_PACKET_SIZE + 1"
  shows "\<exists>esc. deframe r xs = (\<lparr>escaping = esc, body = body r @ unescape (escaping r) xs\<rparr>, [])"
  using assms
proof (induction "escaping r" xs arbitrary: r rule: unescape.induct)
  case 1
  show ?case by (cases r) simp
next
  case (2 x xs)
  show ?case
  proof (cases "x = SFP_ESC")
    case True
    with 2(1) [of "r\<lparr>escaping := True\<rparr>"] 2(3,4) show ?thesis by simp
  next
    case False
    define y where "y = (if escaping r then x XOR SFP_ESC_FLIP_BIT else x)"
    have "collect r y = \<lparr>escaping = False, body = body r @ [y]\<rparr>"
      using 2(4) False by (simp add: collect_def)
    moreover from 2(3) have "x \<noteq> SFP_FLAG" by auto
    ultimately show ?thesis
      using 2(2) [of "\<lparr>escaping = False, body = body r @ [y]\<rparr>"] 2(3,4) False
      by (simp add: y_def [symmetric])
  qed
qed

section \<open>Frames of the transmitter\<close>

definition max_payload :: nat where
  "max_payload = SFP_CONFIG_MAX_PACKET_SIZE - SFP_CRC_SIZE"

lemma length_frame_body [simp]: "length (frame_body hdr bs) = length bs + 3"
  by (simp add: frame_body_def sfp_consts)

lemma parse_frame_body: "parse_body (frame_body hdr bs) = Some (getFrameType hdr, getFrameSeq hdr, bs)"
  using crc_octets_fcs [of "hdr # bs"]
  by (simp add: parse_body_def frame_body_def sfp_consts)

text \<open>Whatever was collected before, a frame is received as it was sent.\<close>

lemma deframe_frame:
  assumes "length bs \<le> max_payload"
  shows "deframe r (frame_octets hdr bs)
    = (idle, flagged r @ [Some (getFrameType hdr, getFrameSeq hdr, bs)])"
proof -
  have "\<exists>esc. deframe idle (escape (frame_body hdr bs)) = (\<lparr>escaping = esc, body = frame_body hdr bs\<rparr>, [])"
    using deframe_data [of "escape (frame_body hdr bs)" idle] assms escape_no_flag
    by (simp add: max_payload_def sfp_consts)
  then show ?thesis
    by (auto simp: frame_octets_def deframe_append flagged_def parse_frame_body)
      (simp_all add: frame_body_def)
qed

definition frame_ok :: "frame \<Rightarrow> bool" where
  "frame_ok f = (case f of (t, s, bs) \<Rightarrow> seq_ok s \<and> length bs \<le> max_payload)"

lemma frame_ok_simp [simp]: "frame_ok (t, s, bs) \<longleftrightarrow> seq_ok s \<and> length bs \<le> max_payload"
  by (simp add: frame_ok_def)

lemma flagged_idle [simp]: "flagged idle = []"
  by (simp add: flagged_def)

lemma wire_simps [simp]:
  "wire [] = []" "wire ((t, s, bs) # fs) = frame_octets (makeHeader t s) bs @ wire fs"
  "wire (fs @ gs) = wire fs @ wire gs"
  by (simp_all add: wire_def)

lemma deframe_wire:
  "\<forall>f \<in> set fs. frame_ok f \<Longrightarrow> deframe idle (wire fs) = (idle, map Some fs)"
proof (induction fs)
  case (Cons f fs)
  obtain t s bs where f: "f = (t, s, bs)" by (cases f)
  with Cons show ?case by (simp add: deframe_append deframe_frame)
qed simp

text \<open>A frame in the middle of a stream: the octets before it do not matter to it.\<close>

lemma deframe_resync:
  assumes "length bs \<le> max_payload"
  shows "\<exists>is. deframe r (garbage @ frame_octets hdr bs)
    = (idle, is @ [Some (getFrameType hdr, getFrameSeq hdr, bs)])"
  using assms by (cases "deframe r garbage") (simp add: deframe_append deframe_frame)

text \<open>Back-to-back flags are ignored.\<close>

lemma deframe_flags: "deframe idle (replicate n SFP_FLAG) = (idle, [])"
  by (induction n) auto

section \<open>Damaged frames\<close>

text \<open>
  One octet of the stuffed body replaced by another, neither of them reserved: exactly one
  octet of what is collected changes.
\<close>

lemma unescape_append:
  "\<exists>esc'. \<forall>ys. unescape esc (xs @ ys) = unescape esc xs @ unescape esc' ys"
proof (induction esc xs rule: unescape.induct)
  case (1 esc)
  show ?case by (rule exI [of _ esc]) simp
next
  case (2 esc x xs)
  show ?case
  proof (cases "x = SFP_ESC")
    case True
    with 2(1) show ?thesis by simp
  next
    case False
    with 2(2) show ?thesis by simp
  qed
qed

lemma unescape_damage:
  assumes "\<not> isReservedOctet x" and "\<not> isReservedOctet y" and "x \<noteq> y"
  shows "\<exists>us vs a b. a \<noteq> b \<and> unescape esc (xs @ x # ys) = us @ a # vs
    \<and> unescape esc (xs @ y # ys) = us @ b # vs"
proof -
  obtain esc' where esc': "\<And>ys. unescape esc (xs @ ys) = unescape esc xs @ unescape esc' ys"
    using unescape_append by blast
  have "(if esc' then x XOR SFP_ESC_FLIP_BIT else x) \<noteq> (if esc' then y XOR SFP_ESC_FLIP_BIT else y)"
    using assms(3) by (auto simp: xor_right_cancel)
  with assms(1,2) show ?thesis
    by (intro exI [of _ "unescape esc xs"] exI [of _ "unescape False ys"]) (auto simp: esc' isReservedOctet_def)
qed

text \<open>A change of one octet in a body of at least two: a burst of two of them.\<close>

lemma crc_detects_octet:
  assumes "crc_octets (us @ a # vs) = SFP_CRC_GOOD" and "a \<noteq> b" and "2 \<le> length (us @ a # vs)"
  shows "crc_octets (us @ b # vs) \<noteq> SFP_CRC_GOOD"
proof (cases vs)
  case (Cons v vs')
  then show ?thesis
    using assms(1,2) crc.burst [of SFP_CRC_PRESET us a v vs' b v] by (auto simp: crc_octets_def)
next
  case Nil
  with assms(3) obtain us' u where "us = us' @ [u]" by (cases us rule: rev_cases) auto
  with Nil show ?thesis
    using assms(1,2) crc.burst [of SFP_CRC_PRESET us' u a "[]" u b] by (auto simp: crc_octets_def)
qed

lemma deframe_damaged:
  assumes frame: "escape (frame_body hdr bs) = xs @ x # ys"
    and "\<not> isReservedOctet x" and "\<not> isReservedOctet y" and "x \<noteq> y" and "length bs \<le> max_payload"
  shows "deframe idle (SFP_FLAG # (xs @ y # ys) @ [SFP_FLAG]) = (idle, [None])"
proof -
  obtain us vs a b where d: "a \<noteq> b" "unescape False (xs @ x # ys) = us @ a # vs"
      "unescape False (xs @ y # ys) = us @ b # vs"
    using unescape_damage [OF assms(2-4)] by blast
  have body: "us @ a # vs = frame_body hdr bs"
    using d(2) by (simp flip: frame)
  have crc: "crc_octets (frame_body hdr bs) = SFP_CRC_GOOD"
    using crc_octets_fcs [of "hdr # bs"] by (simp add: frame_body_def)
  have len: "length (us @ b # vs) = length bs + 3"
    using arg_cong [OF body, of length] by simp
  have "crc_octets (us @ b # vs) \<noteq> SFP_CRC_GOOD"
    using crc_detects_octet [of us a vs b] crc d(1) arg_cong [OF body, of length] by (simp add: body)
  moreover have "SFP_FLAG \<notin> set (xs @ y # ys)"
    using escape_no_flag [of "frame_body hdr bs"] assms(3) by (auto simp: frame isReservedOctet_def)
  then have "\<exists>esc. deframe idle (xs @ y # ys) = (\<lparr>escaping = esc, body = us @ b # vs\<rparr>, [])"
    using deframe_data [of "xs @ y # ys" idle] d(3) len assms(5) by (simp add: max_payload_def sfp_consts)
  ultimately show ?thesis
    by (auto simp: deframe_append flagged_def parse_body_def simp del: append_Cons append_assoc)
qed

section \<open>Frames that do not fit\<close>

lemma deframe_octet_stuffed:
  "\<not> escaping r \<Longrightarrow> deframe r (escape_octet x) = (collect r x, [])"
  using flip_reserved [of x] by (auto simp: isReserved_escape isReservedOctet_def collect_def)

lemma collect_not_escaping [simp]: "escaping (collect r x) = False"
  by (simp add: collect_def)

lemma deframe_stuffed:
  "\<not> escaping r \<Longrightarrow> deframe r (escape xs) = (foldl collect r xs, [])"
proof (induction xs arbitrary: r)
  case (Cons x xs)
  then show ?case by (simp add: escape_Cons deframe_append deframe_octet_stuffed)
qed simp

lemma collect_fits:
  "\<not> escaping r \<Longrightarrow> length (body r) + length xs \<le> SFP_CONFIG_MAX_PACKET_SIZE + 1 \<Longrightarrow>
   foldl collect r xs = r\<lparr>body := body r @ xs\<rparr>"
proof (induction xs arbitrary: r)
  case (Cons x xs)
  then have "collect r x = r\<lparr>body := body r @ [x]\<rparr>" by (cases r) (simp add: collect_def)
  with Cons show ?case by simp
qed simp

text \<open>
  The receiver keeps the check sequence in the same buffer as the payload. One octet too
  many, and everything collected is dropped: nothing is left of the frame, or its last
  octet only.
\<close>

lemma deframe_too_long:
  assumes "max_payload < length bs" and "length bs \<le> SFP_CONFIG_MAX_PACKET_SIZE"
  shows "deframe idle (frame_octets hdr bs) =
    (idle, if length bs = SFP_CONFIG_MAX_PACKET_SIZE then [None] else [])"
proof -
  let ?n = "Suc SFP_CONFIG_MAX_PACKET_SIZE"
  let ?xs = "frame_body hdr bs"
  have len: "length ?xs = length bs + 3" by simp
  have first: "foldl collect idle (take ?n ?xs) = idle\<lparr>body := take ?n ?xs\<rparr>"
    using collect_fits [of idle "take ?n ?xs"] by simp
  have full: "collect (idle\<lparr>body := take ?n ?xs\<rparr>) x = idle" for x
    using assms by (simp add: collect_def max_payload_def sfp_consts)
  have last: "deframe idle (frame_octets hdr bs) = (idle, flagged (foldl collect idle ?xs))"
    by (simp add: frame_octets_def deframe_append deframe_stuffed)
  have cut: "foldl collect idle ?xs = foldl collect (foldl collect idle (take ?n ?xs)) (drop ?n ?xs)"
    by (simp flip: foldl_append)
  show ?thesis
  proof (cases "length bs = SFP_CONFIG_MAX_PACKET_SIZE")
    case True
    with len have "length (drop ?n ?xs) = 2" by simp
    then obtain x y where "drop ?n ?xs = [x, y]"
      by (cases "drop ?n ?xs"; cases "tl (drop ?n ?xs)") auto
    then have "foldl collect idle ?xs = \<lparr>escaping = False, body = [y]\<rparr>"
      unfolding cut first by (simp add: full) (simp add: collect_def sfp_consts idle_def)
    with True show ?thesis by (simp add: last flagged_def parse_body_def sfp_consts)
  next
    case False
    with assms len have "length (drop ?n ?xs) = 1" by (simp add: max_payload_def sfp_consts)
    then obtain x where "drop ?n ?xs = [x]" by (cases "drop ?n ?xs") auto
    then have "foldl collect idle ?xs = idle"
      unfolding cut first by (simp add: full)
    with False show ?thesis by (simp add: last)
  qed
qed

end
