(* ===== verification/Sfp_Api.thy ===== *)
theory Sfp_Api
  imports Sfp_Link
begin

text \<open>
  The library as its clients see it: the calls of its interface as steps of one machine,
  run from an initialised context. Every run of valid calls refines the run of the abstract
  endpoint and receiver, never fails an assertion, never leaves an array's bounds or calls
  a null pointer, and keeps the lock discipline.
\<close>

section \<open>What a run has done\<close>

text \<open>The octets handed to the write callback and the payloads delivered between two states.\<close>

definition written :: "'h sfp \<Rightarrow> 'h sfp \<Rightarrow> u8 list" where
  "written c c' = out_octets (drop (length (trace c)) (trace c'))"

definition delivered :: "'h sfp \<Rightarrow> 'h sfp \<Rightarrow> u8 list list" where
  "delivered c c' = deliveries (drop (length (trace c)) (trace c'))"

lemma reacts_seen:
  assumes "reacts R c c' e fs ds"
  shows "written c c' = wire fs"
    and "delivered c c' = (if deliver (rx c) = None then [] else ds)"
    and "abs_endpoint R c' = e" and "callbacks c' = callbacks c"
  using assms by (auto simp: reacts_def written_def delivered_def)

lemma reacts_lock:
  assumes "reacts R c c' e fs ds" and "sfpIsTransmitterLockable c"
  shows "\<exists>es. trace c' = trace c @ es \<and> lock_monitor False es = Some False"
  using assms by (auto simp: reacts_def)

lemma reacts_trace:
  assumes "reacts R c c' e fs ds"
  shows "\<exists>es. trace c' = trace c @ es \<and> (\<forall>ev \<in> set es. own_call c ev) \<and> out_octets es = wire fs
    \<and> deliveries es = (if deliver (rx c) = None then [] else ds)
    \<and> (sfpIsTransmitterLockable c \<longrightarrow> lock_monitor False es = Some False)"
  using assms by (simp add: reacts_def)

section \<open>The calls\<close>

text \<open>
  \<^verbatim>\<open>sfpConnect\<close>, \<^verbatim>\<open>sfpWritePacket\<close> (with the uninitialised memory of its local
  variable) and \<^verbatim>\<open>sfpDeliverOctet\<close> without a buffer.
\<close>

datatype call = CallConnect | CallWrite "u8 list" "u8 list" | CallOctet u8

fun run_call :: "('h, 'z) ringbuffer_scheme \<Rightarrow> 'h sfp \<Rightarrow> call \<Rightarrow> 'h sfp res" where
  "run_call R c CallConnect = sfpConnect R c"
| "run_call R c (CallWrite stack bs) = bindR (sfpWritePacket R c stack bs) (\<lambda>(c, outlen). Inr c)"
| "run_call R c (CallOctet octet) = deliver_octet R c octet"

definition run_calls :: "('h, 'z) ringbuffer_scheme \<Rightarrow> 'h sfp \<Rightarrow> call list \<Rightarrow> 'h sfp res" where
  "run_calls R c calls = foldR (run_call R) calls c"

text \<open>The precondition of a call: packets of at most 256 octets, as the source asserts.\<close>

fun call_ok :: "call \<Rightarrow> bool" where
  "call_ok (CallWrite stack bs) \<longleftrightarrow>
     length stack = SFP_CONFIG_MAX_PACKET_SIZE \<and> length bs \<le> SFP_CONFIG_MAX_PACKET_SIZE"
| "call_ok _ \<longleftrightarrow> True"

fun on_call :: "endpoint \<times> receiver \<Rightarrow> call \<Rightarrow> (endpoint \<times> receiver) \<times> frame list \<times> u8 list list" where
  "on_call (e, r) CallConnect = (let (e, fs) = on_connect e in ((e, idle), fs, []))"
| "on_call (e, r) (CallWrite stack bs) = (let (e, fs) = on_send e bs in ((e, r), fs, []))"
| "on_call (e, r) (CallOctet octet) = on_octet (e, r) octet"

text \<open>The octets a call takes from the wire, and the packets it is given.\<close>

fun call_octets :: "call \<Rightarrow> u8 list" where
  "call_octets (CallOctet x) = [x]"
| "call_octets _ = []"

fun call_packets :: "call \<Rightarrow> u8 list list" where
  "call_packets (CallWrite stack bs) = [bs]"
| "call_packets _ = []"

section \<open>Every call refines its specification\<close>

lemma abs_receiver_cong:
  "escapeState (rx c') = escapeState (rx c) \<Longrightarrow> frameState (rx c') = frameState (rx c) \<Longrightarrow>
   header (rx c') = header (rx c) \<Longrightarrow> packet (rx c') = packet (rx c) \<Longrightarrow>
   abs_receiver c' = abs_receiver c"
  by (simp add: abs_receiver_def split: SFPframestate.split)

lemma connect_inv:
  assumes "sfp_inv R c"
  shows "\<exists>c'. sfpConnect R c = Inr c' \<and> sfp_inv R c' \<and> abs_receiver c' = idle
    \<and> reacts R c c' (fst (on_connect (abs_endpoint R c))) (snd (on_connect (abs_endpoint R c))) []"
proof -
  obtain c' where c': "sfpConnect R c = Inr c'" "rx c' = (rx (sfpResetReceiver c))\<lparr>rx_seq := SFP_INITIAL_SEQ\<rparr>"
    "reacts R c c' (fst (on_connect (abs_endpoint R c))) (snd (on_connect (abs_endpoint R c))) []"
    using sfpConnect_refines [of R c] assms by (auto simp: sfp_inv_def)
  have "abs_receiver c' = idle"
    by (simp add: abs_receiver_def c'(2) sfpResetReceiver_def idle_def)
  moreover from this have "rx_consistent c'"
    by (simp add: rx_consistent_def) (simp add: c'(2) sfpResetReceiver_def)
  ultimately show ?thesis
    using c'(1,3) assms by (auto simp: sfp_inv_def reacts_def)
qed

lemma write_inv:
  assumes "sfp_inv R c" and "length stack = SFP_CONFIG_MAX_PACKET_SIZE"
    and "length bs \<le> SFP_CONFIG_MAX_PACKET_SIZE"
  shows "\<exists>c'. sfpWritePacket R c stack bs = Inr (c', length (wire (snd (on_send (abs_endpoint R c) bs))))
    \<and> sfp_inv R c' \<and> abs_receiver c' = abs_receiver c
    \<and> reacts R c c' (fst (on_send (abs_endpoint R c) bs)) (snd (on_send (abs_endpoint R c) bs)) []"
proof -
  obtain c' where c': "sfpWritePacket R c stack bs = Inr (c', length (wire (snd (on_send (abs_endpoint R c) bs))))"
    "rx c' = rx c"
    "reacts R c c' (fst (on_send (abs_endpoint R c) bs)) (snd (on_send (abs_endpoint R c) bs)) []"
    using sfpWritePacket_refines [of R c stack bs] assms by (auto simp: sfp_inv_def)
  have a: "abs_receiver c' = abs_receiver c"
    by (rule abs_receiver_cong) (simp_all add: c'(2))
  then have "rx_consistent c'"
    using assms(1) by (simp add: sfp_inv_def rx_consistent_def a c'(2))
  with a show ?thesis
    using c'(1,3) assms(1) by (auto simp: sfp_inv_def reacts_def)
qed

interpretation calls: simulation "sfp_inv R" "abs_sfp R"
  "\<lambda>c c'. reacts R c c' (abs_endpoint R c')" "run_call R" call_ok on_call
  for R :: "('h, 'z) ringbuffer_scheme"
proof
  fix c call a fs ds
  assume inv: "sfp_inv R c" and ok: "call_ok call" and r: "on_call (abs_sfp R c) call = (a, fs, ds)"
  show "\<exists>c'. run_call R c call = Inr c' \<and> sfp_inv R c' \<and> abs_sfp R c' = a
      \<and> reacts R c c' (abs_endpoint R c') fs ds"
  proof (cases call)
    case CallConnect
    with connect_inv [OF inv] r show ?thesis
      by (auto simp: abs_sfp_def reacts_seen(3) split: prod.splits)
  next
    case (CallWrite stack bs)
    with write_inv [OF inv, of stack bs] ok r show ?thesis
      by (auto simp: abs_sfp_def reacts_seen(3) split: prod.splits)
  next
    case (CallOctet octet)
    with octets.step_ok [OF inv] r show ?thesis by (simp add: abs_sfp_def)
  qed
next
  fix c assume "sfp_inv R c"
  then show "reacts R c c (abs_endpoint R c) [] []" by (rule octets.obs_refl)
next
  fix c d d' fs ds fs' ds'
  assume "reacts R c d (abs_endpoint R d) fs ds" and "reacts R d d' (abs_endpoint R d') fs' ds'"
  then show "reacts R c d' (abs_endpoint R d') (fs @ fs') (ds @ ds')" by (rule octets.obs_trans)
qed

lemma on_call_octets: "run_spec on_call s (map CallOctet xs) = on_octets s xs"
  by (induction xs arbitrary: s) (auto simp: Let_def split: prod.splits)

lemmas run_calls_refines = calls.run_ok [folded run_calls_def]

section \<open>Properties of runs\<close>

text \<open>An initialised context satisfies the invariant.\<close>

definition memory_ok :: "('h, 'z) ringbuffer_scheme \<Rightarrow> 'h sfp \<Rightarrow> bool" where
  "memory_ok R c \<longleftrightarrow> history_ok R c \<and> length (writebuf (tx c)) = SFP_CONFIG_WRITEBUF_SIZE
     \<and> length (buf (packet (rx c))) = SFP_CONFIG_MAX_PACKET_SIZE"

lemma init_inv:
  assumes "ringbuffer_laws R" and "memory_ok R c"
  shows "sfp_inv R (sfpSetWriteCallback (sfpInit c) (Some f) d)"
proof -
  let ?c = "sfpSetWriteCallback (sfpInit c) (Some f) d"
  have a: "abs_receiver ?c = idle" by (simp add: setup_defs abs_receiver_def idle_def)
  have "rx_consistent ?c" unfolding rx_consistent_def a by (simp add: setup_defs)
  moreover have "sfp_ok R ?c"
    using assms(2)
    by (simp add: setup_defs sfp_ok_def tx_ok_def history_ok_def history_list_def
        packet_ok_def [of "(packet (rx c))\<lparr>len := 0\<rparr>"] memory_ok_def)
  ultimately show ?thesis using assms(1) by (simp add: sfp_inv_def)
qed

text \<open>
  The states a client can reach: a context object is initialised and its write callback is
  set; then calls are made, and callbacks are changed, in any order.
\<close>

inductive reachable :: "('h, 'z) ringbuffer_scheme \<Rightarrow> 'h sfp \<Rightarrow> bool" for R where
  init: "memory_ok R c \<Longrightarrow> reachable R (sfpSetWriteCallback (sfpInit c) (Some f) d)"
| call: "reachable R c \<Longrightarrow> call_ok call \<Longrightarrow> run_call R c call = Inr c' \<Longrightarrow> reachable R c'"
| set_write: "reachable R c \<Longrightarrow> reachable R (sfpSetWriteCallback c (Some f) d)"
| set_deliver: "reachable R c \<Longrightarrow> reachable R (sfpSetDeliverCallback c cb d)"
| set_lock: "reachable R c \<Longrightarrow> reachable R (sfpSetLockCallback c cb d)"
| set_unlock: "reachable R c \<Longrightarrow> reachable R (sfpSetUnlockCallback c cb d)"

lemma setters_inv:
  assumes "sfp_inv R c"
  shows "sfp_inv R (sfpSetWriteCallback c (Some f) d)" "sfp_inv R (sfpSetDeliverCallback c cb d)"
    "sfp_inv R (sfpSetLockCallback c cb d)" "sfp_inv R (sfpSetUnlockCallback c cb d)"
proof -
  have *: "sfp_inv R c'" if "sfp_ok R c'" "escapeState (rx c') = escapeState (rx c)"
    "rx_crc (rx c') = rx_crc (rx c)" "frameState (rx c') = frameState (rx c)"
    "header (rx c') = header (rx c)" "packet (rx c') = packet (rx c)" for c'
    using assms that abs_receiver_cong [of c' c] by (simp add: sfp_inv_def rx_consistent_def)
  have ok: "sfp_ok R c" using assms by (simp add: sfp_inv_def)
  show "sfp_inv R (sfpSetWriteCallback c (Some f) d)" "sfp_inv R (sfpSetDeliverCallback c cb d)"
    "sfp_inv R (sfpSetLockCallback c cb d)" "sfp_inv R (sfpSetUnlockCallback c cb d)"
    by (rule *; use ok in \<open>auto simp: setup_defs sfp_ok_def tx_ok_def history_ok_def history_list_def\<close>)+
qed

lemma reachable_inv: "reachable R c \<Longrightarrow> ringbuffer_laws R \<Longrightarrow> sfp_inv R c"
proof (induction rule: reachable.induct)
  case (call c call c')
  then show ?case using calls.step_ok [of R c call] by (metis prod_cases3 sum.inject(2))
qed (auto intro: init_inv setters_inv)

lemma raw_memory_ok: "memory_ok list_ringbuffer raw_context"
  by (simp add: memory_ok_def raw_context_def raw_packet_def history_ok_def history_list_def)

text \<open>An initialised context with its callbacks set, for the examples.\<close>

lemma example_inv: "sfp_inv list_ringbuffer example_context"
proof -
  have "reachable list_ringbuffer example_context"
    unfolding example_context_def
    by (intro reachable.intros(1,4,5,6)) (rule raw_memory_ok)
  then show ?thesis by (rule reachable_inv) simp
qed

text \<open>
  C5. The library refines its specification: whatever valid calls a client makes, in whatever
  order, and whatever octets arrive, no call goes wrong; the state afterwards is the
  state of the abstract endpoint and receiver after the same calls; the octets written are
  the frames they have sent, and the payloads delivered those they have delivered.
\<close>

theorem run_calls_correct:
  assumes "sfp_inv R c" and "\<forall>call \<in> set calls. call_ok call"
    and "run_spec on_call (abs_sfp R c) calls = (a, fs, ds)"
  shows "\<exists>c'. run_calls R c calls = Inr c' \<and> sfp_inv R c' \<and> abs_sfp R c' = a
    \<and> written c c' = wire fs \<and> delivered c c' = (if deliver (rx c) = None then [] else ds)"
  using run_calls_refines [OF assms] reacts_seen by blast

theorem run_calls_correct_witness:
  "\<exists>c'. run_calls list_ringbuffer example_context [CallConnect, CallOctet SFP_FLAG] = Inr c'
     \<and> conn (fst (abs_sfp list_ringbuffer c')) = SFP_CONNECT_STATE_SENT_SYN0
     \<and> written example_context c' = wire [SYN SFP_SEQ_SYN0] \<and> delivered example_context c' = []"
proof -
  obtain e where e: "run_spec on_call (abs_sfp list_ringbuffer example_context) [CallConnect, CallOctet SFP_FLAG]
      = ((e, idle), [SYN SFP_SEQ_SYN0], [])" and conn: "conn e = SFP_CONNECT_STATE_SENT_SYN0"
    by (simp add: abs_sfp_def on_connect_def on_octet_def)
  show ?thesis
    using run_calls_correct [OF example_inv _ e] conn by auto
qed

text \<open>
  C6. No reachable state can go wrong: in every state that a client can reach, every valid
  call returns - no assertion fails, no array is accessed out of its bounds, no null
  pointer is called or stored through, and no loop runs forever - and the transmit buffer
  is empty, the history within its capacity and both sequence numbers within their range.
\<close>

theorem reachable_safe:
  assumes "reachable R c" and "ringbuffer_laws R" and "call_ok call"
  shows "(\<exists>c'. run_call R c call = Inr c' \<and> reachable R c')
    \<and> writebufn (tx c) = 0 \<and> length (history_list R c) \<le> SFP_CONFIG_HISTORY_CAPACITY
    \<and> unat (tx_seq (tx c)) < 64 \<and> unat (rx_seq (rx c)) < 64"
proof -
  have inv: "sfp_inv R c" using reachable_inv assms(1,2) .
  have "\<exists>c'. run_call R c call = Inr c'"
    using calls.step_ok [OF inv assms(3)] by (metis prod_cases3)
  moreover have "writebufn (tx c) = 0" "length (history_list R c) \<le> SFP_CONFIG_HISTORY_CAPACITY"
    "unat (tx_seq (tx c)) < 64" "unat (rx_seq (rx c)) < 64"
    using inv by (simp_all add: sfp_inv_def sfp_ok_def tx_ok_def history_ok_def seq_ok_unat)
  ultimately show ?thesis
    using reachable.call [OF assms(1,3)] by blast
qed

theorem reachable_safe_witness:
  "\<exists>c'. run_call list_ringbuffer (sfpSetWriteCallback (sfpInit raw_context) (Some 1) None)
     (CallWrite (replicate SFP_CONFIG_MAX_PACKET_SIZE 0) [1, 2, 3]) = Inr c'"
  using reachable_safe [OF reachable.init [OF raw_memory_ok, of 1 None], of
      "CallWrite (replicate SFP_CONFIG_MAX_PACKET_SIZE 0) [1, 2, 3]"]
  by (auto simp: sfp_consts)

text \<open>
  C19. What the callbacks get: in every run of valid calls from a state that a client can reach,
  each call of a callback is one of the function that was set, with the user pointer that
  was set with it; the write callback gets between 1 and 512 octets, the deliver callback a
  packet of at most 256, and the lock callbacks are only called if both are set.
\<close>

theorem callbacks_well_typed:
  assumes "reachable R c" and "ringbuffer_laws R" and "\<forall>call \<in> set calls. call_ok call"
  shows "\<exists>c' es. run_calls R c calls = Inr c' \<and> trace c' = trace c @ es \<and> (\<forall>ev \<in> set es. own_call c ev)"
proof -
  obtain a fs ds where r: "run_spec on_call (abs_sfp R c) calls = (a, fs, ds)" by (metis prod_cases3)
  from run_calls_refines [OF reachable_inv [OF assms(1,2)] assms(3) r] show ?thesis
    using reacts_trace by blast
qed

theorem callbacks_well_typed_witness:
  "\<exists>c' es. run_calls list_ringbuffer (sfpSetWriteCallback (sfpInit raw_context) (Some 1) None) [CallConnect, CallOctet SFP_FLAG] = Inr c'
     \<and> trace c' = es \<and> (\<forall>ev \<in> set es. \<exists>w. ev = Write_call 1 w None \<and> 0 < length w \<and> length w \<le> 512)"
proof -
  let ?c = "sfpSetWriteCallback (sfpInit raw_context) (Some 1) None :: SFPpacket list sfp"
  obtain c' es where c': "run_calls list_ringbuffer ?c [CallConnect, CallOctet SFP_FLAG] = Inr c'"
    "trace c' = trace ?c @ es" "\<forall>ev \<in> set es. own_call ?c ev"
    using callbacks_well_typed [OF reachable.init [OF raw_memory_ok], of "[CallConnect, CallOctet SFP_FLAG]" 1 None] by auto
  have "\<exists>w. ev = Write_call 1 w None \<and> 0 < length w \<and> length w \<le> 512" if "own_call ?c ev" for ev
    using that by (cases ev) (auto simp: setup_defs raw_context_def sfpIsTransmitterLockable_def SFP_CONFIG_WRITEBUF_SIZE_def)
  with c' show ?thesis by (intro exI [of _ c'] exI [of _ es]) (simp add: setup_defs raw_context_def)
qed

text \<open>
  C20. The lock discipline: if both lock callbacks are set, then in every run of valid calls
  the transmitter's lock is taken and released alternately, every write happens while it
  is held, no packet is delivered while it is held (so that a delivery may send), and it
  is free when the run ends.
\<close>

theorem run_calls_lock_discipline:
  assumes "sfp_inv R c" and "\<forall>call \<in> set calls. call_ok call" and "sfpIsTransmitterLockable c"
  shows "\<exists>c' es. run_calls R c calls = Inr c' \<and> trace c' = trace c @ es
    \<and> lock_monitor False es = Some False"
proof -
  obtain a fs ds where r: "run_spec on_call (abs_sfp R c) calls = (a, fs, ds)" by (metis prod_cases3)
  from run_calls_refines [OF assms(1,2) r] show ?thesis
    using reacts_lock assms(3) by blast
qed

theorem run_calls_lock_discipline_witness:
  "\<exists>c' es. run_calls list_ringbuffer example_context [CallConnect, CallOctet SFP_FLAG] = Inr c'
     \<and> trace c' = trace example_context @ es \<and> lock_monitor False es = Some False"
  using run_calls_lock_discipline [OF example_inv, of "[CallConnect, CallOctet SFP_FLAG]"]
  by (simp add: example_context_def setup_defs sfpIsTransmitterLockable_def)

end
