(* ===== verification/Sfp_Session.thy ===== *)
theory Sfp_Session
  imports Sfp_Api
begin

text \<open>
  Two contexts and a link: what one writes is delivered to the other. The properties of
  sessions: packets arrive as they were sent, a handshake connects, a lost frame is
  recovered, a damaged one is refused, one that is too long is not delivered, and a
  receiver that joins in the middle of anything finds the next frame.
\<close>

section \<open>Input of octets, in terms of frames\<close>

lemma input_runs:
  assumes "sfp_inv R c" and "deframe (abs_receiver c) xs = (r, is)"
    and "on_inputs (abs_endpoint R c) is = (e, fs, ds)"
  shows "\<exists>c'. deliver_octets R c xs = Inr c' \<and> sfp_inv R c' \<and> abs_endpoint R c' = e
    \<and> abs_receiver c' = r \<and> callbacks c' = callbacks c
    \<and> written c c' = wire fs \<and> delivered c c' = (if deliver (rx c) = None then [] else ds)"
proof -
  have "on_octets (abs_sfp R c) xs = ((e, r), fs, ds)"
    using assms(2,3) by (simp add: abs_sfp_def on_octets_deframe)
  from deliver_octets_refines [OF assms(1) this] show ?thesis
    using reacts_seen(1,2,4) by (fastforce simp: abs_sfp_def)
qed

lemma input_total:
  assumes "sfp_inv R c"
  shows "\<exists>c'. deliver_octets R c xs = Inr c' \<and> sfp_inv R c' \<and> callbacks c' = callbacks c
    \<and> abs_receiver c' = fst (deframe (abs_receiver c) xs)"
proof -
  obtain r "is" where d: "deframe (abs_receiver c) xs = (r, is)" by fastforce
  obtain e fs ds where "on_inputs (abs_endpoint R c) is = (e, fs, ds)" by (metis prod_cases3)
  from input_runs [OF assms d this] show ?thesis by (auto simp: d)
qed

text \<open>Frames arriving at a receiver that waits for one.\<close>

lemma frames_run:
  assumes "sfp_inv R c" and "abs_receiver c = idle" and "\<forall>f \<in> set gs. frame_ok f"
    and "on_inputs (abs_endpoint R c) (map Some gs) = (e, fs, ds)"
  shows "\<exists>c'. deliver_octets R c (wire gs) = Inr c' \<and> sfp_inv R c' \<and> abs_endpoint R c' = e
    \<and> abs_receiver c' = idle \<and> callbacks c' = callbacks c
    \<and> written c c' = wire fs \<and> delivered c c' = (if deliver (rx c) = None then [] else ds)"
  using input_runs [OF assms(1) _ assms(4), of "wire gs" idle] assms(2,3) by (simp add: deframe_wire)

lemma endpoint_simps:
  "conn (abs_endpoint R c) = connectState c" "rxs (abs_endpoint R c) = rx_seq (rx c)"
  "txs (abs_endpoint R c) = tx_seq (tx c)" "hist (abs_endpoint R c) = map payload (history_list R c)"
  by (simp_all add: abs_endpoint_def)

lemma inv_seqs: "sfp_inv R c \<Longrightarrow> seq_ok (tx_seq (tx c))" "sfp_inv R c \<Longrightarrow> seq_ok (rx_seq (rx c))"
  by (simp_all add: sfp_inv_def sfp_ok_def)

section \<open>Packets arrive as they were sent\<close>

primrec usr :: "u8 \<Rightarrow> u8 list list \<Rightarrow> frame list" where
  "usr s [] = []"
| "usr s (bs # bss) = USR s bs # usr (nextSeq s) bss"

lemma sends:
  "\<exists>e'. run_spec on_call (e, r) (map (CallWrite stack) bss) = ((e', r), usr (txs e) bss, [])
     \<and> conn e' = conn e \<and> rxs e' = rxs e \<and> txs e' = (nextSeq ^^ length bss) (txs e)"
proof (induction bss arbitrary: e)
  case (Cons bs bss)
  from Cons.IH [of "fst (on_send e bs)"] show ?case
    by (auto simp: on_send_def funpow_swap1)
qed simp

lemma usr_frames_ok:
  "seq_ok s \<Longrightarrow> \<forall>bs \<in> set bss. length bs \<le> max_payload \<Longrightarrow> \<forall>f \<in> set (usr s bss). frame_ok f"
proof (induction bss arbitrary: s)
  case (Cons bs bss)
  then show ?case using Cons.IH [of "nextSeq s"] by simp
qed simp

lemma rtx_frames_ok:
  "seq_ok s \<Longrightarrow> \<forall>bs \<in> set bss. length bs \<le> max_payload \<Longrightarrow> \<forall>f \<in> set (rtx s bss). frame_ok f"
proof (induction bss arbitrary: s)
  case (Cons bs bss)
  then show ?case using Cons.IH [of "nextSeq s"] by simp
qed simp

lemma receives:
  assumes "conn e = SFP_CONNECT_STATE_CONNECTED"
  shows "on_inputs e (map Some (usr (rxs e) bss)) = (e\<lparr>rxs := (nextSeq ^^ length bss) (rxs e)\<rparr>, [], bss)"
    and "on_inputs e (map Some (rtx (rxs e) bss)) = (e\<lparr>rxs := (nextSeq ^^ length bss) (rxs e)\<rparr>, [], bss)"
proof -
  show "on_inputs e (map Some (usr (rxs e) bss)) = (e\<lparr>rxs := (nextSeq ^^ length bss) (rxs e)\<rparr>, [], bss)"
    using assms
  proof (induction bss arbitrary: e)
    case (Cons bs bss)
    from Cons.IH [of "e\<lparr>rxs := nextSeq (rxs e)\<rparr>"] Cons.prems show ?case
      by (simp add: on_input_def on_user_def funpow_swap1)
  qed simp
  show "on_inputs e (map Some (rtx (rxs e) bss)) = (e\<lparr>rxs := (nextSeq ^^ length bss) (rxs e)\<rparr>, [], bss)"
    using assms
  proof (induction bss arbitrary: e)
    case (Cons bs bss)
    from Cons.IH [of "e\<lparr>rxs := nextSeq (rxs e)\<rparr>"] Cons.prems show ?case
      by (simp add: on_input_def on_user_def funpow_swap1)
  qed simp
qed

lemma packets_run:
  assumes "sfp_inv R a" and "sfp_inv R' b" and "abs_receiver b = idle"
    and "connectState b = SFP_CONNECT_STATE_CONNECTED" and "rx_seq (rx b) = tx_seq (tx a)"
    and "deliver (rx b) \<noteq> None" and "length stack = SFP_CONFIG_MAX_PACKET_SIZE"
    and "\<forall>bs \<in> set bss. length bs \<le> SFP_CONFIG_MAX_PACKET_SIZE - SFP_CRC_SIZE"
  shows "\<exists>a' b'. run_calls R a (map (CallWrite stack) bss) = Inr a'
    \<and> deliver_octets R' b (written a a') = Inr b'
    \<and> delivered b b' = bss \<and> written b b' = [] \<and> abs_receiver b' = idle
    \<and> connectState b' = SFP_CONNECT_STATE_CONNECTED \<and> rx_seq (rx b') = tx_seq (tx a')
    \<and> sfp_inv R a' \<and> sfp_inv R' b' \<and> abs_receiver a' = abs_receiver a
    \<and> callbacks a' = callbacks a \<and> callbacks b' = callbacks b
    \<and> connectState a' = connectState a \<and> rx_seq (rx a') = rx_seq (rx a) \<and> tx_seq (tx b') = tx_seq (tx b)"
proof -
  obtain e where e: "run_spec on_call (abs_sfp R a) (map (CallWrite stack) bss)
      = ((e, abs_receiver a), usr (tx_seq (tx a)) bss, [])"
    and txs: "txs e = (nextSeq ^^ length bss) (tx_seq (tx a))" "conn e = connectState a" "rxs e = rx_seq (rx a)"
    using sends [of "abs_endpoint R a" "abs_receiver a" stack bss]
    by (auto simp: abs_sfp_def endpoint_simps)
  have "\<forall>call \<in> set (map (CallWrite stack) bss). call_ok call"
    using assms(7,8) by auto
  from run_calls_refines [OF assms(1) this e]
  obtain a' where a': "run_calls R a (map (CallWrite stack) bss) = Inr a'"
    "written a a' = wire (usr (tx_seq (tx a)) bss)" "abs_endpoint R a' = e" "sfp_inv R a'"
    "abs_receiver a' = abs_receiver a" "callbacks a' = callbacks a"
    using reacts_seen(1,4) by (fastforce simp: abs_sfp_def)
  have "on_inputs (abs_endpoint R' b) (map Some (usr (tx_seq (tx a)) bss))
      = ((abs_endpoint R' b)\<lparr>rxs := (nextSeq ^^ length bss) (tx_seq (tx a))\<rparr>, [], bss)"
    using receives(1) [of "abs_endpoint R' b" bss] assms(4,5) by (simp add: endpoint_simps)
  from frames_run [OF assms(2,3) usr_frames_ok this] obtain b' where b':
      "deliver_octets R' b (wire (usr (tx_seq (tx a)) bss)) = Inr b'" "abs_receiver b' = idle"
      "abs_endpoint R' b' = (abs_endpoint R' b)\<lparr>rxs := (nextSeq ^^ length bss) (tx_seq (tx a))\<rparr>"
      "delivered b b' = bss" "written b b' = []" "sfp_inv R' b'" "callbacks b' = callbacks b"
    using assms(6,8) inv_seqs(1) [OF assms(1)] by (auto simp: max_payload_def)
  have "connectState b' = SFP_CONNECT_STATE_CONNECTED" "rx_seq (rx b') = tx_seq (tx a')"
      "connectState a' = connectState a" "rx_seq (rx a') = rx_seq (rx a)" "tx_seq (tx b') = tx_seq (tx b)"
    using arg_cong [OF b'(3), of conn] arg_cong [OF b'(3), of rxs] arg_cong [OF b'(3), of txs]
      arg_cong [OF a'(3), of txs] arg_cong [OF a'(3), of rxs] arg_cong [OF a'(3), of conn] assms(4) txs
    by (simp_all add: endpoint_simps)
  with a'(1,2,4-6) b' show ?thesis by simp
qed

text \<open>
  C1. Packets arrive as they were sent: on a lossless link, whatever packets (of at most 254
  octets) one endpoint writes, the other, connected and expecting the writer's number,
  delivers exactly these, in order, once, and writes nothing in return. Both agree on the
  next number afterwards, so that the property holds for the packets that follow.
\<close>

theorem packets_arrive:
  assumes "sfp_inv R a" and "sfp_inv R' b" and "abs_receiver b = idle"
    and "connectState b = SFP_CONNECT_STATE_CONNECTED" and "rx_seq (rx b) = tx_seq (tx a)"
    and "deliver (rx b) \<noteq> None" and "length stack = SFP_CONFIG_MAX_PACKET_SIZE"
    and "\<forall>bs \<in> set bss. length bs \<le> SFP_CONFIG_MAX_PACKET_SIZE - SFP_CRC_SIZE"
  shows "\<exists>a' b'. run_calls R a (map (CallWrite stack) bss) = Inr a'
    \<and> deliver_octets R' b (written a a') = Inr b'
    \<and> delivered b b' = bss \<and> written b b' = [] \<and> abs_receiver b' = idle
    \<and> connectState b' = SFP_CONNECT_STATE_CONNECTED \<and> rx_seq (rx b') = tx_seq (tx a')"
  using packets_run [OF assms] by blast

text \<open>The two contexts of the examples, connected.\<close>

definition example_connected :: "SFPpacket list sfp" where
  "example_connected = example_context\<lparr>connectState := SFP_CONNECT_STATE_CONNECTED\<rparr>"

lemma example_simps [simp]:
  "abs_receiver example_context = idle" "abs_receiver example_connected = idle"
  "connectState example_context = SFP_CONNECT_STATE_DISCONNECTED"
  "connectState example_connected = SFP_CONNECT_STATE_CONNECTED"
  "rx_seq (rx example_connected) = SFP_INITIAL_SEQ" "tx_seq (tx example_connected) = SFP_INITIAL_SEQ"
  "deliver (rx example_connected) = Some 2" "deliver (rx example_context) = Some 2"
  "history_list list_ringbuffer example_connected = []"
  by (simp_all add: example_connected_def example_context_def raw_context_def setup_defs
      abs_receiver_def idle_def history_list_def)

lemma connected_inv: "sfp_inv list_ringbuffer example_connected"
proof -
  have "abs_receiver example_connected = abs_receiver example_context"
    by (rule abs_receiver_cong) (simp_all add: example_connected_def)
  then have "rx_consistent example_connected = rx_consistent example_context"
    unfolding rx_consistent_def by (simp add: example_connected_def)
  moreover have "sfp_ok list_ringbuffer example_connected = sfp_ok list_ringbuffer example_context"
    by (simp add: example_connected_def sfp_ok_def history_ok_def history_list_def)
  ultimately show ?thesis using example_inv by (simp add: sfp_inv_def)
qed

theorem packets_arrive_witness:
  "\<exists>a' b'. run_calls list_ringbuffer example_connected
       (map (CallWrite (replicate SFP_CONFIG_MAX_PACKET_SIZE 0)) [[0x7e, 1], [], [0x7d]]) = Inr a'
     \<and> deliver_octets list_ringbuffer example_connected (written example_connected a') = Inr b'
     \<and> delivered example_connected b' = [[0x7e, 1], [], [0x7d]]"
  using packets_arrive [OF connected_inv connected_inv, of "replicate SFP_CONFIG_MAX_PACKET_SIZE 0"
      "[[0x7e, 1], [], [0x7d]]"]
  by (auto simp: sfp_consts)

section \<open>The handshake\<close>

definition fresh_endpoint :: "SFPconnectstate \<Rightarrow> endpoint" where
  "fresh_endpoint st = \<lparr>conn = st, rxs = SFP_INITIAL_SEQ, txs = SFP_INITIAL_SEQ, hist = []\<rparr>"

lemma handshake_run:
  assumes "sfp_inv R a" and "sfp_inv R' b" and "abs_receiver b = idle"
  shows "\<exists>a1 b1 a2 b2. sfpConnect R a = Inr a1
    \<and> deliver_octets R' b (written a a1) = Inr b1
    \<and> deliver_octets R a1 (written b b1) = Inr a2
    \<and> deliver_octets R' b1 (written a1 a2) = Inr b2
    \<and> written a a1 = wire [SYN SFP_SEQ_SYN0] \<and> written b b1 = wire [SYN SFP_SEQ_SYN1]
    \<and> written a1 a2 = wire [SYN SFP_SEQ_SYN2] \<and> written b1 b2 = []
    \<and> delivered a1 a2 = [] \<and> delivered b b1 = [] \<and> delivered b1 b2 = []
    \<and> sfp_inv R a2 \<and> abs_receiver a2 = idle \<and> callbacks a2 = callbacks a
    \<and> abs_endpoint R a2 = fresh_endpoint SFP_CONNECT_STATE_CONNECTED
    \<and> sfp_inv R' b2 \<and> abs_receiver b2 = idle \<and> callbacks b2 = callbacks b
    \<and> abs_endpoint R' b2 = fresh_endpoint SFP_CONNECT_STATE_CONNECTED"
proof -
  have num: "SFP_SEQ_SYN1 \<noteq> SFP_SEQ_SYN0" "SFP_SEQ_SYN2 \<noteq> SFP_SEQ_SYN0" "SFP_SEQ_SYN2 \<noteq> SFP_SEQ_SYN1"
    "seq_ok SFP_SEQ_SYN0" "seq_ok SFP_SEQ_SYN1" "seq_ok SFP_SEQ_SYN2"
    by (simp_all add: sfp_consts seq_ok_def)
  obtain a1 where a1: "sfpConnect R a = Inr a1" "sfp_inv R a1" "abs_receiver a1 = idle"
      "abs_endpoint R a1 = fresh_endpoint SFP_CONNECT_STATE_SENT_SYN0" "written a a1 = wire [SYN SFP_SEQ_SYN0]"
      "callbacks a1 = callbacks a"
    using connect_inv [OF assms(1)] reacts_seen(1,3,4)
    by (fastforce simp: on_connect_def fresh_endpoint_def abs_endpoint_def [of R a])
  have "on_inputs (abs_endpoint R' b) (map Some [SYN SFP_SEQ_SYN0])
      = (fresh_endpoint SFP_CONNECT_STATE_SENT_SYN1, [SYN SFP_SEQ_SYN1], [])"
    by (simp add: on_input_def on_syn_def fresh_endpoint_def abs_endpoint_def)
  from frames_run [OF assms(2,3) _ this] obtain b1 where b1:
      "deliver_octets R' b (wire [SYN SFP_SEQ_SYN0]) = Inr b1" "sfp_inv R' b1"
      "abs_receiver b1 = idle" "abs_endpoint R' b1 = fresh_endpoint SFP_CONNECT_STATE_SENT_SYN1"
      "written b b1 = wire [SYN SFP_SEQ_SYN1]" "delivered b b1 = []" "callbacks b1 = callbacks b"
    using num by auto
  have "on_inputs (abs_endpoint R a1) (map Some [SYN SFP_SEQ_SYN1])
      = (fresh_endpoint SFP_CONNECT_STATE_CONNECTED, [SYN SFP_SEQ_SYN2], [])"
    using num by (simp add: on_input_def on_syn_def resend_all_def a1(4)) (simp add: fresh_endpoint_def)
  from frames_run [OF a1(2,3) _ this] obtain a2 where a2:
      "deliver_octets R a1 (wire [SYN SFP_SEQ_SYN1]) = Inr a2" "sfp_inv R a2" "abs_receiver a2 = idle"
      "abs_endpoint R a2 = fresh_endpoint SFP_CONNECT_STATE_CONNECTED"
      "written a1 a2 = wire [SYN SFP_SEQ_SYN2]" "delivered a1 a2 = []" "callbacks a2 = callbacks a"
    using num a1(6) by auto
  have "on_inputs (abs_endpoint R' b1) (map Some [SYN SFP_SEQ_SYN2])
      = (fresh_endpoint SFP_CONNECT_STATE_CONNECTED, [], [])"
    using num by (simp add: on_input_def on_syn_def resend_all_def b1(4)) (simp add: fresh_endpoint_def)
  from frames_run [OF b1(2,3) _ this] obtain b2 where b2:
      "deliver_octets R' b1 (wire [SYN SFP_SEQ_SYN2]) = Inr b2" "sfp_inv R' b2" "abs_receiver b2 = idle"
      "abs_endpoint R' b2 = fresh_endpoint SFP_CONNECT_STATE_CONNECTED" "written b1 b2 = []"
      "delivered b1 b2 = []" "callbacks b2 = callbacks b"
    using num b1(7) by auto
  show ?thesis
    using a1(1,5) b1(1,5,6) a2 b2
    by (intro exI [of _ a1] exI [of _ b1] exI [of _ a2] exI [of _ b2]) (simp del: wire_simps)
qed

text \<open>
  C4. Three frames connect two endpoints: from any two states (the peer may be disconnected,
  half open or believe in an old connection), if neither is in the middle of a frame and
  nothing is lost, a call of \<^verbatim>\<open>sfpConnect\<close> is followed by SYN0, SYN1 and SYN2; then both
  endpoints are connected, all four sequence numbers are 0 and both histories empty, so
  nothing of an earlier session is retransmitted, and no packet has been delivered.
\<close>

theorem handshake_connects:
  assumes "sfp_inv R a" and "sfp_inv R' b" and "abs_receiver b = idle"
  shows "\<exists>a1 b1 a2 b2. sfpConnect R a = Inr a1
    \<and> deliver_octets R' b (written a a1) = Inr b1
    \<and> deliver_octets R a1 (written b b1) = Inr a2
    \<and> deliver_octets R' b1 (written a1 a2) = Inr b2
    \<and> written a a1 = wire [SYN SFP_SEQ_SYN0] \<and> written b b1 = wire [SYN SFP_SEQ_SYN1]
    \<and> written a1 a2 = wire [SYN SFP_SEQ_SYN2] \<and> written b1 b2 = []
    \<and> sfpIsConnected a2 \<and> sfpIsConnected b2
    \<and> tx_seq (tx a2) = SFP_INITIAL_SEQ \<and> rx_seq (rx a2) = SFP_INITIAL_SEQ
    \<and> tx_seq (tx b2) = SFP_INITIAL_SEQ \<and> rx_seq (rx b2) = SFP_INITIAL_SEQ
    \<and> history_list R a2 = [] \<and> history_list R' b2 = []
    \<and> delivered a1 a2 = [] \<and> delivered b b1 = [] \<and> delivered b1 b2 = []"
proof -
  obtain a1 b1 a2 b2 where run: "sfpConnect R a = Inr a1" "deliver_octets R' b (written a a1) = Inr b1"
    "deliver_octets R a1 (written b b1) = Inr a2" "deliver_octets R' b1 (written a1 a2) = Inr b2"
    "written a a1 = wire [SYN SFP_SEQ_SYN0]" "written b b1 = wire [SYN SFP_SEQ_SYN1]"
    "written a1 a2 = wire [SYN SFP_SEQ_SYN2]" "written b1 b2 = []"
    "delivered a1 a2 = []" "delivered b b1 = []" "delivered b1 b2 = []"
    and e: "abs_endpoint R a2 = fresh_endpoint SFP_CONNECT_STATE_CONNECTED"
      "abs_endpoint R' b2 = fresh_endpoint SFP_CONNECT_STATE_CONNECTED"
    using handshake_run [OF assms] by blast
  from e have "sfpIsConnected a2" "sfpIsConnected b2" "tx_seq (tx a2) = SFP_INITIAL_SEQ"
    "rx_seq (rx a2) = SFP_INITIAL_SEQ" "tx_seq (tx b2) = SFP_INITIAL_SEQ" "rx_seq (rx b2) = SFP_INITIAL_SEQ"
    "history_list R a2 = []" "history_list R' b2 = []"
    by (simp_all add: abs_endpoint_def fresh_endpoint_def sfpIsConnected_def)
  with run show ?thesis by blast
qed

theorem handshake_connects_witness:
  "\<exists>a1 b1 a2 b2. sfpConnect list_ringbuffer example_context = Inr a1
    \<and> deliver_octets list_ringbuffer example_connected (written example_context a1) = Inr b1
    \<and> deliver_octets list_ringbuffer a1 (written example_connected b1) = Inr a2
    \<and> deliver_octets list_ringbuffer b1 (written a1 a2) = Inr b2
    \<and> sfpIsConnected a2 \<and> sfpIsConnected b2"
  using handshake_connects [OF example_inv connected_inv] by auto

section \<open>Recovery of lost frames\<close>

lemma fastforward_index:
  "seq_ok s \<Longrightarrow> i < n \<Longrightarrow> n < 64 \<Longrightarrow>
   unat (fastforward_of ((nextSeq ^^ i) s) ((nextSeq ^^ n) s) n) = i"
  by (intro fastforward_window) auto

lemma resend_window:
  assumes "seq_ok s" and "length (hist e) \<le> SFP_CONFIG_HISTORY_CAPACITY"
    and "txs e = (nextSeq ^^ length (hist e)) s" and "i < length (hist e)"
  shows "resend e ((nextSeq ^^ i) s)
    = (e\<lparr>hist := drop i (hist e)\<rparr>, rtx ((nextSeq ^^ i) s) (drop i (hist e)))"
proof -
  have "hist_from e ((nextSeq ^^ i) s) = drop i (hist e)"
    using assms by (simp add: hist_from_def fastforward_index sfp_consts)
  moreover have "(nextSeq ^^ (length (hist e) - i)) ((nextSeq ^^ i) s) = txs e"
    using assms(3,4) by (simp flip: funpow_add [THEN fun_cong, unfolded comp_def])
  ultimately show ?thesis by (simp add: resend_def)
qed

text \<open>
  C3. Lost frames are recovered while they are in the history: let the sender's history hold
  the last packets sent (of at most 254 octets), the oldest under the number \<open>s\<close>, and let the
  receiver, connected, expect the \<open>i\<close>-th of them, because this one and those after it were lost. When the last one arrives after all, the
  receiver refuses it and asks for the \<open>i\<close>-th; the sender retransmits from there, and the
  receiver delivers exactly the missing packets, in order, and is up to date.
\<close>

theorem lost_frames_recovered:
  assumes "sfp_inv R a" and "sfp_inv R' b" and "abs_receiver a = idle" and "abs_receiver b = idle"
    and "connectState a = SFP_CONNECT_STATE_CONNECTED" and "connectState b = SFP_CONNECT_STATE_CONNECTED"
    and "deliver (rx b) \<noteq> None" and "seq_ok s"
    and n: "tx_seq (tx a) = (nextSeq ^^ length (history_list R a)) s"
    and i: "Suc i < length (history_list R a)" and "rx_seq (rx b) = (nextSeq ^^ i) s"
    and fits: "\<forall>p \<in> set (history_list R a). len p \<le> SFP_CONFIG_MAX_PACKET_SIZE - SFP_CRC_SIZE"
  shows "\<exists>b1 a1 b2.
      deliver_octets R' b (wire [USR ((nextSeq ^^ (length (history_list R a) - 1)) s)
                                     (payload (last (history_list R a)))]) = Inr b1
    \<and> deliver_octets R a (written b b1) = Inr a1
    \<and> deliver_octets R' b1 (written a a1) = Inr b2
    \<and> delivered b b1 = [] \<and> written b b1 = wire [NAK ((nextSeq ^^ i) s)]
    \<and> delivered b1 b2 = map payload (drop i (history_list R a)) \<and> written b1 b2 = []
    \<and> rx_seq (rx b2) = tx_seq (tx a1) \<and> tx_seq (tx a1) = tx_seq (tx a)"
proof -
  let ?h = "history_list R a" and ?si = "(nextSeq ^^ i) s"
  let ?sl = "(nextSeq ^^ (length ?h - 1)) s" and ?last = "payload (last ?h)"
  let ?ea = "abs_endpoint R a" and ?eb = "abs_endpoint R' b"
  have h: "length ?h \<le> SFP_CONFIG_HISTORY_CAPACITY" "\<forall>p \<in> set ?h. packet_ok p"
    using assms(1) by (simp_all add: sfp_inv_def sfp_ok_def history_ok_def)
  have "?h \<noteq> []" using i by auto
  have payloads: "\<forall>bs \<in> set (drop i (map payload ?h)). length bs \<le> max_payload"
    using fits h(2) by (auto simp: drop_map length_payload max_payload_def dest: in_set_dropD)
  have last: "frame_ok (USR ?sl ?last)"
    using fits h(2) assms(8) \<open>?h \<noteq> []\<close> by (simp add: length_payload max_payload_def)
  have "?sl \<noteq> ?si"
    using i h(1) funpow_nextSeq_inject [OF assms(8), of "length ?h - 1" i] by (simp add: sfp_consts)
  then obtain b1 where b1: "deliver_octets R' b (wire [USR ?sl ?last]) = Inr b1" "sfp_inv R' b1"
      "abs_receiver b1 = idle" "abs_endpoint R' b1 = ?eb" "callbacks b1 = callbacks b"
      "written b b1 = wire [NAK ?si]" "delivered b b1 = []"
    using frames_run [OF assms(2,4), of "[USR ?sl ?last]"] last assms(6,11)
    by (auto simp: on_input_def on_user_def endpoint_simps)
  have "?si \<noteq> tx_seq (tx a)"
    using i h(1) funpow_nextSeq_inject [OF assms(8), of "length ?h" i] by (simp add: n sfp_consts)
  moreover have "resend ?ea ?si = (?ea\<lparr>hist := drop i (hist ?ea)\<rparr>, rtx ?si (drop i (hist ?ea)))"
    using i h(1) by (intro resend_window [OF assms(8)]) (simp_all add: endpoint_simps n)
  ultimately have nak: "on_inputs ?ea (map Some [NAK ?si])
      = (?ea\<lparr>hist := drop i (hist ?ea)\<rparr>, rtx ?si (drop i (hist ?ea)), [])"
    using assms(5) by (simp add: on_input_def on_nak_def endpoint_simps)
  obtain a1 where a1: "deliver_octets R a (wire [NAK ?si]) = Inr a1"
      "abs_endpoint R a1 = ?ea\<lparr>hist := drop i (hist ?ea)\<rparr>"
      "written a a1 = wire (rtx ?si (drop i (map payload ?h)))"
    using frames_run [OF assms(1,3) _ nak] assms(8) by (auto simp: endpoint_simps)
  have rx1: "on_inputs (abs_endpoint R' b1) (map Some (rtx ?si (drop i (map payload ?h))))
      = (?eb\<lparr>rxs := (nextSeq ^^ (length ?h - i)) ?si\<rparr>, [], drop i (map payload ?h))"
    using receives(2) [of ?eb "drop i (map payload ?h)"] assms(6,11) b1(4) by (simp add: endpoint_simps)
  obtain b2 where b2: "deliver_octets R' b1 (written a a1) = Inr b2" "written b1 b2 = []"
      "abs_endpoint R' b2 = ?eb\<lparr>rxs := (nextSeq ^^ (length ?h - i)) ?si\<rparr>"
      "delivered b1 b2 = drop i (map payload ?h)"
    using frames_run [OF b1(2,3) rtx_frames_ok rx1] payloads assms(7,8) b1(5)
    by (auto simp: a1(3) callbacks_def)
  have "(nextSeq ^^ (length ?h - i)) ?si = tx_seq (tx a)"
    using i by (simp add: n flip: funpow_add [THEN fun_cong, unfolded comp_def])
  then have "rx_seq (rx b2) = tx_seq (tx a1)" "tx_seq (tx a1) = tx_seq (tx a)"
    using arg_cong [OF b2(3), of rxs] arg_cong [OF a1(2), of txs] by (simp_all add: endpoint_simps)
  then show ?thesis
    using b1(1,6,7) a1(1) b2(1,2,4)
    by (intro exI [of _ b1] exI [of _ a1] exI [of _ b2]) (simp add: drop_map)
qed

text \<open>The connected context of the examples, with a history and sequence numbers.\<close>

definition example_session :: "u8 list list \<Rightarrow> u8 \<Rightarrow> u8 \<Rightarrow> SFPpacket list sfp" where
  "example_session bss t r =
     example_connected\<lparr>tx := (tx example_connected)\<lparr>tx_seq := t, history := map example_packet bss\<rparr>,
                       rx := (rx example_connected)\<lparr>rx_seq := r\<rparr>\<rparr>"

lemma session_simps [simp]:
  "abs_receiver (example_session bss t r) = idle"
  "connectState (example_session bss t r) = SFP_CONNECT_STATE_CONNECTED"
  "rx_seq (rx (example_session bss t r)) = r" "tx_seq (tx (example_session bss t r)) = t"
  "deliver (rx (example_session bss t r)) = Some 2"
  "history_list list_ringbuffer (example_session bss t r) = map example_packet bss"
proof -
  have "abs_receiver (example_session bss t r) = abs_receiver example_connected"
    by (rule abs_receiver_cong) (simp_all add: example_session_def)
  then show "abs_receiver (example_session bss t r) = idle" by simp
qed (simp_all add: example_session_def history_list_def)

lemma session_inv:
  assumes "\<forall>bs \<in> set bss. length bs \<le> SFP_CONFIG_MAX_PACKET_SIZE"
    and "length bss \<le> SFP_CONFIG_HISTORY_CAPACITY" and "seq_ok t" and "seq_ok r"
  shows "sfp_inv list_ringbuffer (example_session bss t r)"
proof -
  have "rx_consistent (example_session bss t r) = rx_consistent example_connected"
    unfolding rx_consistent_def by simp (simp add: example_session_def)
  moreover have "sfp_ok list_ringbuffer (example_session bss t r)"
    using connected_inv assms packet_ok_example
    by (simp add: sfp_inv_def sfp_ok_def history_ok_def) (simp add: example_session_def tx_ok_def)
  ultimately show ?thesis using connected_inv by (simp add: sfp_inv_def)
qed

theorem lost_frames_recovered_witness:
  "\<exists>b1 a1 b2.
      deliver_octets list_ringbuffer (example_session [] 0 63) (wire [USR 0 [3]]) = Inr b1
    \<and> deliver_octets list_ringbuffer (example_session [[1], [2], [3]] 1 0) (written (example_session [] 0 63) b1) = Inr a1
    \<and> deliver_octets list_ringbuffer b1 (written (example_session [[1], [2], [3]] 1 0) a1) = Inr b2
    \<and> delivered b1 b2 = [[2], [3]]"
proof -
  have seqs: "nextSeq 62 = 63" "nextSeq 63 = 0" "nextSeq 0 = 1" "seq_ok 62" "seq_ok 63" "seq_ok 0" "seq_ok 1"
    by (simp_all add: nextSeq_def seq_ok_unat sfp_consts)
  have "sfp_inv list_ringbuffer (example_session [[1], [2], [3]] 1 0)"
    "sfp_inv list_ringbuffer (example_session [] 0 63)"
    using seqs by (auto intro!: session_inv simp: sfp_consts)
  from lost_frames_recovered [OF this, of 62 1] show ?thesis
    by (auto simp: seqs numeral_2_eq_2 numeral_3_eq_3 sfp_consts example_packet_def [THEN arg_cong, of len])
qed

section \<open>Damage, and losing the place\<close>

text \<open>
  C17. A frame damaged between its flags is refused: take a frame with at most 254 octets of
  payload as it is on the wire, and replace one octet between its flags, which is neither a
  flag nor an escape, by another one that is neither. A receiver that is in the middle of no
  other frame delivers nothing for it, changes nothing of its connection, its numbers or its
  history, and answers with the request for the packet it expects. (A damaged flag or
  escape changes where frames and octets begin, and is not covered.)
\<close>

theorem damaged_frame_refused:
  assumes "sfp_inv R c" and "abs_receiver c = idle" and "length bs \<le> SFP_CONFIG_MAX_PACKET_SIZE - SFP_CRC_SIZE"
    and "frame_octets hdr bs = SFP_FLAG # (xs @ x # ys) @ [SFP_FLAG]"
    and "\<not> isReservedOctet x" and "\<not> isReservedOctet y" and "y \<noteq> x"
  shows "\<exists>c'. deliver_octets R c (SFP_FLAG # (xs @ y # ys) @ [SFP_FLAG]) = Inr c'
    \<and> abs_endpoint R c' = abs_endpoint R c \<and> delivered c c' = []
    \<and> written c c' = wire [NAK (rx_seq (rx c))] \<and> abs_receiver c' = idle"
proof -
  have "escape (frame_body hdr bs) = xs @ x # ys"
    using assms(4) by (simp add: frame_octets_def)
  from deframe_damaged [OF this assms(5,6)] assms(3,7)
  have d: "deframe (abs_receiver c) (SFP_FLAG # (xs @ y # ys) @ [SFP_FLAG]) = (idle, [None])"
    by (simp add: assms(2) max_payload_def)
  show ?thesis
    using input_runs [OF assms(1) d] by (auto simp: on_input_def endpoint_simps)
qed

theorem damaged_frame_refused_witness:
  "\<exists>c'. deliver_octets list_ringbuffer example_connected
       (SFP_FLAG # ([] @ 1 # escape (0x61 # fcs_octets (crc_octets [0, 0x61]))) @ [SFP_FLAG]) = Inr c'
     \<and> delivered example_connected c' = [] \<and> written example_connected c' = wire [NAK 0]"
proof -
  have "frame_octets 0 [0x61] = SFP_FLAG # ([] @ 0 # escape (0x61 # fcs_octets (crc_octets [0, 0x61]))) @ [SFP_FLAG]"
    by (simp add: frame_octets_def frame_body_def escape_Cons escape_octet_def sfp_consts)
  from damaged_frame_refused [OF connected_inv _ _ this, of 1] show ?thesis
    by (auto simp: isReservedOctet_def sfp_consts)
qed

text \<open>
  C16. The receiver finds the next frame: whatever octets it was given before, a frame of the
  transmitter with at most 254 octets of payload is taken as it was sent. Its opening flag ends whatever the receiver was in
  the middle of (state \<open>c2\<close>); from there, the reaction is the reaction to that frame.
\<close>

theorem receiver_resynchronises:
  assumes "sfp_inv R c" and "seq_ok s" and "length bs \<le> SFP_CONFIG_MAX_PACKET_SIZE - SFP_CRC_SIZE"
  shows "\<exists>c1 c2 c3. deliver_octets R c garbage = Inr c1 \<and> deliver_octet R c1 SFP_FLAG = Inr c2
    \<and> deliver_octets R c (garbage @ wire [(t, s, bs)]) = Inr c3
    \<and> (case on_frame (abs_endpoint R c2) (t, s, bs) of (e, fs, ds) \<Rightarrow>
         abs_endpoint R c3 = e \<and> written c2 c3 = wire fs
         \<and> delivered c2 c3 = (if deliver (rx c) = None then [] else ds))
    \<and> abs_receiver c3 = idle"
proof -
  let ?body = "escape (frame_body (makeHeader t s) bs) @ [SFP_FLAG]"
  obtain c1 where c1: "deliver_octets R c garbage = Inr c1" "sfp_inv R c1" "callbacks c1 = callbacks c"
    using input_total [OF assms(1)] by blast
  obtain c2 where c2: "deliver_octets R c1 [SFP_FLAG] = Inr c2" "sfp_inv R c2" "callbacks c2 = callbacks c1"
      "abs_receiver c2 = idle"
    using input_total [OF c1(2), of "[SFP_FLAG]"] by auto
  have d: "deframe (abs_receiver c2) ?body = (idle, [Some (t, s, bs)])"
    using deframe_frame [of bs idle "makeHeader t s"] assms(2,3)
    by (simp add: c2(4) frame_octets_def max_payload_def split: prod.splits)
  obtain e fs ds where r: "on_frame (abs_endpoint R c2) (t, s, bs) = (e, fs, ds)" by (metis prod_cases3)
  obtain c3 where c3: "deliver_octets R c2 ?body = Inr c3" "abs_endpoint R c3 = e" "abs_receiver c3 = idle"
      "written c2 c3 = wire fs" "delivered c2 c3 = (if deliver (rx c2) = None then [] else ds)"
    using input_runs [OF c2(2) d] r by (auto simp: on_input_def)
  have "garbage @ wire [(t, s, bs)] = garbage @ [SFP_FLAG] @ ?body"
    by (simp add: frame_octets_def)
  then have "deliver_octets R c (garbage @ wire [(t, s, bs)]) = Inr c3"
    using c1(1) c2(1) c3(1) by (simp only: deliver_octets_def foldR_append bindR_Inr)
  moreover have "deliver_octet R c1 SFP_FLAG = Inr c2"
    using c2(1) by (auto simp: deliver_octets_def bindR_eq_Inr)
  moreover have "deliver (rx c2) = deliver (rx c)"
    using c1(3) c2(3) by (simp add: callbacks_def)
  ultimately show ?thesis using c1(1) c3(2-5) r by auto
qed

theorem receiver_resynchronises_witness:
  "\<exists>c3. deliver_octets list_ringbuffer example_context
      ([0x42, SFP_ESC, 0xff] @ wire [(SFP_FRAME_SYN, SFP_SEQ_SYN0, [])]) = Inr c3
    \<and> connectState c3 = SFP_CONNECT_STATE_SENT_SYN1"
  using receiver_resynchronises [OF example_inv, of SFP_SEQ_SYN0 "[]" "[0x42, SFP_ESC, 0xff]" SFP_FRAME_SYN]
  by (auto simp: on_syn_def seq_ok_def sfp_consts abs_endpoint_def)

text \<open>
  C27. A packet of 255 or 256 octets is accepted by \<^verbatim>\<open>sfpWritePacket\<close> but never delivered:
  the receiver buffers the check sequence behind the payload, in an array of 256 octets,
  and drops the frame when that overflows. One of 255 octets vanishes without a trace, one
  of 256 octets is answered by a request for retransmission, which fails the same way.
\<close>

theorem long_packet_never_delivered:
  assumes "sfp_inv R a" and "sfp_inv R' b" and "abs_receiver b = idle"
    and "length stack = SFP_CONFIG_MAX_PACKET_SIZE"
    and "SFP_CONFIG_MAX_PACKET_SIZE - SFP_CRC_SIZE < length bs" and "length bs \<le> SFP_CONFIG_MAX_PACKET_SIZE"
  shows "\<exists>a' n b'. sfpWritePacket R a stack bs = Inr (a', n)
    \<and> deliver_octets R' b (written a a') = Inr b'
    \<and> delivered b b' = [] \<and> abs_endpoint R' b' = abs_endpoint R' b
    \<and> written b b' = wire (if length bs = SFP_CONFIG_MAX_PACKET_SIZE then [NAK (rx_seq (rx b))] else [])"
proof -
  obtain a' n where a': "sfpWritePacket R a stack bs = Inr (a', n)"
      "written a a' = frame_octets (makeHeader SFP_FRAME_USR (tx_seq (tx a))) bs"
    using write_inv [OF assms(1,4,6)] reacts_seen(1) by (fastforce simp: on_send_def endpoint_simps)
  have "deframe (abs_receiver b) (written a a')
      = (idle, if length bs = SFP_CONFIG_MAX_PACKET_SIZE then [None] else [])"
    using deframe_too_long [of bs] assms(5,6) by (simp add: a'(2) assms(3) max_payload_def)
  moreover have "on_inputs (abs_endpoint R' b) (if length bs = SFP_CONFIG_MAX_PACKET_SIZE then [None] else [])
      = (abs_endpoint R' b, if length bs = SFP_CONFIG_MAX_PACKET_SIZE then [NAK (rx_seq (rx b))] else [], [])"
    by (simp add: on_input_def endpoint_simps)
  ultimately obtain b' where "deliver_octets R' b (written a a') = Inr b'"
      "abs_endpoint R' b' = abs_endpoint R' b" "delivered b b' = []"
      "written b b' = wire (if length bs = SFP_CONFIG_MAX_PACKET_SIZE then [NAK (rx_seq (rx b))] else [])"
    using input_runs [OF assms(2)] by (metis (no_types, lifting))
  with a'(1) show ?thesis by blast
qed

theorem long_packet_never_delivered_witness:
  "\<exists>a' n b'. sfpWritePacket list_ringbuffer example_connected
        (replicate SFP_CONFIG_MAX_PACKET_SIZE 0) (replicate 256 0x55) = Inr (a', n)
    \<and> deliver_octets list_ringbuffer example_connected (written example_connected a') = Inr b'
    \<and> delivered example_connected b' = [] \<and> written example_connected b' = wire [NAK 0]"
proof -
  have *: "SFP_CONFIG_MAX_PACKET_SIZE - SFP_CRC_SIZE < length (replicate 256 (0x55 :: u8))"
    "length (replicate 256 (0x55 :: u8)) \<le> SFP_CONFIG_MAX_PACKET_SIZE"
    "length (replicate 256 (0x55 :: u8)) = SFP_CONFIG_MAX_PACKET_SIZE"
    by (simp_all only: length_replicate sfp_consts)
  have "SFP_INITIAL_SEQ = 0" by (simp add: sfp_consts)
  with long_packet_never_delivered [OF connected_inv connected_inv _ _ *(1,2),
      of "replicate SFP_CONFIG_MAX_PACKET_SIZE 0"] *(3) show ?thesis
    by auto
qed

end
