(* ===== verification/Sfp_Connection.thy ===== *)
theory Sfp_Connection
  imports Sfp_Session "HOL-Library.Sublist"
begin

text \<open>
  The connection as a state machine. The states of an endpoint and the frames that change
  them are a relation, as the code has it, which is compared with the transition table of
  \<^verbatim>\<open>doc/handshake.txt\<close>; every stream of octets moves a context along it. What follows from
  it: there is no connection without a handshake, no delivery without a connection, and the
  packets delivered are consecutively numbered frames of the input.
\<close>

section \<open>The transitions\<close>

inductive conn_step :: "SFPconnectstate \<Rightarrow> frame \<Rightarrow> SFPconnectstate \<Rightarrow> bool" where
  syn0: "conn_step s (SFP_FRAME_SYN, SFP_SEQ_SYN0, bs) SFP_CONNECT_STATE_SENT_SYN1"
| syn1: "s \<noteq> SFP_CONNECT_STATE_DISCONNECTED \<Longrightarrow>
         conn_step s (SFP_FRAME_SYN, SFP_SEQ_SYN1, bs) SFP_CONNECT_STATE_CONNECTED"
| syn1_ignored: "conn_step SFP_CONNECT_STATE_DISCONNECTED (SFP_FRAME_SYN, SFP_SEQ_SYN1, bs)
         SFP_CONNECT_STATE_DISCONNECTED"
| syn2: "s \<in> {SFP_CONNECT_STATE_SENT_SYN1, SFP_CONNECT_STATE_CONNECTED} \<Longrightarrow>
         conn_step s (SFP_FRAME_SYN, SFP_SEQ_SYN2, bs) SFP_CONNECT_STATE_CONNECTED"
| syn2_ignored: "s \<in> {SFP_CONNECT_STATE_DISCONNECTED, SFP_CONNECT_STATE_SENT_SYN0} \<Longrightarrow>
         conn_step s (SFP_FRAME_SYN, SFP_SEQ_SYN2, bs) s"
| dis: "conn_step s (SFP_FRAME_SYN, SFP_SEQ_SYN_DIS, bs) SFP_CONNECT_STATE_DISCONNECTED"
| syn_unknown: "seq \<notin> {SFP_SEQ_SYN0, SFP_SEQ_SYN1, SFP_SEQ_SYN2, SFP_SEQ_SYN_DIS} \<Longrightarrow>
         conn_step s (SFP_FRAME_SYN, seq, bs) s"
| other: "t \<noteq> SFP_FRAME_SYN \<Longrightarrow> conn_step s (t, seq, bs) s"

inductive_cases conn_step_from_disconnected: "conn_step SFP_CONNECT_STATE_DISCONNECTED f s"
inductive_cases conn_step_to_connected: "conn_step s f SFP_CONNECT_STATE_CONNECTED"

inductive conn_run :: "SFPconnectstate \<Rightarrow> frame list \<Rightarrow> SFPconnectstate \<Rightarrow> bool" where
  conn_stop: "conn_run s [] s"
| conn_move: "conn_step s f s' \<Longrightarrow> conn_run s' fs s'' \<Longrightarrow> conn_run s (f # fs) s''"

inductive_cases conn_run_Cons: "conn_run s (f # fs) s'"

definition opens :: "frame \<Rightarrow> bool" where
  "opens f \<longleftrightarrow> (\<exists>bs. f = (SFP_FRAME_SYN, SFP_SEQ_SYN0, bs))"

definition completes :: "frame \<Rightarrow> bool" where
  "completes f \<longleftrightarrow> (\<exists>bs. f = (SFP_FRAME_SYN, SFP_SEQ_SYN1, bs) \<or> f = (SFP_FRAME_SYN, SFP_SEQ_SYN2, bs))"

definition disconnects :: "frame \<Rightarrow> bool" where
  "disconnects f \<longleftrightarrow> (\<exists>bs. f = (SFP_FRAME_SYN, SFP_SEQ_SYN_DIS, bs))"

text \<open>The columns of the table in \<^verbatim>\<open>doc/handshake.txt\<close> for what is received; it has none for DIS.\<close>

definition handshake_table :: "SFPconnectstate \<Rightarrow> frame \<Rightarrow> SFPconnectstate" where
  "handshake_table s f =
     (case f of (type, seq, bs) \<Rightarrow>
        if type = SFP_FRAME_SYN \<and> seq = SFP_SEQ_SYN0 then
          (case s of
             SFP_CONNECT_STATE_DISCONNECTED \<Rightarrow> SFP_CONNECT_STATE_SENT_SYN1
           | SFP_CONNECT_STATE_SENT_SYN0 \<Rightarrow> SFP_CONNECT_STATE_SENT_SYN0
           | SFP_CONNECT_STATE_SENT_SYN1 \<Rightarrow> SFP_CONNECT_STATE_SENT_SYN1
           | SFP_CONNECT_STATE_CONNECTED \<Rightarrow> SFP_CONNECT_STATE_SENT_SYN1)
        else if type = SFP_FRAME_SYN \<and> seq = SFP_SEQ_SYN1 then
          (case s of
             SFP_CONNECT_STATE_DISCONNECTED \<Rightarrow> SFP_CONNECT_STATE_DISCONNECTED
           | _ \<Rightarrow> SFP_CONNECT_STATE_CONNECTED)
        else if type = SFP_FRAME_SYN \<and> seq = SFP_SEQ_SYN2 then
          (case s of
             SFP_CONNECT_STATE_DISCONNECTED \<Rightarrow> SFP_CONNECT_STATE_DISCONNECTED
           | SFP_CONNECT_STATE_SENT_SYN0 \<Rightarrow> SFP_CONNECT_STATE_SENT_SYN0
           | _ \<Rightarrow> SFP_CONNECT_STATE_CONNECTED)
        else s)"

text \<open>The code has the entries of the table, but for one.\<close>

lemma conn_step_table:
  "conn_step s f s' \<longleftrightarrow> s' = (if disconnects f then SFP_CONNECT_STATE_DISCONNECTED
     else if s = SFP_CONNECT_STATE_SENT_SYN0 \<and> opens f then SFP_CONNECT_STATE_SENT_SYN1
     else handshake_table s f)"
proof -
  obtain t seq bs where f: "f = (t, seq, bs)" by (cases f)
  have num: "SFP_SEQ_SYN1 \<noteq> SFP_SEQ_SYN0" "SFP_SEQ_SYN2 \<noteq> SFP_SEQ_SYN0" "SFP_SEQ_SYN2 \<noteq> SFP_SEQ_SYN1"
    "SFP_SEQ_SYN_DIS \<noteq> SFP_SEQ_SYN0" "SFP_SEQ_SYN_DIS \<noteq> SFP_SEQ_SYN1" "SFP_SEQ_SYN_DIS \<noteq> SFP_SEQ_SYN2"
    by (simp_all add: sfp_consts)
  show ?thesis
    using num by (cases s) (auto simp: f conn_step.simps disconnects_def opens_def handshake_table_def)
qed

lemma on_syn_conn:
  "conn_step (conn e) (SFP_FRAME_SYN, seq, bs) (conn (fst (on_syn e seq)))"
proof -
  have num: "SFP_SEQ_SYN1 \<noteq> SFP_SEQ_SYN0" "SFP_SEQ_SYN2 \<noteq> SFP_SEQ_SYN0" "SFP_SEQ_SYN2 \<noteq> SFP_SEQ_SYN1"
    "SFP_SEQ_SYN_DIS \<noteq> SFP_SEQ_SYN0" "SFP_SEQ_SYN_DIS \<noteq> SFP_SEQ_SYN1" "SFP_SEQ_SYN_DIS \<noteq> SFP_SEQ_SYN2"
    by (simp_all add: sfp_consts)
  consider "seq = SFP_SEQ_SYN0" | "seq = SFP_SEQ_SYN1" | "seq = SFP_SEQ_SYN2" | "seq = SFP_SEQ_SYN_DIS"
    | "seq \<notin> {SFP_SEQ_SYN0, SFP_SEQ_SYN1, SFP_SEQ_SYN2, SFP_SEQ_SYN_DIS}" by blast
  then show ?thesis
  proof cases
    case 1
    then show ?thesis by (simp add: on_syn_def conn_step.syn0)
  next
    case 2
    then show ?thesis
      by (cases "conn e = SFP_CONNECT_STATE_DISCONNECTED")
        (auto simp: on_syn_def num intro: conn_step.intros split: prod.splits)
  next
    case 3
    then show ?thesis
      by (cases "conn e") (auto simp: on_syn_def num intro: conn_step.intros split: prod.splits)
  next
    case 4
    then show ?thesis by (simp add: on_syn_def num conn_step.dis)
  next
    case 5
    then show ?thesis by (simp add: on_syn_def conn_step.syn_unknown)
  qed
qed

lemma on_frame_conn: "conn_step (conn e) f (conn (fst (on_frame e f)))"
proof -
  obtain t s bs where f: "f = (t, s, bs)" by (cases f)
  show ?thesis
  proof (cases t)
    case SFP_FRAME_SYN
    then show ?thesis using on_syn_conn [of e s bs] by (cases "on_syn e s") (simp add: f)
  next
    case SFP_FRAME_NAK
    then have "conn (fst (on_frame e f)) = conn e"
      by (simp add: f on_nak_def resend_def split: prod.splits if_splits)
    with SFP_FRAME_NAK show ?thesis by (simp add: f conn_step.other)
  next
    case SFP_FRAME_USR
    then show ?thesis by (simp add: f on_user_def conn_step.other)
  next
    case SFP_FRAME_RTX
    then show ?thesis by (simp add: f on_user_def conn_step.other)
  qed
qed

section \<open>Streams of octets\<close>

text \<open>The frames in a stream, for a receiver in a given state.\<close>

primrec frames_of :: "frame option list \<Rightarrow> frame list" where
  "frames_of [] = []"
| "frames_of (i # is) = (case i of None \<Rightarrow> frames_of is | Some f \<Rightarrow> f # frames_of is)"

definition frames_in :: "receiver \<Rightarrow> u8 list \<Rightarrow> frame list" where
  "frames_in r xs = frames_of (snd (deframe r xs))"

lemma on_inputs_Cons:
  assumes "on_inputs e (i # is) = (e', fs, ds)"
  obtains e1 fs1 ds1 fs2 ds2 where "on_input e i = (e1, fs1, ds1)" "on_inputs e1 is = (e', fs2, ds2)"
    "fs = fs1 @ fs2" "ds = ds1 @ ds2"
  using assms by (auto split: prod.splits)

lemma on_inputs_conn:
  "on_inputs e is = (e', fs, ds) \<Longrightarrow> conn_run (conn e) (frames_of is) (conn e')"
proof (induction "is" arbitrary: e e' fs ds)
  case (Cons i "is")
  from Cons.prems obtain e1 fs1 ds1 fs2 ds2 where r: "on_input e i = (e1, fs1, ds1)"
    "on_inputs e1 is = (e', fs2, ds2)" by (rule on_inputs_Cons)
  show ?case
  proof (cases i)
    case None
    with r Cons.IH [OF r(2)] show ?thesis by (simp add: on_input_def)
  next
    case (Some f)
    then have "conn_step (conn e) f (conn e1)"
      using on_frame_conn [of e f] r(1) by (simp add: on_input_def)
    with Some Cons.IH [OF r(2)] show ?thesis by (simp add: conn_run.conn_move)
  qed
qed (simp add: conn_run.conn_stop)

lemma deliver_octets_inputs:
  assumes "sfp_inv R c" and "deliver_octets R c xs = Inr c'"
  shows "\<exists>fs ds. on_inputs (abs_endpoint R c) (snd (deframe (abs_receiver c) xs)) = (abs_endpoint R c', fs, ds)
    \<and> delivered c c' = (if deliver (rx c) = None then [] else ds)"
proof -
  obtain r "is" where d: "deframe (abs_receiver c) xs = (r, is)" by fastforce
  obtain e fs ds where "on_inputs (abs_endpoint R c) is = (e, fs, ds)" by (metis prod_cases3)
  from input_runs [OF assms(1) d this] show ?thesis using assms(2) by (auto simp: d \<open>on_inputs _ _ = _\<close>)
qed

text \<open>
  C21. The connection as the code has it: whatever octets arrive, the connection state moves
  along \<open>conn_step\<close> for exactly the frames among them. Each such step is the entry of the
  table in \<^verbatim>\<open>doc/handshake.txt\<close>, but for one: a SYN0 in the state SENT_SYN0 leads to
  SENT_SYN1, where the table stays. DIS, for which the table has no column, disconnects.
\<close>

theorem connection_transitions:
  assumes "sfp_inv R c" and "deliver_octets R c xs = Inr c'"
  shows "conn_run (connectState c) (frames_in (abs_receiver c) xs) (connectState c')
    \<and> (\<forall>s f s'. conn_step s f s' \<longleftrightarrow> s' = (if disconnects f then SFP_CONNECT_STATE_DISCONNECTED
          else if s = SFP_CONNECT_STATE_SENT_SYN0 \<and> opens f then SFP_CONNECT_STATE_SENT_SYN1
          else handshake_table s f))"
  using deliver_octets_inputs [OF assms] on_inputs_conn conn_step_table by (fastforce simp: frames_in_def endpoint_simps)

theorem connection_transitions_witness:
  "\<exists>c'. deliver_octets list_ringbuffer example_context (wire [SYN SFP_SEQ_SYN0, SYN SFP_SEQ_SYN2]) = Inr c'
     \<and> conn_run SFP_CONNECT_STATE_DISCONNECTED [SYN SFP_SEQ_SYN0, SYN SFP_SEQ_SYN2] (connectState c')"
proof -
  let ?xs = "wire [SYN SFP_SEQ_SYN0, SYN SFP_SEQ_SYN2]"
  have "seq_ok SFP_SEQ_SYN0" "seq_ok SFP_SEQ_SYN2" by (simp_all add: seq_ok_def sfp_consts)
  then have fs: "frames_in idle ?xs = [SYN SFP_SEQ_SYN0, SYN SFP_SEQ_SYN2]"
    using deframe_wire [of "[SYN SFP_SEQ_SYN0, SYN SFP_SEQ_SYN2]"] by (simp add: frames_in_def)
  obtain c' where run: "deliver_octets list_ringbuffer example_context ?xs = Inr c'"
    using input_total [OF example_inv] by blast
  from connection_transitions [OF example_inv run] fs
  have "conn_run SFP_CONNECT_STATE_DISCONNECTED [SYN SFP_SEQ_SYN0, SYN SFP_SEQ_SYN2] (connectState c')"
    by (simp only: example_simps)
  with run show ?thesis by blast
qed

section \<open>No connection without a handshake, no delivery without a connection\<close>

lemma conn_run_completes:
  "conn_run s fs s' \<Longrightarrow> s \<noteq> SFP_CONNECT_STATE_CONNECTED \<Longrightarrow> s' = SFP_CONNECT_STATE_CONNECTED \<Longrightarrow>
   \<exists>f \<in> set fs. completes f"
proof (induction rule: conn_run.induct)
  case (conn_move s f s' fs s'')
  show ?case
  proof (cases "s' = SFP_CONNECT_STATE_CONNECTED")
    case True
    with conn_move.hyps(1) conn_move.prems(1) have "completes f"
      by (auto elim!: conn_step_to_connected simp: completes_def)
    then show ?thesis by simp
  next
    case False
    with conn_move show ?thesis by auto
  qed
qed simp

lemma conn_run_opens:
  "conn_run s fs s' \<Longrightarrow> s = SFP_CONNECT_STATE_DISCONNECTED \<Longrightarrow> s' = SFP_CONNECT_STATE_CONNECTED \<Longrightarrow>
   \<exists>us f vs. fs = us @ f # vs \<and> opens f \<and> (\<exists>g \<in> set vs. completes g)"
proof (induction rule: conn_run.induct)
  case (conn_move s f s' fs s'')
  show ?case
  proof (cases "s' = SFP_CONNECT_STATE_DISCONNECTED")
    case True
    from conn_move.IH [OF this conn_move.prems(2)] obtain us g vs where
      "fs = us @ g # vs" "opens g" "\<exists>h \<in> set vs. completes h" by blast
    then show ?thesis by (intro exI [of _ "f # us"] exI [of _ g] exI [of _ vs]) simp
  next
    case False
    with conn_move.hyps(1) conn_move.prems(1)
    have "opens f" "s' = SFP_CONNECT_STATE_SENT_SYN1"
      by (auto elim!: conn_step_from_disconnected simp: opens_def)
    with conn_run_completes [OF conn_move.hyps(2)] conn_move.prems(2) show ?thesis
      by (intro exI [of _ "[]"]) auto
  qed
qed simp

text \<open>A delivery splits the inputs at a moment when the endpoint was connected.\<close>

lemma delivery_connected:
  "on_inputs e is = (e', fs, ds) \<Longrightarrow> ds \<noteq> [] \<Longrightarrow>
   \<exists>js ks e1 gs es. is = js @ ks \<and> on_inputs e js = (e1, gs, es) \<and> conn e1 = SFP_CONNECT_STATE_CONNECTED"
proof (induction "is" arbitrary: e e' fs ds)
  case (Cons i "is")
  from Cons.prems(1) obtain e1 fs1 ds1 fs2 ds2 where r: "on_input e i = (e1, fs1, ds1)"
    "on_inputs e1 is = (e', fs2, ds2)" "ds = ds1 @ ds2" by (rule on_inputs_Cons)
  show ?case
  proof (cases "conn e = SFP_CONNECT_STATE_CONNECTED")
    case True
    then show ?thesis
      by (intro exI [of _ "[]"] exI [of _ "i # is"] exI [of _ e] exI [of _ "[]"]) simp
  next
    case False
    then have "ds1 = []"
      using r(1) by (auto simp: on_input_def on_user_def split: option.splits prod.splits
          elim!: on_frame.elims)
    with Cons.IH [OF r(2)] r(3) Cons.prems(2) obtain js ks e2 gs es where
      "is = js @ ks" "on_inputs e1 js = (e2, gs, es)" "conn e2 = SFP_CONNECT_STATE_CONNECTED" by auto
    then show ?thesis by (intro exI [of _ "i # js"] exI [of _ ks] exI [of _ e2]) (simp add: r(1))
  qed
qed simp

lemma frames_of_append [simp]: "frames_of (is @ js) = frames_of is @ frames_of js"
  by (induction "is") (auto split: option.split)

text \<open>
  C22. No connection and no delivery without a handshake: a disconnected endpoint that is
  connected after some octets, or has delivered a packet, has received a SYN0 and, later, a
  SYN1 or a SYN2 among them.
\<close>

theorem no_connection_without_handshake:
  assumes "sfp_inv R c" and "deliver_octets R c xs = Inr c'"
    and "connectState c = SFP_CONNECT_STATE_DISCONNECTED"
    and "sfpIsConnected c' \<or> delivered c c' \<noteq> []"
  shows "\<exists>us f vs. frames_in (abs_receiver c) xs = us @ f # vs \<and> opens f \<and> (\<exists>g \<in> set vs. completes g)"
proof -
  let ?e = "abs_endpoint R c" and ?is = "snd (deframe (abs_receiver c) xs)"
  obtain fs ds where r: "on_inputs ?e ?is = (abs_endpoint R c', fs, ds)" 
    "delivered c c' = (if deliver (rx c) = None then [] else ds)"
    using deliver_octets_inputs [OF assms(1,2)] by blast
  have "\<exists>js ks e1 gs es. ?is = js @ ks \<and> on_inputs ?e js = (e1, gs, es) \<and> conn e1 = SFP_CONNECT_STATE_CONNECTED"
    using assms(4)
  proof
    assume "sfpIsConnected c'"
    with r(1) show ?thesis
      by (intro exI [of _ ?is] exI [of _ "[]"]) (auto simp: sfpIsConnected_def endpoint_simps)
  next
    assume "delivered c c' \<noteq> []"
    with r(2) have "ds \<noteq> []" by (auto split: if_splits)
    with delivery_connected [OF r(1)] show ?thesis by blast
  qed
  then obtain js ks e1 gs es where j: "?is = js @ ks" "on_inputs ?e js = (e1, gs, es)"
    "conn e1 = SFP_CONNECT_STATE_CONNECTED" by blast
  have "conn ?e = SFP_CONNECT_STATE_DISCONNECTED" using assms(3) by (simp add: endpoint_simps)
  from conn_run_opens [OF on_inputs_conn [OF j(2)] this j(3)] obtain us f vs where
    "frames_of js = us @ f # vs" "opens f" "\<exists>g \<in> set vs. completes g"
    by blast
  then show ?thesis
    by (intro exI [of _ us] exI [of _ f] exI [of _ "vs @ frames_of ks"]) (auto simp: frames_in_def j(1))
qed

lemma frames_in_wire: "\<forall>f \<in> set fs. frame_ok f \<Longrightarrow> frames_in idle (wire fs) = fs"
proof -
  have "frames_of (map Some fs) = fs" by (induction fs) simp_all
  then show "\<forall>f \<in> set fs. frame_ok f \<Longrightarrow> frames_in idle (wire fs) = fs"
    by (simp add: frames_in_def deframe_wire)
qed

theorem no_connection_without_handshake_witness:
  "\<exists>c'. deliver_octets list_ringbuffer example_context (wire [SYN SFP_SEQ_SYN0, SYN SFP_SEQ_SYN1]) = Inr c'
     \<and> sfpIsConnected c'
     \<and> (\<exists>us f vs. frames_in (abs_receiver example_context) (wire [SYN SFP_SEQ_SYN0, SYN SFP_SEQ_SYN1])
           = us @ f # vs \<and> opens f \<and> (\<exists>g \<in> set vs. completes g))"
proof -
  let ?fs = "[SYN SFP_SEQ_SYN0, SYN SFP_SEQ_SYN1]"
  have ok: "\<forall>f \<in> set ?fs. frame_ok f" and num: "SFP_SEQ_SYN1 \<noteq> SFP_SEQ_SYN0"
    by (simp_all add: seq_ok_def sfp_consts)
  obtain e gs where r: "on_inputs (abs_endpoint list_ringbuffer example_context) (map Some ?fs) = (e, gs, [])"
    and conn: "conn e = SFP_CONNECT_STATE_CONNECTED"
    using num by (simp add: on_input_def on_syn_def resend_all_def)
  from frames_run [OF example_inv _ ok r] obtain c' where c':
    "deliver_octets list_ringbuffer example_context (wire ?fs) = Inr c'" "abs_endpoint list_ringbuffer c' = e"
    by auto
  have "sfpIsConnected c'" using conn c'(2) by (auto simp: sfpIsConnected_def abs_endpoint_def)
  with no_connection_without_handshake [OF example_inv c'(1)] c'(1) show ?thesis by simp
qed

section \<open>Numbering\<close>

text \<open>The numbers and payloads of consecutively numbered packets.\<close>

primrec numbered :: "u8 \<Rightarrow> u8 list list \<Rightarrow> (u8 \<times> u8 list) list" where
  "numbered s [] = []"
| "numbered s (bs # bss) = (s, bs) # numbered (nextSeq s) bss"

lemma on_frame_rxs:
  assumes "on_frame e f = (e', fs, ds)" and "\<not> opens f"
  shows "(ds = [] \<and> rxs e' = rxs e)
    \<or> (\<exists>bs. ds = [bs] \<and> snd f = (rxs e, bs) \<and> fst f \<in> {SFP_FRAME_USR, SFP_FRAME_RTX} \<and> rxs e' = nextSeq (rxs e))"
proof -
  obtain t s bs where f: "f = (t, s, bs)" by (cases f)
  have "rxs (fst (on_syn e s)) = rxs e" if "s \<noteq> SFP_SEQ_SYN0"
    using that by (simp add: on_syn_def resend_all_def resend_def split: prod.splits if_splits)
  moreover have "rxs (fst (on_nak e s)) = rxs e"
    by (simp add: on_nak_def resend_def)
  ultimately show ?thesis
    using assms by (cases t) (auto simp: f on_user_def opens_def split: prod.splits if_splits)
qed

lemma deliveries_subseq:
  "on_inputs e is = (e', fs, ds) \<Longrightarrow> \<forall>f \<in> set (frames_of is). \<not> opens f \<Longrightarrow>
   rxs e' = (nextSeq ^^ length ds) (rxs e)
   \<and> subseq (numbered (rxs e) ds)
       (map snd (filter (\<lambda>f. fst f \<in> {SFP_FRAME_USR, SFP_FRAME_RTX}) (frames_of is)))"
proof (induction "is" arbitrary: e e' fs ds)
  case (Cons i "is")
  from Cons.prems(1) obtain e1 fs1 ds1 fs2 ds2 where r: "on_input e i = (e1, fs1, ds1)"
    "on_inputs e1 is = (e', fs2, ds2)" "ds = ds1 @ ds2" by (rule on_inputs_Cons)
  show ?case
  proof (cases i)
    case None
    with r Cons.IH [OF r(2)] Cons.prems(2) show ?thesis by (simp add: on_input_def)
  next
    case (Some f)
    with Cons.prems(2) r(1) have f: "on_frame e f = (e1, fs1, ds1)" "\<not> opens f" by (simp_all add: on_input_def)
    from Cons.IH [OF r(2)] Cons.prems(2) Some have IH: "rxs e' = (nextSeq ^^ length ds2) (rxs e1)"
      "subseq (numbered (rxs e1) ds2) (map snd (filter (\<lambda>f. fst f \<in> {SFP_FRAME_USR, SFP_FRAME_RTX}) (frames_of is)))"
      by simp_all
    from on_frame_rxs [OF f] IH show ?thesis
      by (auto simp: Some r(3) funpow_Suc_right simp del: funpow.simps)
  qed
qed simp

text \<open>
  C15. Deliveries are in order, without gaps or repetitions: as long as no SYN0 arrives, the
  packets delivered for a stream of octets are a subsequence of its user and retransmitted
  frames, and their numbers are consecutive, from the expected one on; the next expected
  number is the one after the last.
\<close>

theorem deliveries_consecutive:
  assumes "sfp_inv R c" and "deliver_octets R c xs = Inr c'" and "deliver (rx c) \<noteq> None"
    and "\<forall>f \<in> set (frames_in (abs_receiver c) xs). \<not> opens f"
  shows "rx_seq (rx c') = (nextSeq ^^ length (delivered c c')) (rx_seq (rx c))
    \<and> subseq (numbered (rx_seq (rx c)) (delivered c c'))
        (map snd (filter (\<lambda>f. fst f \<in> {SFP_FRAME_USR, SFP_FRAME_RTX}) (frames_in (abs_receiver c) xs)))"
proof -
  obtain fs ds where r: "on_inputs (abs_endpoint R c) (snd (deframe (abs_receiver c) xs)) = (abs_endpoint R c', fs, ds)" 
    "delivered c c' = ds"
    using deliver_octets_inputs [OF assms(1,2)] assms(3) by auto
  from deliveries_subseq [OF r(1)] assms(4) show ?thesis
    unfolding frames_in_def r(2) endpoint_simps by blast
qed

theorem deliveries_consecutive_witness:
  "\<exists>c'. deliver_octets list_ringbuffer (example_session [] 0 63) (wire [USR 63 [1], NAK 0, RTX 0 [2]]) = Inr c'
     \<and> rx_seq (rx c') = (nextSeq ^^ length (delivered (example_session [] 0 63) c')) 63"
proof -
  let ?fs = "[USR 63 [1], NAK 0, RTX 0 [2]]"
  have ok: "\<forall>f \<in> set ?fs. frame_ok f" "\<forall>f \<in> set ?fs. \<not> opens f"
    by (simp_all add: seq_ok_unat max_payload_def sfp_consts opens_def)
  have inv: "sfp_inv list_ringbuffer (example_session [] 0 63)"
    by (intro session_inv) (simp_all add: seq_ok_unat)
  then obtain c' where c': "deliver_octets list_ringbuffer (example_session [] 0 63) (wire ?fs) = Inr c'"
    using input_total by blast
  show ?thesis
    using deliveries_consecutive [OF inv c'] ok(2) c'
    by (simp add: frames_in_wire [OF ok(1)] del: wire_simps)
qed

end
