(* ===== verification/Sfp_Calls.thy ===== *)
theory Sfp_Calls
  imports Sfp_Session
begin

text \<open>
  The entry points one by one, on every branch: \<^verbatim>\<open>sfpWritePacket\<close>, \<^verbatim>\<open>sfpConnect\<close>, the
  reaction to a user frame and to any frame before the connection stands, and
  \<^verbatim>\<open>sfpDeliverOctet\<close> with a buffer that the packet is copied to.
\<close>

section \<open>Writing a packet\<close>

lemma length_escape_octet: "1 \<le> length (escape_octet x) \<and> length (escape_octet x) \<le> 2"
  by (simp add: escape_octet_def)

lemma length_escape: "length xs \<le> length (escape xs) \<and> length (escape xs) \<le> 2 * length xs"
proof (induction xs)
  case (Cons x xs)
  then show ?case using length_escape_octet [of x] by (simp add: escape_Cons)
qed simp

lemma length_frame_octets:
  "length bs + 5 \<le> length (frame_octets hdr bs) \<and> length (frame_octets hdr bs) \<le> 2 * length bs + 8"
  using length_escape [of "frame_body hdr bs"] by (simp add: frame_octets_def)

text \<open>
  A packet is written as one user frame under the next sequence number, whatever the
  state of the connection; \<^verbatim>\<open>*outlen\<close> is the number of octets handed to the write callback,
  between \<open>len + 5\<close> and \<open>2 len + 8\<close>; the packet becomes the youngest of the history, which
  drops its oldest when it holds eight; nothing else changes.
\<close>

theorem write_packet_correct:
  assumes "sfp_inv R c" and "length stack = SFP_CONFIG_MAX_PACKET_SIZE"
    and "length bs \<le> SFP_CONFIG_MAX_PACKET_SIZE"
  shows "\<exists>c'. sfpWritePacket R c stack bs = Inr (c', length (written c c'))
    \<and> written c c' = frame_octets (makeHeader SFP_FRAME_USR (tx_seq (tx c))) bs
    \<and> length bs + 5 \<le> length (written c c') \<and> length (written c c') \<le> 2 * length bs + 8
    \<and> tx_seq (tx c') = nextSeq (tx_seq (tx c))
    \<and> map payload (history_list R c') =
        drop (Suc (length (history_list R c)) - 8) (map payload (history_list R c) @ [bs])
    \<and> connectState c' = connectState c \<and> rx_seq (rx c') = rx_seq (rx c)
    \<and> abs_receiver c' = abs_receiver c \<and> delivered c c' = []"
proof -
  obtain c' where c': "sfpWritePacket R c stack bs = Inr (c', length (wire (snd (on_send (abs_endpoint R c) bs))))"
    "abs_receiver c' = abs_receiver c" and
    r: "reacts R c c' (fst (on_send (abs_endpoint R c) bs)) (snd (on_send (abs_endpoint R c) bs)) []"
    using write_inv [OF assms] by blast
  have w: "written c c' = frame_octets (makeHeader SFP_FRAME_USR (tx_seq (tx c))) bs"
    using reacts_seen(1) [OF r] by (simp add: on_send_def endpoint_simps)
  have e: "abs_endpoint R c' = fst (on_send (abs_endpoint R c) bs)"
    by (rule reacts_seen(3) [OF r])
  show ?thesis
    using c' w length_frame_octets [of bs] reacts_seen(2) [OF r]
      arg_cong [OF e, of txs] arg_cong [OF e, of hist] arg_cong [OF e, of conn] arg_cong [OF e, of rxs]
    by (simp add: on_send_def endpoint_simps SFP_CONFIG_HISTORY_CAPACITY_def)
qed

theorem write_packet_correct_witness:
  "\<exists>c' n. sfpWritePacket list_ringbuffer example_connected (replicate SFP_CONFIG_MAX_PACKET_SIZE 0) [1, 2, 3]
      = Inr (c', n) \<and> 8 \<le> n \<and> n \<le> 14"
  using write_packet_correct [OF connected_inv, of "replicate SFP_CONFIG_MAX_PACKET_SIZE 0" "[1, 2, 3]"]
  by (auto simp: sfp_consts)

section \<open>Connecting\<close>

text \<open>
  \<^verbatim>\<open>sfpConnect\<close> starts afresh from any state: it sends SYN0, sets both sequence numbers
  to 0, empties the history, abandons a frame that is being received and delivers nothing.
\<close>

theorem connect_correct:
  assumes "sfp_inv R c"
  shows "\<exists>c'. sfpConnect R c = Inr c' \<and> connectState c' = SFP_CONNECT_STATE_SENT_SYN0
    \<and> written c c' = wire [SYN SFP_SEQ_SYN0] \<and> delivered c c' = []
    \<and> tx_seq (tx c') = SFP_INITIAL_SEQ \<and> rx_seq (rx c') = SFP_INITIAL_SEQ
    \<and> history_list R c' = [] \<and> abs_receiver c' = idle"
proof -
  obtain c' where c': "sfpConnect R c = Inr c'" "abs_receiver c' = idle" and
    r: "reacts R c c' (fst (on_connect (abs_endpoint R c))) (snd (on_connect (abs_endpoint R c))) []"
    using connect_inv [OF assms] by blast
  have e: "abs_endpoint R c' = fst (on_connect (abs_endpoint R c))" by (rule reacts_seen(3) [OF r])
  show ?thesis
    using c' reacts_seen(1,2) [OF r]
      arg_cong [OF e, of txs] arg_cong [OF e, of hist] arg_cong [OF e, of conn] arg_cong [OF e, of rxs]
    by (simp add: on_connect_def endpoint_simps)
qed

theorem connect_correct_witness:
  "\<exists>c'. sfpConnect list_ringbuffer (example_session [[1], [2]] 5 7) = Inr c'
     \<and> history_list list_ringbuffer c' = [] \<and> tx_seq (tx c') = SFP_INITIAL_SEQ"
proof -
  have "sfp_inv list_ringbuffer (example_session [[1], [2]] 5 7)"
    by (intro session_inv) (simp_all add: sfp_consts seq_ok_unat)
  from connect_correct [OF this] show ?thesis by auto
qed

section \<open>User frames\<close>

text \<open>
  A user frame or a retransmission at a connected endpoint, on every branch: with the
  expected number it is delivered and the next number is expected; with any other number
  nothing is delivered and nothing changes, and it is answered by a request for the
  expected packet exactly if it is not a retransmission.
\<close>

theorem user_frame_handled:
  assumes "sfp_inv R c" and "abs_receiver c = idle" and "sfpIsConnected c" and "deliver (rx c) \<noteq> None"
    and "t \<in> {SFP_FRAME_USR, SFP_FRAME_RTX}" and "seq_ok s"
    and "length bs \<le> SFP_CONFIG_MAX_PACKET_SIZE - SFP_CRC_SIZE"
  shows "\<exists>c'. deliver_octets R c (frame_octets (makeHeader t s) bs) = Inr c'
    \<and> sfpIsConnected c' \<and> abs_receiver c' = idle
    \<and> delivered c c' = (if s = rx_seq (rx c) then [bs] else [])
    \<and> rx_seq (rx c') = (if s = rx_seq (rx c) then nextSeq s else rx_seq (rx c))
    \<and> written c c' = (if s \<noteq> rx_seq (rx c) \<and> t = SFP_FRAME_USR then wire [NAK (rx_seq (rx c))] else [])
    \<and> tx_seq (tx c') = tx_seq (tx c) \<and> map payload (history_list R c') = map payload (history_list R c)"
proof -
  let ?e = "abs_endpoint R c"
  let ?e' = "?e\<lparr>rxs := (if s = rx_seq (rx c) then nextSeq s else rx_seq (rx c))\<rparr>"
  have r: "on_inputs ?e (map Some [(t, s, bs)]) =
      (?e', if s \<noteq> rx_seq (rx c) \<and> t = SFP_FRAME_USR then [NAK (rx_seq (rx c))] else [],
       if s = rx_seq (rx c) then [bs] else [])"
    using assms(3,5)
    by (auto simp: on_input_def on_user_def endpoint_simps sfpIsConnected_def)
  have ok: "\<forall>f \<in> set [(t, s, bs)]. frame_ok f" using assms(6,7) by (simp add: max_payload_def)
  obtain c' where c': "deliver_octets R c (wire [(t, s, bs)]) = Inr c'" "abs_endpoint R c' = ?e'"
      "abs_receiver c' = idle" "delivered c c' = (if s = rx_seq (rx c) then [bs] else [])"
      "written c c' = wire (if s \<noteq> rx_seq (rx c) \<and> t = SFP_FRAME_USR then [NAK (rx_seq (rx c))] else [])"
    using frames_run [OF assms(1,2) ok r] assms(4) by auto
  show ?thesis
    using assms(3) c'(1,3-5) arg_cong [OF c'(2), of txs] arg_cong [OF c'(2), of hist]
      arg_cong [OF c'(2), of conn] arg_cong [OF c'(2), of rxs]
    by (simp add: endpoint_simps sfpIsConnected_def)
qed

theorem user_frame_handled_witness:
  "\<exists>c'. deliver_octets list_ringbuffer (example_session [] 0 63) (frame_octets (makeHeader SFP_FRAME_USR 63) [9]) = Inr c'
     \<and> delivered (example_session [] 0 63) c' = [[9]] \<and> rx_seq (rx c') = 0"
proof -
  have "sfp_inv list_ringbuffer (example_session [] 0 63)"
    by (intro session_inv) (simp_all add: seq_ok_unat)
  from user_frame_handled [OF this, of SFP_FRAME_USR 63 "[9]"] show ?thesis
    by (auto simp: sfpIsConnected_def seq_ok_unat sfp_consts nextSeq_def)
qed

text \<open>
  Before the connection stands, a user frame, a retransmission or a request for
  retransmission has no effect: nothing is delivered, nothing changes, and it is answered
  by the handshake frame that the peer has missed (a disconnected endpoint answers that it
  is disconnected).
\<close>

theorem unconnected_frame_answered:
  assumes "sfp_inv R c" and "abs_receiver c = idle" and "\<not> sfpIsConnected c"
    and "t \<noteq> SFP_FRAME_SYN" and "seq_ok s"
    and "length bs \<le> SFP_CONFIG_MAX_PACKET_SIZE - SFP_CRC_SIZE"
  shows "\<exists>c'. deliver_octets R c (frame_octets (makeHeader t s) bs) = Inr c'
    \<and> abs_endpoint R c' = abs_endpoint R c \<and> abs_receiver c' = idle \<and> delivered c c' = []
    \<and> written c c' = wire [SYN (case connectState c of
          SFP_CONNECT_STATE_SENT_SYN0 \<Rightarrow> SFP_SEQ_SYN0
        | SFP_CONNECT_STATE_SENT_SYN1 \<Rightarrow> SFP_SEQ_SYN1
        | _ \<Rightarrow> SFP_SEQ_SYN_DIS)]"
proof -
  let ?reply = "SYN (case connectState c of
          SFP_CONNECT_STATE_SENT_SYN0 \<Rightarrow> SFP_SEQ_SYN0
        | SFP_CONNECT_STATE_SENT_SYN1 \<Rightarrow> SFP_SEQ_SYN1
        | _ \<Rightarrow> SFP_SEQ_SYN_DIS)"
  have n: "connectState c \<noteq> SFP_CONNECT_STATE_CONNECTED" "not_connected (abs_endpoint R c) = [?reply]"
    using assms(3) by (auto simp: sfpIsConnected_def not_connected_def endpoint_simps split: SFPconnectstate.split)
  have "on_inputs (abs_endpoint R c) (map Some [(t, s, bs)]) = (abs_endpoint R c, [?reply], [])"
    using n assms(4) by (cases t) (simp_all add: on_input_def on_user_def on_nak_def endpoint_simps)
  moreover have "\<forall>f \<in> set [(t, s, bs)]. frame_ok f" using assms(5,6) by (simp add: max_payload_def)
  ultimately show ?thesis
    using frames_run [OF assms(1,2), of "[(t, s, bs)]"] by auto
qed

theorem unconnected_frame_answered_witness:
  "\<exists>c'. deliver_octets list_ringbuffer example_context (frame_octets (makeHeader SFP_FRAME_USR 5) [9]) = Inr c'
     \<and> delivered example_context c' = [] \<and> written example_context c' = wire [SYN SFP_SEQ_SYN_DIS]"
  using unconnected_frame_answered [OF example_inv, of SFP_FRAME_USR 5 "[9]"]
  by (auto simp: sfpIsConnected_def seq_ok_unat sfp_consts)

section \<open>Receiving into a buffer\<close>

lemma sfpHandleUSR_packet:
  assumes "sfp_ok R c" and "sfpHandleUSR c = Inr (c', ret)" and "ret \<noteq> 0"
  shows "packet (rx c') = packet (rx c)"
proof -
  obtain c1 where c1: "sfpHandleUSR_unconnected c = Inr (c1, connectState c \<noteq> SFP_CONNECT_STATE_CONNECTED)"
    "rx c1 = rx c"
    using sfpHandleUSR_unconnected_refines [OF assms(1)] by blast
  have "packet (rx (sfpCallDeliver c1)) = packet (rx c)"
    by (simp add: sfpCallDeliver_def c1(2) split: option.split)
  with assms(2,3) show ?thesis
    by (auto simp: sfpHandleUSR_def assertR_def c1 Let_def bindR_eq_Inr split: if_splits)
qed

text \<open>A frame that is handled with a result other than 0 is a packet, and still in the receiver.\<close>

lemma sfpHandleFrame_packet:
  assumes "sfp_ok R c" and "sfpHandleFrame R c = Inr (c', ret)" and "ret \<noteq> 0"
  shows "\<exists>t s. received c = Some (t, s, payload (packet (rx c'))) \<and> t \<in> {SFP_FRAME_USR, SFP_FRAME_RTX}
    \<and> packet_ok (packet (rx c'))"
proof -
  let ?p = "packet (rx c)"
  let ?p' = "?p\<lparr>len := len ?p - SFP_CRC_SIZE\<rparr>"
  let ?c = "c\<lparr>rx := (rx c)\<lparr>packet := ?p'\<rparr>\<rparr>"
  have ok: "sfp_ok R ?c" using assms(1) by simp
  have long: "SFP_CRC_SIZE \<le> len ?p" "rx_crc (rx c) = SFP_CRC_GOOD"
    and type: "getFrameType (header (rx c)) \<in> {SFP_FRAME_USR, SFP_FRAME_RTX}"
    and run: "sfpHandleUSR ?c = Inr (c', ret)"
    using assms(2,3)
    by (auto simp: sfpHandleFrame_def Let_def bindR_eq_Inr split: if_splits SFPframetype.splits)
  have "packet (rx c') = ?p'" using sfpHandleUSR_packet [OF ok run assms(3)] by simp
  moreover have "packet_ok ?p'" using ok by (simp add: sfp_ok_def)
  ultimately show ?thesis
    using long type by (simp add: received_def payload_def Let_def)
qed

lemma on_input_packet:
  "on_input e (Some (t, s, bs)) = (e', fs, ds) \<Longrightarrow> ds \<noteq> [] \<Longrightarrow> ds = [bs]"
  by (cases t) (auto simp: on_input_def on_user_def split: if_splits prod.splits)

text \<open>The result of \<^verbatim>\<open>sfpDeliverOctet\<close> with a buffer, in terms of the one without.\<close>

lemma deliver_buffered:
  assumes "sfp_inv R c" and "maxlen \<le> length mem"
  shows "\<exists>c'. deliver_octet R c octet = Inr c' \<and> sfp_inv R c'
    \<and> sfpDeliverOctet R c octet (Some mem) maxlen (Some n) = Inr (c',
        case on_octet (abs_sfp R c) octet of (a, fs, ds) \<Rightarrow>
          (if ds = [] then (0, Some mem, Some n)
           else if length (hd ds) \<le> maxlen
             then (1, Some (hd ds @ drop (length (hd ds)) mem), Some (length (hd ds)))
           else (-1, Some mem, Some n)))"
proof (cases "octet = SFP_FLAG \<and> frameState (rx c) = SFP_FRAME_STATE_RECEIVING")
  case False
  obtain c' where c': "deliver_octet R c octet = Inr c'" "sfp_inv R c'"
    using deliver_octet_refines [OF assms(1), of octet] by (auto simp: simulates_def)
  have "abs_receiver c = idle \<or> octet \<noteq> SFP_FLAG \<or> body (abs_receiver c) = []"
    using False by (cases "frameState (rx c)") (auto simp: abs_receiver_def)
  then have "\<exists>a. on_octet (abs_sfp R c) octet = (a, [], [])"
    by (auto simp: on_octet_def abs_sfp_def)
  moreover have "sfpDeliverOctet R c octet (Some mem) maxlen (Some n) = Inr (c', 0, Some mem, Some n)"
    using False c'(1)
    by (auto simp: sfpDeliverOctet_def deliver_octet_def bindR_eq_Inr Let_def assertR_def split: if_splits)
  ultimately show ?thesis using c' by auto
next
  case True
  have ok: "sfp_ok R c" and laws: "ringbuffer_laws R" using assms(1) by (simp_all add: sfp_inv_def)
  have p: "parse_body (body (abs_receiver c)) = received c"
    using parse_received [OF ok] True assms(1) by (simp add: sfp_inv_def)
  obtain e fs ds where r: "on_input (abs_endpoint R c) (received c) = (e, fs, ds)" by (metis prod_cases3)
  obtain c1 ret where c1: "sfpHandleFrame R c = Inr (c1, ret)" "ret = (if ds = [] then 0 else 1)"
    using sfpHandleFrame_refines [OF laws ok r] by blast
  have spec: "on_octet (abs_sfp R c) SFP_FLAG = ((e, idle), fs, ds)"
    using True r p by (simp add: on_octet_def abs_sfp_def) (simp add: abs_receiver_def)
  have run: "deliver_octet R c SFP_FLAG = Inr (sfpResetReceiver c1)"
    using True c1 by (simp add: deliver_octet_def sfpDeliverOctet_def)
  then have inv: "sfp_inv R (sfpResetReceiver c1)"
    using deliver_octet_refines [OF assms(1), of SFP_FLAG] by (auto simp: simulates_def)
  show ?thesis
  proof (cases "ds = []")
    case nil: True
    with True c1 show ?thesis
      by (simp add: run inv spec sfpDeliverOctet_def)
  next
    case False
    then obtain t s where t: "received c = Some (t, s, payload (packet (rx c1)))" and pok: "packet_ok (packet (rx c1))"
      using sfpHandleFrame_packet [OF ok c1(1)] c1(2) by auto
    have ds: "ds = [payload (packet (rx c1))]"
      using on_input_packet r False by (simp add: t)
    have copy: "sfpCopyOutPacket c1 mem maxlen (Some n) = Inr
        (if length (payload (packet (rx c1))) \<le> maxlen
         then (1, payload (packet (rx c1)) @ drop (length (payload (packet (rx c1)))) mem,
               Some (length (payload (packet (rx c1)))))
         else (-1, mem, Some n))"
      using assms(2) packet_okD [OF pok]
      by (simp add: sfpCopyOutPacket_def Let_def length_payload [OF pok] payload_def [of "packet (rx c1)"])
    show ?thesis
      using True False c1 copy by (simp add: run inv spec ds sfpDeliverOctet_def)
  qed
qed

text \<open>
  C26. \<^verbatim>\<open>sfpDeliverOctet\<close> with a buffer behaves as without one, for every octet, and reports
  packets besides: it returns 0 and leaves the buffer alone if the octet completes no
  packet; if it completes one that fits into the buffer, it returns 1, copies the packet to
  the front of the buffer and its length to \<^verbatim>\<open>*outlen\<close>; if the packet is too long for the
  buffer, it returns -1 and copies nothing, although the packet counts as received.
\<close>

theorem deliver_into_buffer:
  assumes "sfp_inv R c" and "maxlen \<le> length mem"
  shows "\<exists>c'. deliver_octet R c octet = Inr c' \<and> sfp_inv R c'
    \<and> sfpDeliverOctet R c octet (Some mem) maxlen (Some n) = Inr (c',
        case on_octet (abs_sfp R c) octet of (a, fs, ds) \<Rightarrow>
          (if ds = [] then (0, Some mem, Some n)
           else if length (hd ds) \<le> maxlen
             then (1, Some (hd ds @ drop (length (hd ds)) mem), Some (length (hd ds)))
           else (-1, Some mem, Some n)))"
  by (rule deliver_buffered [OF assms])

theorem deliver_into_buffer_witness:
  "\<exists>c'. sfpDeliverOctet list_ringbuffer example_context SFP_FLAG (Some [0, 0]) 2 (Some 7) = Inr (c', 0, Some [0, 0], Some 7)"
  using deliver_into_buffer [OF example_inv, of 2 "[0, 0]" SFP_FLAG 7]
  by (auto simp: on_octet_def abs_sfp_def)

end
