(* ===== verification/Sfp_Reliable.thy ===== *)
theory Sfp_Reliable
  imports Sfp_Connection
begin

text \<open>
  Reliable delivery over a link that loses and damages frames. Two connected endpoints are
  joined by two first-in-first-out channels of frames; a frame may be lost from any place
  of a channel, and may arrive damaged. As long as the sender stays within eight packets of
  what the receiver has, and of every request for retransmission that is still under way,
  the packets delivered are at all times a prefix of the packets written, in both
  directions. Without the second condition this fails: a late request for retransmission
  makes the sender lose its place.
\<close>

section \<open>Sequence numbers\<close>

definition seq_of :: "nat \<Rightarrow> u8" where
  "seq_of n = (nextSeq ^^ n) SFP_INITIAL_SEQ"

lemma seq_ok_seq_of [simp]: "seq_ok (seq_of n)"
  by (simp add: seq_of_def)

lemma unat_seq_of: "unat (seq_of n) = n mod 64"
  using unat_funpow_nextSeq [of SFP_INITIAL_SEQ n] by (simp add: seq_of_def) (simp add: sfp_consts)

lemma seq_of_Suc [simp]: "nextSeq (seq_of n) = seq_of (Suc n)"
  by (simp add: seq_of_def)

lemma seq_of_add: "(nextSeq ^^ m) (seq_of n) = seq_of (n + m)"
  by (simp add: seq_of_def funpow_add [symmetric, THEN fun_cong, unfolded comp_def] add.commute)

lemma seq_of_eq_iff: "seq_of m = seq_of n \<longleftrightarrow> m mod 64 = n mod 64"
  by (metis unat_seq_of word_unat_eq_iff)

text \<open>Numbers that are close are told apart.\<close>

lemma seq_of_near: "m \<le> n + 63 \<Longrightarrow> n \<le> m + 63 \<Longrightarrow> seq_of m = seq_of n \<longleftrightarrow> m = n"
proof
  have *: "m = n" if "m \<le> n" "n \<le> m + 63" "m mod 64 = n mod 64" for m n :: nat
  proof -
    have "64 dvd n - m" using that mod_eq_dvd_iff_nat [of m n 64] by simp
    moreover have "n - m < 64" using that by simp
    ultimately have "n - m = 0" using nat_dvd_not_less by blast
    with that show ?thesis by simp
  qed
  assume "m \<le> n + 63" "n \<le> m + 63" "seq_of m = seq_of n"
  then show "m = n" using * [of m n] * [of n m] by (cases "m \<le> n") (simp_all add: seq_of_eq_iff)
qed simp

definition seq_dist :: "u8 \<Rightarrow> u8 \<Rightarrow> nat" where
  "seq_dist s t = (unat t + 64 - unat s) mod 64"

lemma seq_dist_seq_of: "m \<le> n \<Longrightarrow> n \<le> m + 63 \<Longrightarrow> seq_dist (seq_of m) (seq_of n) = n - m"
proof -
  assume "m \<le> n" "n \<le> m + 63"
  define d where "d = n - m"
  have n: "n = m + d" "d < 64" using \<open>m \<le> n\<close> \<open>n \<le> m + 63\<close> by (simp_all add: d_def)
  have "(m + d) mod 64 = (m mod 64 + d) mod 64" by (simp add: mod_add_left_eq)
  moreover have "m mod 64 < 64" by simp
  ultimately have "((m + d) mod 64 + 64 - m mod 64) mod 64 = d"
    using n(2) by (cases "m mod 64 + d < 64") (simp_all add: mod_if [of "m mod 64 + d" 64])
  then show ?thesis by (simp add: seq_dist_def unat_seq_of n(1))
qed

section \<open>One direction\<close>

definition is_data :: "frame \<Rightarrow> bool" where
  "is_data f \<longleftrightarrow> fst f = SFP_FRAME_USR \<or> fst f = SFP_FRAME_RTX"

definition is_nak :: "frame \<Rightarrow> bool" where
  "is_nak f \<longleftrightarrow> fst f = SFP_FRAME_NAK"

text \<open>A data frame that carries the \<open>k\<close>-th packet, and a request for it.\<close>

definition carries :: "u8 list list \<Rightarrow> frame \<Rightarrow> nat \<Rightarrow> bool" where
  "carries sent f k \<longleftrightarrow> is_data f \<and> k < length sent \<and> snd f = (seq_of k, sent ! k)"

definition requests :: "frame \<Rightarrow> nat \<Rightarrow> bool" where
  "requests f j \<longleftrightarrow> is_nak f \<and> fst (snd f) = seq_of j"

text \<open>
  The invariant of one direction: \<open>ts\<close>, \<open>hs\<close> the sender's next number and history, \<open>rs\<close>
  the receiver's expected number, \<open>data\<close> the data frames and \<open>naks\<close> the requests under way,
  \<open>sent\<close> all packets written and \<open>got\<close> all packets delivered since the connection was
  made. \<open>h\<close> is the true number of the oldest packet of the history, \<open>ks\<close> and \<open>js\<close> are the
  true numbers of the frames under way.
\<close>

definition direction_inv ::
  "u8 \<Rightarrow> u8 list list \<Rightarrow> u8 \<Rightarrow> frame list \<Rightarrow> frame list \<Rightarrow> u8 list list \<Rightarrow> u8 list list
    \<Rightarrow> nat \<Rightarrow> nat list \<Rightarrow> nat list \<Rightarrow> bool" where
  "direction_inv ts hs rs data naks sent got h ks js \<longleftrightarrow>
     ts = seq_of (length sent) \<and> hs = drop h sent \<and> rs = seq_of (length got)
     \<and> take (length got) sent = got \<and> length got \<le> length sent
     \<and> h \<le> length got \<and> length sent \<le> h + 8
     \<and> list_all2 (carries sent) data ks \<and> list_all2 requests naks js
     \<and> (\<forall>k \<in> set ks. length got \<le> k + 8) \<and> sorted_wrt (\<lambda>k k'. k \<le> k' + 7) ks
     \<and> (\<forall>j \<in> set js. h \<le> j \<and> j \<le> length got) \<and> sorted js"

definition direction ::
  "u8 \<Rightarrow> u8 list list \<Rightarrow> u8 \<Rightarrow> frame list \<Rightarrow> frame list \<Rightarrow> u8 list list \<Rightarrow> u8 list list \<Rightarrow> bool" where
  "direction ts hs rs data naks sent got \<longleftrightarrow> (\<exists>h ks js. direction_inv ts hs rs data naks sent got h ks js)"

text \<open>
  The window within which a client has to write: fewer packets than the history holds are
  outstanding, towards the number that the peer expects and towards every request for a
  retransmission under way. \<^verbatim>\<open>sfpWritePacket\<close> does not check it; \<open>late_request_duplicates\<close> is
  a run outside of it.
\<close>

definition window_open :: "u8 \<Rightarrow> u8 \<Rightarrow> frame list \<Rightarrow> bool" where
  "window_open ts rs naks \<longleftrightarrow>
     seq_dist rs ts < SFP_CONFIG_HISTORY_CAPACITY
     \<and> (\<forall>f \<in> set naks. seq_dist (fst (snd f)) ts < SFP_CONFIG_HISTORY_CAPACITY)"

lemma list_all2_in_set2: "list_all2 P xs ys \<Longrightarrow> y \<in> set ys \<Longrightarrow> \<exists>x \<in> set xs. P x y"
  by (induction rule: list_all2_induct) auto

lemma carries_mono: "carries sent f k \<Longrightarrow> carries (sent @ [bs]) f k"
  by (auto simp: carries_def nth_append)

lemma direction_send:
  assumes "direction ts hs rs data naks sent got" and w: "window_open ts rs naks"
  shows "direction (nextSeq ts) (drop (Suc (length hs) - SFP_CONFIG_HISTORY_CAPACITY) (hs @ [bs])) rs
    (data @ [USR ts bs]) naks (sent @ [bs]) got"
proof -
  obtain h ks js where d: "direction_inv ts hs rs data naks sent got h ks js"
    using assms(1) by (auto simp: direction_def)
  let ?n = "length sent" and ?d = "length got"
  let ?h = "if ?n - h < 8 then h else Suc h"
  have hist: "drop (Suc (length hs) - SFP_CONFIG_HISTORY_CAPACITY) (hs @ [bs]) = drop ?h (sent @ [bs])"
  proof (cases "?n - h < 8")
    case True
    with d show ?thesis by (auto simp: direction_inv_def sfp_consts)
  next
    case False
    with d have "?n = h + 8" by (auto simp: direction_inv_def)
    with d show ?thesis by (auto simp: direction_inv_def sfp_consts drop_Suc tl_drop)
  qed
  have "?n - ?d < 8"
    using w d seq_dist_seq_of [of ?d ?n] by (simp add: window_open_def direction_inv_def sfp_consts)
  then have dist: "?n < ?d + 8" by linarith
  have "?n < j + 8" if "j \<in> set js" for j
  proof -
    have "list_all2 requests naks js" and ts: "ts = seq_of ?n" and "h \<le> j" "j \<le> ?d" "?d \<le> ?n" "?n \<le> h + 8"
      using d that by (simp_all add: direction_inv_def)
    with list_all2_in_set2 [of requests naks js j] that obtain f where f: "f \<in> set naks" "requests f j" by blast
    have "seq_dist (seq_of j) ts = ?n - j"
      unfolding ts using \<open>h \<le> j\<close> \<open>j \<le> ?d\<close> \<open>?d \<le> ?n\<close> \<open>?n \<le> h + 8\<close> by (intro seq_dist_seq_of) auto
    with w f have "?n - j < 8" by (auto simp: window_open_def requests_def sfp_consts)
    then show ?thesis by linarith
  qed
  then have naks: "\<forall>j \<in> set js. ?h \<le> j \<and> j \<le> ?d" using d by (fastforce simp: direction_inv_def)
  have data: "list_all2 (carries (sent @ [bs])) (data @ [USR ts bs]) (ks @ [?n])"
  proof (rule list_all2_appendI)
    show "list_all2 (carries (sent @ [bs])) data ks"
      using d carries_mono by (auto simp: direction_inv_def elim: list_all2_mono)
    show "list_all2 (carries (sent @ [bs])) [USR ts bs] [?n]"
      using d by (simp add: carries_def is_data_def direction_inv_def)
  qed
  have below: "\<forall>k \<in> set ks. k < ?n"
    using d by (auto simp: direction_inv_def carries_def dest!: list_all2_in_set2)
  have "direction_inv (nextSeq ts) (drop ?h (sent @ [bs])) rs (data @ [USR ts bs]) naks (sent @ [bs]) got ?h (ks @ [?n]) js"
    using d naks data below dist by (auto simp: direction_inv_def sorted_wrt_append)
  then show ?thesis unfolding hist direction_def by blast
qed

text \<open>A data frame arrives: it is the expected packet, or it is not.\<close>

lemma direction_receive:
  assumes "direction ts hs rs (f # data) naks sent got"
  shows "fst (snd f) = rs \<Longrightarrow> direction ts hs (nextSeq rs) data naks sent (got @ [snd (snd f)])"
    and "fst (snd f) \<noteq> rs \<Longrightarrow> direction ts hs rs data naks sent got"
proof -
  obtain h ks' js where d': "direction_inv ts hs rs (f # data) naks sent got h ks' js"
    using assms by (auto simp: direction_def)
  then obtain k ks where "ks' = k # ks" by (auto simp: direction_inv_def list_all2_Cons1)
  with d' have d: "direction_inv ts hs rs (f # data) naks sent got h (k # ks) js" by simp
  then have "direction_inv ts hs rs data naks sent got h ks js"
    by (simp add: direction_inv_def)
  then show "direction ts hs rs data naks sent got" unfolding direction_def by blast
  assume expected: "fst (snd f) = rs"
  let ?d = "length got"
  have f: "carries sent f k" using d by (simp add: direction_inv_def)
  have k: "k < length sent" "snd f = (seq_of k, sent ! k)" using f by (simp_all add: carries_def)
  have near: "?d \<le> k + 8" "k < ?d + 8" using d k(1) by (auto simp: direction_inv_def)
  with expected d k(2) have eq: "k = ?d"
    using seq_of_near [of k ?d] by (simp add: direction_inv_def)
  have got: "got @ [snd (snd f)] = take (Suc ?d) sent"
    using d k by (simp add: direction_inv_def eq take_Suc_conv_app_nth)
  have "\<forall>k' \<in> set ks. Suc ?d \<le> k' + 8" using d by (auto simp: direction_inv_def eq)
  with d k(1) eq got have "direction_inv ts hs (nextSeq rs) data naks sent (got @ [snd (snd f)]) h ks js"
    by (auto simp: direction_inv_def)
  then show "direction ts hs (nextSeq rs) data naks sent (got @ [snd (snd f)])"
    unfolding direction_def by blast
qed

text \<open>The receiver asks for the packet it expects.\<close>

lemma direction_request:
  assumes "direction ts hs rs data naks sent got"
  shows "direction ts hs rs data (naks @ [NAK rs]) sent got"
proof -
  obtain h ks js where d: "direction_inv ts hs rs data naks sent got h ks js"
    using assms by (auto simp: direction_def)
  then have "list_all2 requests (naks @ [NAK rs]) (js @ [length got])"
    by (intro list_all2_appendI) (simp_all add: direction_inv_def requests_def is_nak_def)
  with d have "direction_inv ts hs rs data (naks @ [NAK rs]) sent got h ks (js @ [length got])"
    by (auto simp: direction_inv_def sorted_append)
  then show ?thesis unfolding direction_def by blast
qed

text \<open>A request arrives: the sender goes back.\<close>

lemma rtx_carries:
  "j \<le> length sent \<Longrightarrow> list_all2 (carries sent) (rtx (seq_of j) (drop j sent)) [j..<length sent]"
proof (induction "length sent - j" arbitrary: j)
  case (Suc n)
  then have j: "j < length sent" by simp
  then have "drop j sent = sent ! j # drop (Suc j) sent" by (simp add: Cons_nth_drop_Suc)
  moreover have "[j..<length sent] = j # [Suc j..<length sent]" using j by (simp add: upt_conv_Cons)
  ultimately show ?case
    using Suc.hyps(1) [of "Suc j"] Suc.hyps(2) j by (simp add: carries_def is_data_def)
qed simp

lemma is_data_rtx: "f \<in> set (rtx s bss) \<Longrightarrow> fst f = SFP_FRAME_RTX"
  by (induction bss arbitrary: s) auto

lemma resend_direction:
  assumes d: "direction_inv ts hs rs data (f # naks) sent got h ks (j # js)"
    and e: "txs e = ts" "hist e = hs" and s: "fst (snd f) \<noteq> ts"
  shows "resend e (fst (snd f)) = (e\<lparr>hist := drop j sent\<rparr>, rtx (seq_of j) (drop j sent))"
proof -
  let ?n = "length sent"
  have b: "h \<le> j" "j \<le> ?n" "?n \<le> h + 8" and f: "fst (snd f) = seq_of j"
    and ts: "ts = seq_of ?n" "hs = drop h sent"
    using d by (auto simp: direction_inv_def requests_def)
  have "j \<noteq> ?n" using s f ts by auto
  with b have j: "j < ?n" by simp
  have len: "length hs = ?n - h" using ts by simp
  have "ts = (nextSeq ^^ length hs) (seq_of h)" "seq_of j = (nextSeq ^^ (j - h)) (seq_of h)"
    using b ts(1) by (simp_all add: len seq_of_add)
  moreover have "j - h < length hs" using j b by (simp add: len)
  ultimately have "resend e (seq_of j) = (e\<lparr>hist := drop (j - h) (hist e)\<rparr>, rtx (seq_of j) (drop (j - h) (hist e)))"
    using resend_window [of "seq_of h" e "j - h"] b(3) by (simp add: e len sfp_consts)
  with b show ?thesis by (simp add: f e ts(2))
qed

lemma direction_resend:
  assumes "direction ts hs rs data (f # naks) sent got" and e: "txs e = ts" "hist e = hs"
  shows "fst (snd f) = ts \<Longrightarrow> direction ts hs rs data naks sent got"
    and "fst (snd f) \<noteq> ts \<Longrightarrow> resend e (fst (snd f)) = (e', fs) \<Longrightarrow>
      txs e' = ts \<and> conn e' = conn e \<and> rxs e' = rxs e \<and> (\<forall>g \<in> set fs. fst g = SFP_FRAME_RTX)
      \<and> (\<forall>g \<in> set fs. seq_ok (fst (snd g)) \<and> snd (snd g) \<in> set sent)
      \<and> direction ts (hist e') rs (data @ fs) naks sent got"
proof -
  obtain h ks js' where d': "direction_inv ts hs rs data (f # naks) sent got h ks js'"
    using assms(1) by (auto simp: direction_def)
  then obtain j js where "js' = j # js" by (auto simp: direction_inv_def list_all2_Cons1)
  with d' have d: "direction_inv ts hs rs data (f # naks) sent got h ks (j # js)" by simp
  then have "direction_inv ts hs rs data naks sent got h ks js" by (auto simp: direction_inv_def)
  then show "direction ts hs rs data naks sent got" unfolding direction_def by blast
  let ?n = "length sent"
  assume s: "fst (snd f) \<noteq> ts" and r: "resend e (fst (snd f)) = (e', fs)"
  have j: "h \<le> j" "j \<le> length got" "length got \<le> ?n" "?n \<le> h + 8"
    using d by (auto simp: direction_inv_def)
  from resend_direction [OF d e s] r have e': "e' = e\<lparr>hist := drop j sent\<rparr>" "fs = rtx (seq_of j) (drop j sent)"
    by simp_all
  have data: "list_all2 (carries sent) (data @ fs) (ks @ [j..<?n])"
    using d rtx_carries [of j sent] j by (intro list_all2_appendI) (simp_all add: direction_inv_def e'(2))
  have below: "\<forall>k \<in> set ks. k < ?n"
    using d by (auto simp: direction_inv_def carries_def dest!: list_all2_in_set2)
  have "sorted_wrt (\<lambda>k k'. k \<le> k' + 7) [j..<?n]"
    by (rule sorted_wrt_mono_rel [OF _ sorted_wrt_upt]) simp
  then have order: "sorted_wrt (\<lambda>k k'. k \<le> k' + 7) (ks @ [j..<?n])"
    using d below j by (fastforce simp: direction_inv_def sorted_wrt_append)
  have "direction_inv ts (drop j sent) rs (data @ fs) naks sent got j (ks @ [j..<?n]) js"
    using d j data order by (auto simp: direction_inv_def)
  then have "direction ts (hist e') rs (data @ fs) naks sent got"
    unfolding direction_def e'(1) by (simp, blast)
  moreover have "seq_ok (fst (snd g)) \<and> snd (snd g) \<in> set sent" if "g \<in> set fs" for g
  proof -
    from that rtx_carries [of j sent] j obtain k where "carries sent g k"
      unfolding e'(2) by (auto simp: list_all2_conv_all_nth in_set_conv_nth)
    then show ?thesis by (auto simp: carries_def)
  qed
  ultimately show "txs e' = ts \<and> conn e' = conn e \<and> rxs e' = rxs e \<and> (\<forall>g \<in> set fs. fst g = SFP_FRAME_RTX)
      \<and> (\<forall>g \<in> set fs. seq_ok (fst (snd g)) \<and> snd (snd g) \<in> set sent)
      \<and> direction ts (hist e') rs (data @ fs) naks sent got"
    using e by (auto simp: e'(1)) (auto simp: e'(2) dest: is_data_rtx)
qed

text \<open>Frames are lost.\<close>

lemma list_all2_remove:
  assumes "list_all2 P (xs @ x # ys) ks"
  obtains us k vs where "ks = us @ k # vs" "list_all2 P (xs @ ys) (us @ vs)"
proof -
  from assms obtain us k vs where "ks = us @ k # vs" "list_all2 P xs us" "list_all2 P ys vs"
    by (auto simp: list_all2_append1 list_all2_Cons1)
  then show thesis by (intro that [of us k vs]) (auto intro: list_all2_appendI)
qed

lemma direction_lose:
  "direction ts hs rs (xs @ x # ys) naks sent got \<Longrightarrow> direction ts hs rs (xs @ ys) naks sent got"
  "direction ts hs rs data (xs @ x # ys) sent got \<Longrightarrow> direction ts hs rs data (xs @ ys) sent got"
proof -
  assume "direction ts hs rs (xs @ x # ys) naks sent got"
  then obtain h ks js where d: "direction_inv ts hs rs (xs @ x # ys) naks sent got h ks js"
    by (auto simp: direction_def)
  then have "list_all2 (carries sent) (xs @ x # ys) ks" by (simp add: direction_inv_def)
  then obtain us k vs where "ks = us @ k # vs" "list_all2 (carries sent) (xs @ ys) (us @ vs)"
    by (rule list_all2_remove)
  with d have "direction_inv ts hs rs (xs @ ys) naks sent got h (us @ vs) js"
    by (auto simp: direction_inv_def sorted_wrt_append)
  then show "direction ts hs rs (xs @ ys) naks sent got" unfolding direction_def by blast
next
  assume "direction ts hs rs data (xs @ x # ys) sent got"
  then obtain h ks js where d: "direction_inv ts hs rs data (xs @ x # ys) sent got h ks js"
    by (auto simp: direction_def)
  then have "list_all2 requests (xs @ x # ys) js" by (simp add: direction_inv_def)
  then obtain us k vs where "js = us @ k # vs" "list_all2 requests (xs @ ys) (us @ vs)"
    by (rule list_all2_remove)
  with d have "direction_inv ts hs rs data (xs @ ys) sent got h ks (us @ vs)"
    by (auto simp: direction_inv_def sorted_append)
  then show "direction ts hs rs data (xs @ ys) sent got" unfolding direction_def by blast
qed

section \<open>Both directions\<close>

text \<open>
  What holds of one endpoint \<open>e\<close>, its peer \<open>p\<close>, the channel from it and the channel to it.
\<close>

definition half :: "endpoint \<Rightarrow> endpoint \<Rightarrow> frame list \<Rightarrow> frame list \<Rightarrow> u8 list list \<Rightarrow> u8 list list \<Rightarrow> bool" where
  "half e p out inc sent got \<longleftrightarrow>
     conn e = SFP_CONNECT_STATE_CONNECTED \<and> seq_ok (rxs e)
     \<and> (\<forall>f \<in> set out. frame_ok f \<and> (is_data f \<or> is_nak f))
     \<and> (\<forall>bs \<in> set sent. length bs \<le> max_payload)
     \<and> direction (txs e) (hist e) (rxs p) (filter is_data out) (filter is_nak inc) sent got"

lemma data_not_nak [simp]: "is_data f \<Longrightarrow> \<not> is_nak f" "is_nak f \<Longrightarrow> \<not> is_data f"
  by (auto simp: is_data_def is_nak_def)

lemma kinds [simp]: "is_nak (NAK s)" "is_data (USR s bs)" "\<not> is_nak (USR s bs)" "\<not> is_data (NAK s)"
  by (simp_all add: is_data_def is_nak_def)

lemma half_send:
  assumes "half e p out inc sent got" and "half p e inc out sent' got'"
    and "window_open (txs e) (rxs p) (filter is_nak inc)" and "length bs \<le> max_payload"
    and "on_send e bs = (e', fs)"
  shows "half e' p (out @ fs) inc (sent @ [bs]) got" and "half p e' inc (out @ fs) sent' got'"
proof -
  have e': "e' = e\<lparr>hist := drop (Suc (length (hist e)) - SFP_CONFIG_HISTORY_CAPACITY) (hist e @ [bs]),
        txs := nextSeq (txs e)\<rparr>" "fs = [USR (txs e) bs]"
    using assms(5) by (simp_all add: on_send_def)
  have "seq_ok (txs e)"
    using assms(1) by (auto simp: half_def direction_def direction_inv_def)
  then show "half e' p (out @ fs) inc (sent @ [bs]) got"
    using assms(1,4) direction_send [OF _ assms(3), of "hist e" "filter is_data out" sent got bs]
    by (auto simp: half_def e')
  show "half p e' inc (out @ fs) sent' got'"
    using assms(2) by (simp add: half_def e')
qed

lemma half_damaged:
  assumes "half e p (f # out) inc sent got" and "half p e inc (f # out) sent' got'"
  shows "half e p out (inc @ [NAK (rxs p)]) sent got" and "half p e (inc @ [NAK (rxs p)]) out sent' got'"
proof -
  have "direction (txs e) (hist e) (rxs p) (filter is_data out) (filter is_nak inc) sent got"
    using assms(1) direction_lose(1) [of "txs e" "hist e" "rxs p" "[]" f] by (cases "is_data f") (auto simp: half_def)
  from direction_request [OF this] assms(1) show "half e p out (inc @ [NAK (rxs p)]) sent got"
    by (simp add: half_def)
  have "direction (txs p) (hist p) (rxs e) (filter is_data inc) (filter is_nak out) sent' got'"
    using assms(2) direction_lose(2) [of "txs p" "hist p" "rxs e" "filter is_data inc" "[]" f]
    by (cases "is_nak f") (auto simp: half_def)
  with assms(1,2) show "half p e (inc @ [NAK (rxs p)]) out sent' got'"
    by (auto simp: half_def)
qed

lemma half_lose:
  assumes "half e p (xs @ f # ys) inc sent got" and "half p e inc (xs @ f # ys) sent' got'"
  shows "half e p (xs @ ys) inc sent got" and "half p e inc (xs @ ys) sent' got'"
  using assms direction_lose(1) [of "txs e" "hist e" "rxs p" "filter is_data xs" f "filter is_data ys"]
    direction_lose(2) [of "txs p" "hist p" "rxs e" "filter is_data inc" "filter is_nak xs" f "filter is_nak ys"]
  by (cases "is_data f"; cases "is_nak f"; auto simp: half_def)+

lemma half_receive_data:
  assumes e: "half e p (f # out) inc sent got" and p: "half p e inc (f # out) sent' got'"
    and r: "on_frame p f = (p', fs, ds)" and f: "is_data f"
  shows "half e p' out (inc @ fs) sent (got @ ds)" and "half p' e (inc @ fs) out sent' got'"
proof -
  have conn: "conn p = SFP_CONNECT_STATE_CONNECTED" using p by (simp add: half_def)
  have user: "on_frame p f = on_user p (fst f = SFP_FRAME_RTX) (fst (snd f)) (snd (snd f))"
    using f by (cases f) (auto simp: is_data_def)
  have d: "direction (txs e) (hist e) (rxs p) (f # filter is_data out) (filter is_nak inc) sent got"
    using e f by (simp add: half_def)
  have other: "half p e inc out sent' got'" using p f by (simp add: half_def)
  have "half e p' out (inc @ fs) sent (got @ ds) \<and> half p' e (inc @ fs) out sent' got'"
  proof (cases "fst (snd f) = rxs p")
    case True
    with r conn have res: "p' = p\<lparr>rxs := nextSeq (rxs p)\<rparr>" "fs = []" "ds = [snd (snd f)]"
      by (simp_all add: user on_user_def)
    show ?thesis
      using e other direction_receive(1) [OF d True] by (simp add: half_def res)
  next
    case False
    note keep = direction_receive(2) [OF d False]
    show ?thesis
    proof (cases "fst f = SFP_FRAME_RTX")
      case True
      with False r conn have res: "p' = p" "fs = []" "ds = []"
        by (simp_all add: user on_user_def)
      show ?thesis using e other keep by (simp add: half_def res)
    next
      case usr: False
      with False r conn have res: "p' = p" "fs = [NAK (rxs p)]" "ds = []"
        by (auto simp: user on_user_def)
      show ?thesis
        using e other direction_request [OF keep] by (auto simp: half_def res)
    qed
  qed
  then show "half e p' out (inc @ fs) sent (got @ ds)" and "half p' e (inc @ fs) out sent' got'"
    by simp_all
qed

lemma half_receive_nak:
  assumes e: "half e p (f # out) inc sent got" and p: "half p e inc (f # out) sent' got'"
    and r: "on_frame p f = (p', fs, ds)" and f: "is_nak f"
  shows "half e p' out (inc @ fs) sent (got @ ds)" and "half p' e (inc @ fs) out sent' got'"
proof -
  have conn: "conn p = SFP_CONNECT_STATE_CONNECTED" using p by (simp add: half_def)
  have nak: "on_nak p (fst (snd f)) = (p', fs)" and ds: "ds = []"
    using f r by (cases f, auto simp: is_nak_def split: prod.splits)+
  have d: "direction (txs p) (hist p) (rxs e) (filter is_data inc) (f # filter is_nak out) sent' got'"
    using p f by (simp add: half_def)
  have out: "direction (txs e) (hist e) (rxs p) (filter is_data out) (filter is_nak inc) sent got"
    using e f by (simp add: half_def)
  have "half e p' out (inc @ fs) sent (got @ ds) \<and> half p' e (inc @ fs) out sent' got'"
  proof (cases "fst (snd f) = txs p")
    case True
    with nak conn have res: "p' = p" "fs = []" by (simp_all add: on_nak_def)
    show ?thesis using e p out direction_resend(1) [OF d refl refl True] by (simp add: half_def res ds)
  next
    case False
    with nak conn have "resend p (fst (snd f)) = (p', fs)" by (simp add: on_nak_def)
    from direction_resend(2) [OF d refl refl False this]
    have res: "txs p' = txs p" "conn p' = conn p" "rxs p' = rxs p" "\<forall>g \<in> set fs. fst g = SFP_FRAME_RTX"
      "\<forall>g \<in> set fs. seq_ok (fst (snd g)) \<and> snd (snd g) \<in> set sent'"
      "direction (txs p) (hist p') (rxs e) (filter is_data inc @ fs) (filter is_nak out) sent' got'"
      by simp_all
    have kind: "filter is_data fs = fs" "filter is_nak fs = []" "\<forall>g \<in> set fs. is_data g"
      using res(4) by (auto simp: filter_id_conv filter_empty_conv is_data_def is_nak_def)
    have "\<forall>g \<in> set fs. frame_ok g"
      using res(5) p by (auto simp: half_def frame_ok_def)
    with e p out res kind show ?thesis
      by (auto simp: half_def ds)
  qed
  then show "half e p' out (inc @ fs) sent (got @ ds)" and "half p' e (inc @ fs) out sent' got'"
    by simp_all
qed

lemma half_receive:
  assumes "half e p (f # out) inc sent got" and "half p e inc (f # out) sent' got'"
    and "on_frame p f = (p', fs, ds)"
  shows "half e p' out (inc @ fs) sent (got @ ds)" and "half p' e (inc @ fs) out sent' got'"
proof -
  have "is_data f \<or> is_nak f" using assms(1) by (simp add: half_def)
  then show "half e p' out (inc @ fs) sent (got @ ds)" "half p' e (inc @ fs) out sent' got'"
    using half_receive_data [OF assms] half_receive_nak [OF assms] by blast+
qed

section \<open>Two contexts and two lossy channels\<close>

text \<open>
  The channels carry frames. What has been written and delivered since the connection was
  made is recorded beside the two contexts.
\<close>

record 'h net =
  peer_a :: "'h sfp"
  peer_b :: "'h sfp"
  chan_ab :: "frame list"
  chan_ba :: "frame list"
  sent_a :: "u8 list list"
  got_b :: "u8 list list"
  sent_b :: "u8 list list"
  got_a :: "u8 list list"

definition flip :: "'h net \<Rightarrow> 'h net" where
  "flip n = \<lparr>peer_a = peer_b n, peer_b = peer_a n, chan_ab = chan_ba n, chan_ba = chan_ab n,
             sent_a = sent_b n, got_b = got_a n, sent_b = sent_a n, got_a = got_b n\<rparr>"

text \<open>
  The steps, for the direction from \<open>a\<close> to \<open>b\<close>: \<open>a\<close> writes a packet while its window is
  open; \<open>b\<close> is given the octets of the next frame; or octets that the frame was damaged to,
  in which no frame is recognised; or a frame is lost. What a context writes while it
  handles its input enters the channel back. The steps of the other direction are the same.
\<close>

inductive net_step :: "('h, 'z) ringbuffer_scheme \<Rightarrow> 'h net \<Rightarrow> 'h net \<Rightarrow> bool" for R where
  net_write: "length stack = SFP_CONFIG_MAX_PACKET_SIZE \<Longrightarrow> length bs \<le> SFP_CONFIG_MAX_PACKET_SIZE - SFP_CRC_SIZE \<Longrightarrow>
    window_open (tx_seq (tx (peer_a n))) (rx_seq (rx (peer_b n))) (filter is_nak (chan_ba n)) \<Longrightarrow>
    sfpWritePacket R (peer_a n) stack bs = Inr (a', outlen) \<Longrightarrow>
    net_step R n (n\<lparr>peer_a := a', chan_ab := chan_ab n @ frames_in idle (written (peer_a n) a'),
                    sent_a := sent_a n @ [bs]\<rparr>)"
| net_receive: "chan_ab n = f # fs \<Longrightarrow> deliver_octets R (peer_b n) (wire [f]) = Inr b' \<Longrightarrow>
    net_step R n (n\<lparr>peer_b := b', chan_ab := fs, chan_ba := chan_ba n @ frames_in idle (written (peer_b n) b'),
                    got_b := got_b n @ delivered (peer_b n) b'\<rparr>)"
| net_damage: "chan_ab n = f # fs \<Longrightarrow> deframe idle octets = (idle, [None]) \<Longrightarrow>
    deliver_octets R (peer_b n) octets = Inr b' \<Longrightarrow>
    net_step R n (n\<lparr>peer_b := b', chan_ab := fs, chan_ba := chan_ba n @ frames_in idle (written (peer_b n) b'),
                    got_b := got_b n @ delivered (peer_b n) b'\<rparr>)"
| net_lose: "chan_ab n = xs @ f # ys \<Longrightarrow> net_step R n (n\<lparr>chan_ab := xs @ ys\<rparr>)"
| net_other: "net_step R (flip n) (flip n') \<Longrightarrow> net_step R n n'"

inductive net_reach :: "('h, 'z) ringbuffer_scheme \<Rightarrow> 'h net \<Rightarrow> 'h net \<Rightarrow> bool" for R where
  here: "net_reach R n n"
| there: "net_reach R n n' \<Longrightarrow> net_step R n' n'' \<Longrightarrow> net_reach R n n''"

text \<open>Both connected, nothing sent yet.\<close>

definition ready :: "('h, 'z) ringbuffer_scheme \<Rightarrow> 'h sfp \<Rightarrow> bool" where
  "ready R c \<longleftrightarrow> sfp_inv R c \<and> abs_receiver c = idle \<and> deliver (rx c) \<noteq> None"

definition net_start :: "('h, 'z) ringbuffer_scheme \<Rightarrow> 'h net \<Rightarrow> bool" where
  "net_start R n \<longleftrightarrow> ready R (peer_a n) \<and> ready R (peer_b n)
     \<and> abs_endpoint R (peer_a n) = fresh_endpoint SFP_CONNECT_STATE_CONNECTED
     \<and> abs_endpoint R (peer_b n) = fresh_endpoint SFP_CONNECT_STATE_CONNECTED
     \<and> chan_ab n = [] \<and> chan_ba n = [] \<and> sent_a n = [] \<and> got_b n = [] \<and> sent_b n = [] \<and> got_a n = []"

definition net_inv :: "('h, 'z) ringbuffer_scheme \<Rightarrow> 'h net \<Rightarrow> bool" where
  "net_inv R n \<longleftrightarrow> ready R (peer_a n) \<and> ready R (peer_b n)
     \<and> half (abs_endpoint R (peer_a n)) (abs_endpoint R (peer_b n)) (chan_ab n) (chan_ba n) (sent_a n) (got_b n)
     \<and> half (abs_endpoint R (peer_b n)) (abs_endpoint R (peer_a n)) (chan_ba n) (chan_ab n) (sent_b n) (got_a n)"

lemma net_inv_flip: "net_inv R (flip n) \<longleftrightarrow> net_inv R n"
  by (auto simp: net_inv_def flip_def)

lemma net_start_inv:
  assumes "net_start R n" shows "net_inv R n"
proof -
  have "direction_inv SFP_INITIAL_SEQ [] SFP_INITIAL_SEQ [] [] [] [] 0 [] []"
    by (simp add: direction_inv_def seq_of_def)
  then have "direction SFP_INITIAL_SEQ [] SFP_INITIAL_SEQ [] [] [] []" unfolding direction_def by blast
  with assms show ?thesis
    by (simp add: net_start_def net_inv_def half_def fresh_endpoint_def)
qed

text \<open>Given any input that amounts to \<open>is\<close>, a context reacts as its endpoint.\<close>

lemma ready_runs:
  assumes "ready R c" and "deframe idle xs = (idle, is)" and "deliver_octets R c xs = Inr c'"
    and "on_inputs (abs_endpoint R c) is = (e, fs, ds)" and "\<forall>f \<in> set fs. frame_ok f"
  shows "ready R c' \<and> abs_endpoint R c' = e \<and> frames_in idle (written c c') = fs \<and> delivered c c' = ds"
proof -
  have "sfp_inv R c" "abs_receiver c = idle" "deliver (rx c) \<noteq> None"
    using assms(1) by (simp_all add: ready_def)
  with input_runs [OF _ _ assms(4), of xs idle] assms(2,3,5) show ?thesis
    by (auto simp: ready_def frames_in_wire callbacks_def)
qed

lemma half_out: "half e p out inc sent got \<Longrightarrow> f \<in> set out \<Longrightarrow> frame_ok f"
  by (auto simp: half_def)

lemma net_step_inv: "net_step R n n' \<Longrightarrow> net_inv R n \<Longrightarrow> net_inv R n'"
proof (induction rule: net_step.induct)
  case (net_write stack bs n a' outlen)
  let ?a = "peer_a n"
  obtain e fs where r: "on_send (abs_endpoint R ?a) bs = (e, fs)" by fastforce
  have bs: "length bs \<le> SFP_CONFIG_MAX_PACKET_SIZE" "length bs \<le> max_payload"
    using net_write.hyps(2) by (simp_all add: max_payload_def)
  have inv: "sfp_inv R ?a" "ready R ?a" using net_write.prems by (simp_all add: net_inv_def ready_def)
  from write_inv [OF inv(1) net_write.hyps(1) bs(1)] net_write.hyps(4)
  have a': "sfp_inv R a'" "abs_receiver a' = abs_receiver ?a" "reacts R ?a a' e fs []"
    by (auto simp: r)
  have halves: "half e (abs_endpoint R (peer_b n)) (chan_ab n @ fs) (chan_ba n) (sent_a n @ [bs]) (got_b n)"
    "half (abs_endpoint R (peer_b n)) e (chan_ba n) (chan_ab n @ fs) (sent_b n) (got_a n)"
    using net_write.prems net_write.hyps(3) half_send [OF _ _ _ bs(2) r]
    by (auto simp: net_inv_def endpoint_simps)
  have "\<forall>f \<in> set fs. frame_ok f" using half_out [OF halves(1)] by simp
  then have "frames_in idle (written ?a a') = fs"
    using reacts_seen(1) [OF a'(3)] by (simp add: frames_in_wire)
  with a' inv(2) halves net_write.prems reacts_seen(3,4) [OF a'(3)] show ?case
    by (simp add: net_inv_def ready_def callbacks_def)
next
  case (net_receive n f fs b')
  let ?b = "peer_b n"
  obtain p' gs ds where r: "on_frame (abs_endpoint R ?b) f = (p', gs, ds)" by (metis prod_cases3)
  have ea: "half (abs_endpoint R (peer_a n)) (abs_endpoint R ?b) (f # fs) (chan_ba n) (sent_a n) (got_b n)"
    and eb: "half (abs_endpoint R ?b) (abs_endpoint R (peer_a n)) (chan_ba n) (f # fs) (sent_b n) (got_a n)"
    using net_receive.prems net_receive.hyps(1) by (simp_all add: net_inv_def)
  note halves = half_receive [OF ea eb r]
  have "frame_ok f" "\<forall>g \<in> set gs. frame_ok g"
    using half_out [OF ea] half_out [OF halves(2)] by simp_all
  then have "ready R b' \<and> abs_endpoint R b' = p' \<and> frames_in idle (written ?b b') = gs \<and> delivered ?b b' = ds"
    using net_receive.prems r
    by (intro ready_runs [OF _ deframe_wire net_receive.hyps(2)]) (simp_all add: net_inv_def on_input_def)
  with halves net_receive.prems show ?case by (simp add: net_inv_def)
next
  case (net_damage n f fs octets b')
  let ?b = "peer_b n"
  have ea: "half (abs_endpoint R (peer_a n)) (abs_endpoint R ?b) (f # fs) (chan_ba n) (sent_a n) (got_b n)"
    and eb: "half (abs_endpoint R ?b) (abs_endpoint R (peer_a n)) (chan_ba n) (f # fs) (sent_b n) (got_a n)"
    using net_damage.prems net_damage.hyps(1) by (simp_all add: net_inv_def)
  note halves = half_damaged [OF ea eb]
  have "frame_ok (NAK (rxs (abs_endpoint R ?b)))" using half_out [OF halves(2), of "NAK (rxs (abs_endpoint R ?b))"] by simp
  then have "ready R b' \<and> abs_endpoint R b' = abs_endpoint R ?b
      \<and> frames_in idle (written ?b b') = [NAK (rxs (abs_endpoint R ?b))] \<and> delivered ?b b' = []"
    using net_damage.prems
    by (intro ready_runs [OF _ net_damage.hyps(2,3)]) (simp_all add: net_inv_def on_input_def)
  with halves net_damage.prems show ?case by (simp add: net_inv_def)
next
  case (net_lose n xs f ys)
  have "half (abs_endpoint R (peer_a n)) (abs_endpoint R (peer_b n)) (xs @ f # ys) (chan_ba n) (sent_a n) (got_b n)"
    "half (abs_endpoint R (peer_b n)) (abs_endpoint R (peer_a n)) (chan_ba n) (xs @ f # ys) (sent_b n) (got_a n)"
    using net_lose by (simp_all add: net_inv_def)
  from half_lose [OF this] net_lose.prems show ?case by (simp add: net_inv_def)
next
  case (net_other n n')
  then show ?case by (simp add: net_inv_flip)
qed

lemma net_reach_inv: "net_reach R n n' \<Longrightarrow> net_inv R n \<Longrightarrow> net_inv R n'"
  by (induction rule: net_reach.induct) (auto intro: net_step_inv)

lemma direction_prefix:
  "direction ts hs rs data naks sent got \<Longrightarrow> prefix got sent \<and> (ts = rs \<longrightarrow> got = sent)"
proof -
  assume "direction ts hs rs data naks sent got"
  then obtain h ks js where d: "direction_inv ts hs rs data naks sent got h ks js"
    by (auto simp: direction_def)
  then have t: "take (length got) sent = got" "length got \<le> length sent" "length sent \<le> length got + 8"
    "ts = seq_of (length sent)" "rs = seq_of (length got)" by (auto simp: direction_inv_def)
  have "got = sent" if "ts = rs"
    using that t seq_of_near [of "length sent" "length got"] by simp
  moreover have "prefix got sent" using take_is_prefix [of "length got" sent] t(1) by simp
  ultimately show ?thesis by blast
qed

text \<open>
  C2. Reliable delivery within the window: from the moment a connection stands, for clients
  that write only while \<open>window_open\<close> holds - fewer than eight packets outstanding, a
  condition that the library leaves to them and without which C28 holds -, whatever frames
  are lost or damaged on the way, in both directions at once, the packets (of at most 254
  octets) delivered by each endpoint are a prefix of the packets its peer has written: none
  is missing, repeated, reordered or invented. When an endpoint expects the number that its
  peer will use next, everything has been delivered.
\<close>

theorem reliable_delivery:
  assumes "net_start R n" and "net_reach R n n'"
  shows "prefix (got_b n') (sent_a n') \<and> prefix (got_a n') (sent_b n')
    \<and> (rx_seq (rx (peer_b n')) = tx_seq (tx (peer_a n')) \<longrightarrow> got_b n' = sent_a n')
    \<and> (rx_seq (rx (peer_a n')) = tx_seq (tx (peer_b n')) \<longrightarrow> got_a n' = sent_b n')"
proof -
  have inv: "net_inv R n'" using net_reach_inv [OF assms(2) net_start_inv [OF assms(1)]] .
  have "prefix (got_b n') (sent_a n') \<and> (tx_seq (tx (peer_a n')) = rx_seq (rx (peer_b n')) \<longrightarrow> got_b n' = sent_a n')"
    by (rule direction_prefix) (use inv in \<open>auto simp: net_inv_def half_def endpoint_simps\<close>)
  moreover have "prefix (got_a n') (sent_b n') \<and> (tx_seq (tx (peer_b n')) = rx_seq (rx (peer_a n')) \<longrightarrow> got_a n' = sent_b n')"
    by (rule direction_prefix) (use inv in \<open>auto simp: net_inv_def half_def endpoint_simps\<close>)
  ultimately show ?thesis by auto
qed

definition example_net :: "SFPpacket list net" where
  "example_net = \<lparr>peer_a = example_connected, peer_b = example_connected, chan_ab = [], chan_ba = [],
     sent_a = [], got_b = [], sent_b = [], got_a = []\<rparr>"

lemma example_net_start: "net_start list_ringbuffer example_net"
proof -
  have "abs_endpoint list_ringbuffer example_connected = fresh_endpoint SFP_CONNECT_STATE_CONNECTED"
    by (simp add: abs_endpoint_def fresh_endpoint_def)
  then show ?thesis
    using connected_inv by (simp add: net_start_def ready_def example_net_def)
qed

theorem reliable_delivery_witness:
  "\<exists>n'. net_reach list_ringbuffer example_net n' \<and> sent_a n' = [[1, 2]] \<and> prefix (got_b n') [[1, 2]]"
proof -
  let ?stack = "replicate SFP_CONFIG_MAX_PACKET_SIZE (0 :: u8)"
  have fits: "length [1, 2 :: u8] \<le> SFP_CONFIG_MAX_PACKET_SIZE - SFP_CRC_SIZE"
    "length [1, 2 :: u8] \<le> SFP_CONFIG_MAX_PACKET_SIZE" by (simp_all add: sfp_consts)
  obtain a' k where a': "sfpWritePacket list_ringbuffer (peer_a example_net) ?stack [1, 2] = Inr (a', k)"
    using write_inv [OF connected_inv _ fits(2), of ?stack] by (auto simp: example_net_def)
  have "window_open (tx_seq (tx (peer_a example_net))) (rx_seq (rx (peer_b example_net)))
      (filter is_nak (chan_ba example_net))"
    by (simp add: example_net_def window_open_def seq_dist_def) (simp add: sfp_consts)
  note step = net_write [OF length_replicate fits(1) this a']
  define n' where "n' = example_net\<lparr>peer_a := a', chan_ab := chan_ab example_net @
      frames_in idle (written (peer_a example_net) a'), sent_a := sent_a example_net @ [[1, 2]]\<rparr>"
  have n': "net_step list_ringbuffer example_net n'"
    unfolding n'_def by (rule step)
  have sent: "sent_a n' = [[1, 2]]"
    unfolding n'_def by (simp add: example_net_def)
  from n' have "net_reach list_ringbuffer example_net n'" by (rule there [OF here])
  from reliable_delivery [OF example_net_start this] sent this show ?thesis by auto
qed

section \<open>A late request\<close>

lemma in_set_tlD: "x \<in> set (tl xs) \<Longrightarrow> x \<in> set xs"
  by (cases xs) auto

lemma resend_outside:
  assumes "seq_ok (txs e)"
    and "length (hist e) \<le> (unat s + (64 - unat (txs e)) + length (hist e)) mod 64"
  shows "resend e s = (e\<lparr>txs := (nextSeq ^^ length (hist e)) s\<rparr>, rtx s (hist e))"
  using assms by (simp add: resend_def hist_from_def fastforward_nat)

lemma seqs_rtx: "f \<in> set (rtx (seq_of m) bss) \<Longrightarrow> \<exists>k. m \<le> k \<and> k < m + length bss \<and> fst (snd f) = seq_of k"
proof (induction bss arbitrary: m)
  case (Cons bs bss)
  show ?case
  proof (cases "f = RTX (seq_of m) bs")
    case False
    with Cons.prems Cons.IH [of "Suc m"] obtain k where "Suc m \<le> k" "k < Suc m + length bss" "fst (snd f) = seq_of k"
      by auto
    then show ?thesis by (intro exI [of _ k]) auto
  qed (auto intro: exI [of _ m])
qed simp

lemma ignored_retransmissions:
  "conn e = SFP_CONNECT_STATE_CONNECTED \<Longrightarrow> \<forall>f \<in> set fs. fst f = SFP_FRAME_RTX \<and> fst (snd f) \<noteq> rxs e \<Longrightarrow>
   on_inputs e (map Some fs) = (e, [], [])"
proof (induction fs)
  case (Cons f fs)
  then have "on_frame e f = (e, [], [])" by (cases f) (auto simp: on_user_def)
  with Cons show ?case by (simp add: on_input_def)
qed simp

text \<open>A request outside the window is answered by the whole history, from the requested number on.\<close>

lemma underrun_run:
  assumes "sfp_inv R c" and "abs_receiver c = idle"
    and e: "abs_endpoint R c = \<lparr>conn = SFP_CONNECT_STATE_CONNECTED, rxs = r, txs = t, hist = h\<rparr>"
    and "t \<noteq> s" and "seq_ok s" and "seq_ok t" and "length h \<le> (unat s + (64 - unat t) + length h) mod 64"
  obtains c' where "deliver_octets R c (wire [NAK s]) = Inr c'" "sfp_inv R c'" "abs_receiver c' = idle"
    "written c c' = wire (rtx s h)"
    "abs_endpoint R c' = \<lparr>conn = SFP_CONNECT_STATE_CONNECTED, rxs = r, txs = (nextSeq ^^ length h) s, hist = h\<rparr>"
proof -
  have "on_inputs (abs_endpoint R c) (map Some [NAK s])
      = (\<lparr>conn = SFP_CONNECT_STATE_CONNECTED, rxs = r, txs = (nextSeq ^^ length h) s, hist = h\<rparr>, rtx s h, [])"
    using resend_outside [of "abs_endpoint R c" s] assms(4,6,7) by (simp add: e on_input_def on_nak_def)
  from frames_run [OF assms(1,2) _ this] assms(5) that show ?thesis by auto
qed

lemma small_seqs: "seq_of 0 = 0" "seq_of 8 = 8" "seq_of 9 = 9" "seq_of 11 = 11" "unat (9 :: u8) = 9"
  by (rule word_unat_eq_iff [THEN iffD2], simp add: unat_seq_of)+ simp

lemma stale_retransmissions:
  assumes "length ps = 8" and "f \<in> set (rtx 0 ps)"
  shows "fst f = SFP_FRAME_RTX \<and> fst (snd f) \<noteq> 11"
proof -
  from assms seqs_rtx [of f 0 ps] small_seqs(1) obtain m where "m < 8" "fst (snd f) = seq_of m" by auto
  then have "fst (snd f) \<noteq> seq_of 11" using seq_of_near [of m 11] by simp
  with assms(2) is_data_rtx small_seqs(4) show ?thesis by simp
qed

text \<open>
  C28. The second half of the window condition is needed. After eleven packets were sent and
  received, a request for the first one that is still under way (the receiver answers every
  frame that arrives out of order, so one loss causes several) reaches the sender, whose
  history begins with the fourth: the sender renumbers its history, and with the next
  packet it writes the receiver is given seven packets a second time.
\<close>

theorem late_request_duplicates:
  fixes ps :: "u8 list list"
  assumes "length ps = 8" and "\<forall>bs \<in> set (ps @ [new]). length bs \<le> SFP_CONFIG_MAX_PACKET_SIZE - SFP_CRC_SIZE"
    and "length stack = SFP_CONFIG_MAX_PACKET_SIZE"
  shows "\<exists>a1 b1 a2 k b2 a3 b3.
      deliver_octets list_ringbuffer (example_session ps 11 0) (wire [NAK 0]) = Inr a1
    \<and> deliver_octets list_ringbuffer (example_session [] 0 11) (written (example_session ps 11 0) a1) = Inr b1
    \<and> sfpWritePacket list_ringbuffer a1 stack new = Inr (a2, k)
    \<and> deliver_octets list_ringbuffer b1 (written a1 a2) = Inr b2
    \<and> deliver_octets list_ringbuffer a2 (written b1 b2) = Inr a3
    \<and> deliver_octets list_ringbuffer b2 (written a2 a3) = Inr b3
    \<and> delivered b2 b3 = tl ps @ [new]"
proof -
  let ?R = list_ringbuffer
  let ?a = "example_session ps 11 0" and ?b = "example_session [] 0 11"
  have ok: "seq_ok 0" "seq_ok 11" "seq_ok 8" "seq_ok 9" by (simp_all add: seq_ok_unat)
  have fits: "\<forall>bs \<in> set ps. length bs \<le> max_payload" "length new \<le> max_payload" 
    "length new \<le> SFP_CONFIG_MAX_PACKET_SIZE" "\<forall>bs \<in> set (tl ps @ [new]). length bs \<le> max_payload"
    using assms(2) by (auto simp: max_payload_def dest: in_set_tlD)
  have inv: "sfp_inv ?R ?a" "sfp_inv ?R ?b"
    using fits(1) assms(1) ok by (auto intro!: session_inv simp: sfp_consts max_payload_def)
  have ea: "abs_endpoint ?R ?a = \<lparr>conn = SFP_CONNECT_STATE_CONNECTED, rxs = 0, txs = 11, hist = ps\<rparr>"
    and eb: "abs_endpoint ?R ?b = \<lparr>conn = SFP_CONNECT_STATE_CONNECTED, rxs = 11, txs = 0, hist = []\<rparr>"
    by (simp_all add: abs_endpoint_def comp_def)
  have "(nextSeq ^^ 8) 0 = (8 :: u8)" using seq_of_add [of 8 0] small_seqs(1,2) by simp
  then obtain a1 where a1: "deliver_octets ?R ?a (wire [NAK 0]) = Inr a1"
      "sfp_inv ?R a1" "abs_receiver a1 = idle" "written ?a a1 = wire (rtx 0 ps)"
      "abs_endpoint ?R a1 = \<lparr>conn = SFP_CONNECT_STATE_CONNECTED, rxs = 0, txs = 8, hist = ps\<rparr>"
    using underrun_run [OF inv(1) _ ea, of 0] ok assms(1) by auto
  have "on_inputs (abs_endpoint ?R ?b) (map Some (rtx 0 ps)) = (abs_endpoint ?R ?b, [], [])"
    using stale_retransmissions [OF assms(1)] by (intro ignored_retransmissions) (auto simp: eb)
  from frames_run [OF inv(2) _ rtx_frames_ok [OF ok(1) fits(1)] this]
  obtain b1 where b1: "deliver_octets ?R ?b (wire (rtx 0 ps)) = Inr b1" "sfp_inv ?R b1"
      "abs_receiver b1 = idle" "abs_endpoint ?R b1 = abs_endpoint ?R ?b" "callbacks b1 = callbacks ?b"
    by auto
  obtain a2 k where a2: "sfpWritePacket ?R a1 stack new = Inr (a2, k)" "sfp_inv ?R a2" "abs_receiver a2 = idle"
      "written a1 a2 = wire [USR 8 new]"
      "abs_endpoint ?R a2 = \<lparr>conn = SFP_CONNECT_STATE_CONNECTED, rxs = 0, txs = 9, hist = tl ps @ [new]\<rparr>"
    using write_inv [OF a1(2) assms(3) fits(3)] reacts_seen(1,3) a1(3) small_seqs(2,3) seq_of_Suc [of 8] assms(1)
    by (fastforce simp: a1(5) on_send_def sfp_consts drop_Suc)
  have "on_inputs (abs_endpoint ?R b1) (map Some [USR 8 new]) = (abs_endpoint ?R ?b, [NAK 11], [])"
    by (simp add: b1(4) eb on_input_def on_user_def)
  from frames_run [OF b1(2,3) _ this] ok fits(2) obtain b2 where
      b2: "deliver_octets ?R b1 (wire [USR 8 new]) = Inr b2" "sfp_inv ?R b2" "abs_receiver b2 = idle"
      "abs_endpoint ?R b2 = abs_endpoint ?R ?b" "written b1 b2 = wire [NAK 11]" "callbacks b2 = callbacks ?b"
    using b1(5) by auto
  obtain a3 where a3: "deliver_octets ?R a2 (wire [NAK 11]) = Inr a3" "written a2 a3 = wire (rtx 11 (tl ps @ [new]))"
    using underrun_run [OF a2(2,3,5), of 11] ok small_seqs(5) assms(1) by auto
  have "on_inputs (abs_endpoint ?R b2) (map Some (rtx 11 (tl ps @ [new])))
      = ((abs_endpoint ?R ?b)\<lparr>rxs := (nextSeq ^^ length (tl ps @ [new])) 11\<rparr>, [], tl ps @ [new])"
    using receives(2) [of "abs_endpoint ?R ?b" "tl ps @ [new]"] by (simp add: b2(4) eb)
  from frames_run [OF b2(2,3) rtx_frames_ok [OF ok(2) fits(4)] this]
  obtain b3 where "deliver_octets ?R b2 (wire (rtx 11 (tl ps @ [new]))) = Inr b3" "delivered b2 b3 = tl ps @ [new]"
    using b2(6) by (auto simp: callbacks_def)
  with a1(1,4) b1(1) a2(1,4) b2(1,5) a3 show ?thesis by metis
qed

theorem late_request_duplicates_witness:
  "\<exists>a1 b1 a2 k b2 a3 b3.
      deliver_octets list_ringbuffer (example_session [[3], [4], [5], [6], [7], [8], [9], [10]] 11 0) (wire [NAK 0]) = Inr a1
    \<and> sfpWritePacket list_ringbuffer a1 (replicate SFP_CONFIG_MAX_PACKET_SIZE 0) [11] = Inr (a2, k)
    \<and> deliver_octets list_ringbuffer b1 (written a1 a2) = Inr b2
    \<and> deliver_octets list_ringbuffer b2 (written a2 a3) = Inr b3
    \<and> delivered b2 b3 = [[4], [5], [6], [7], [8], [9], [10], [11]]"
proof -
  let ?ps = "[[3], [4], [5], [6], [7], [8], [9], [10]] :: u8 list list"
  have "length ?ps = 8" "\<forall>bs \<in> set (?ps @ [[11]]). length bs \<le> SFP_CONFIG_MAX_PACKET_SIZE - SFP_CRC_SIZE"
    by (simp_all add: sfp_consts)
  from late_request_duplicates [OF this length_replicate] show ?thesis
    unfolding list.sel(3) append.simps by blast
qed

end
