(* ===== verification/Sfp_Handlers.thy ===== *)
theory Sfp_Handlers
  imports Sfp_Session
begin

text \<open>
  Calls that come while \<^verbatim>\<open>sfpDeliverOctet\<close> is at work, at a moment when the transmitter is
  not locked: a deliver callback that calls the library again, as the echo test's does, and
  (in \<open>Sfp_Threads\<close>) a thread that sends while another receives. A packet sent there is as
  good as one sent after or before; a connection made there is not.
\<close>

section \<open>The transmitter and the receiver are apart\<close>

definition mapR :: "('a \<Rightarrow> 'b) \<Rightarrow> 'a res \<Rightarrow> 'b res" where
  "mapR f m = bindR m (\<lambda>x. Inr (f x))"

lemma mapR_simps [simp]: "mapR f (Inr x) = Inr (f x)" "mapR f (Inl e) = Inl e"
  by (simp_all add: mapR_def)

lemma mapR_bind: "mapR f (bindR m g) = bindR m (\<lambda>x. mapR f (g x))"
  by (cases m) simp_all

lemma bind_mapR: "bindR (mapR f m) g = bindR m (\<lambda>x. g (f x))"
  by (cases m) simp_all

lemmas mapR_rules = mapR_bind bind_mapR bindR_assoc

lemma foldR_mapR:
  assumes "\<And>s x. f (h s) x = mapR h (f s x)"
  shows "foldR f xs (h s) = mapR h (foldR f xs s)"
  by (induction xs arbitrary: s) (simp_all add: assms mapR_rules)

text \<open>
  The same transmitter with another receiver and a longer past. What the transmitter does
  is the same there.
\<close>

definition beside :: "SFPreceiver \<Rightarrow> event list \<Rightarrow> 'h sfp \<Rightarrow> 'h sfp" where
  "beside r es c = c\<lparr>rx := r, trace := es @ trace c\<rparr>"

abbreviation beside1 :: "SFPreceiver \<Rightarrow> event list \<Rightarrow> 'h sfp \<times> 'n \<Rightarrow> 'h sfp \<times> 'n" where
  "beside1 r es \<equiv> \<lambda>x. (beside r es (fst x), snd x)"

lemma beside_simps [simp]:
  "tx (beside r es c) = tx c" "rx (beside r es c) = r" "connectState (beside r es c) = connectState c"
  "trace (beside r es c) = es @ trace c"
  "(beside r es c)\<lparr>tx := t\<rparr> = beside r es (c\<lparr>tx := t\<rparr>)"
  "(beside r es c)\<lparr>trace := es @ ts\<rparr> = beside r es (c\<lparr>trace := ts\<rparr>)"
  by (simp_all add: beside_def)

lemma flush_beside: "sfpFlushWriteBuffer (beside r es c) = mapR (beside r es) (sfpFlushWriteBuffer c)"
  by (simp add: sfpFlushWriteBuffer_def beside_def split: option.split)

lemma buffered_beside: "sfpBufferedWrite (beside r es c) x = mapR (beside1 r es) (sfpBufferedWrite c x)"
  by (simp add: sfpBufferedWrite_def assertR_def flush_beside mapR_rules cong: bindR_cong)

lemma no_crc_beside: "sfpWriteNoCRC (beside r es c) x = mapR (beside1 r es) (sfpWriteNoCRC c x)"
  by (simp add: sfpWriteNoCRC_def buffered_beside mapR_rules split_beta cong: bindR_cong)

lemma write_beside: "sfpWrite (beside r es c) x = mapR (beside1 r es) (sfpWrite c x)"
  by (simp add: sfpWrite_def no_crc_beside)

lemma counted_beside:
  assumes "\<And>c x. put (beside r es c) x = mapR (beside1 r es) (put c x)"
  shows "counted put (beside r es c, n) x = mapR (beside1 r es) (counted put (c, n) x)"
  by (simp add: counted_def assms mapR_rules split_beta cong: bindR_cong)

lemmas counted_besides =
  counted_beside [where put = sfpBufferedWrite, OF buffered_beside]
  counted_beside [where put = sfpWriteNoCRC, OF no_crc_beside]
  counted_beside [where put = sfpWrite, OF write_beside]

lemma frame_beside:
  "sfpTransmitFrameWithHeader (beside r es c) hdr pkt = mapR (beside1 r es) (sfpTransmitFrameWithHeader c hdr pkt)"
proof -
  have payload: "foldR (\<lambda>s i. bindR (array_get b i) (counted sfpWrite s)) js (beside r es (fst s), snd s)
      = mapR (beside1 r es) (foldR (\<lambda>s i. bindR (array_get b i) (counted sfpWrite s)) js s)"
    for b js and s :: "'a sfp \<times> nat"
    by (rule foldR_mapR) (simp add: counted_besides mapR_rules cong: bindR_cong)
  let ?crc = "\<lambda>p i. bindR (counted sfpWriteNoCRC (fst p) (ucast (snd p AND 255))) (\<lambda>s. Inr (s, drop_bit 8 (snd p)))"
  have check: "foldR ?crc js ((beside r es (fst (fst s)), snd (fst s)), snd s)
      = mapR (\<lambda>s. ((beside r es (fst (fst s)), snd (fst s)), snd s)) (foldR ?crc js s)"
    for js :: "nat list" and s :: "('a sfp \<times> nat) \<times> u16"
    by (rule foldR_mapR) (simp add: counted_besides mapR_rules split_beta cong: bindR_cong)
  have check': "foldR ?crc js ((beside r es (fst s), snd s), n)
      = mapR (\<lambda>s. ((beside r es (fst (fst s)), snd (fst s)), snd s)) (foldR ?crc js (s, n))"
    for js :: "nat list" and s :: "'a sfp \<times> nat" and n :: u16
    using check [of js "(s, n)"] by simp
  show ?thesis
    by (cases pkt) (simp_all add: sfpTransmitFrameWithHeader_def counted_besides payload check' flush_beside
        mapR_rules Let_def case_prod_unfold cong: bindR_cong)
qed

lemma lock_beside:
  "sfpLockTransmitter (beside r es c) = beside r es (sfpLockTransmitter c)"
  "sfpUnlockTransmitter (beside r es c) = beside r es (sfpUnlockTransmitter c)"
  by (simp_all add: sfpLockTransmitter_def sfpUnlockTransmitter_def sfpIsTransmitterLockable_def)

lemma packet_beside:
  "sfpWritePacket R (beside r es c) stack bs = mapR (beside1 r es) (sfpWritePacket R c stack bs)"
  by (simp add: sfpWritePacket_def assertR_def lock_beside sfpTransmitUSR_def sfpTransmitFrameImpl_def Let_def
      frame_beside mapR_rules case_prod_unfold cong: bindR_cong)

section \<open>The library with calls in its midst\<close>

text \<open>
  \<^verbatim>\<open>sfpHandleUSR\<close> releases the transmitter's lock when it knows the connection to stand:
  \<open>other\<close> is what another thread does then. \<open>D\<close> is what the deliver callback does to the
  context, when its call has been recorded.
\<close>

definition sfpCallDeliver_with :: "('h sfp \<Rightarrow> 'h sfp res) \<Rightarrow> 'h sfp \<Rightarrow> 'h sfp res" where
  "sfpCallDeliver_with D c =
     (case deliver (rx c) of
        None \<Rightarrow> Inr c
      | Some f \<Rightarrow> D (c\<lparr>trace := trace c @ [Deliver_call f (payload (packet (rx c))) (deliverData (rx c))]\<rparr>))"

definition sfpHandleUSR_connected :: "('h sfp \<Rightarrow> 'h sfp res) \<Rightarrow> 'h sfp \<Rightarrow> ('h sfp \<times> int) res" where
  "sfpHandleUSR_connected D c =
     (let seq = getFrameSeq (header (rx c))
      in if seq \<noteq> rx_seq (rx c)
         then (let type = getFrameType (header (rx c))
               in if SFP_FRAME_USR = type
                  then bindR (TransmitterLock (\<lambda>c. sfpTransmitNAK c (rx_seq (rx c))) c) (\<lambda>c. Inr (c, 0))
                  else Inr (c, 0))
         else bindR (sfpCallDeliver_with D c)
                (\<lambda>c. Inr (c\<lparr>rx := (rx c)\<lparr>rx_seq := nextSeq (rx_seq (rx c))\<rparr>\<rparr>, 1)))"

definition sfpHandleUSR_with ::
  "('h sfp \<Rightarrow> 'h sfp res) \<Rightarrow> ('h sfp \<Rightarrow> 'h sfp res) \<Rightarrow> 'h sfp \<Rightarrow> ('h sfp \<times> int) res" where
  "sfpHandleUSR_with other D c =
     assertR (getFrameType (header (rx c)) = SFP_FRAME_USR
              \<or> getFrameType (header (rx c)) = SFP_FRAME_RTX)
     (bindR (sfpHandleUSR_unconnected c)
     (\<lambda>(c, returned).
        if returned then Inr (c, 0) else bindR (other c) (sfpHandleUSR_connected D)))"

definition sfpHandleFrame_with ::
  "('h, 'z) ringbuffer_scheme \<Rightarrow> ('h sfp \<Rightarrow> 'h sfp res) \<Rightarrow> ('h sfp \<Rightarrow> 'h sfp res)
    \<Rightarrow> 'h sfp \<Rightarrow> ('h sfp \<times> int) res" where
  "sfpHandleFrame_with R other D c =
     (if len (packet (rx c)) < SFP_CRC_SIZE
      then bindR (TransmitterLock (\<lambda>c. sfpTransmitNAK c (rx_seq (rx c))) c) (\<lambda>c. Inr (c, 0))
      else
        (let p = packet (rx c);
             c = c\<lparr>rx := (rx c)\<lparr>packet := p\<lparr>len := len p - SFP_CRC_SIZE\<rparr>\<rparr>\<rparr>
         in if SFP_CRC_GOOD \<noteq> rx_crc (rx c)
            then bindR (TransmitterLock (\<lambda>c. sfpTransmitNAK c (rx_seq (rx c))) c) (\<lambda>c. Inr (c, 0))
            else
              (case getFrameType (header (rx c)) of
                 SFP_FRAME_USR \<Rightarrow> sfpHandleUSR_with other D c
               | SFP_FRAME_RTX \<Rightarrow> sfpHandleUSR_with other D c
               | SFP_FRAME_NAK \<Rightarrow> bindR (TransmitterLock (sfpHandleNAK R) c) (\<lambda>c. Inr (c, 0))
               | SFP_FRAME_SYN \<Rightarrow> bindR (TransmitterLock (sfpHandleSYN R) c) (\<lambda>c. Inr (c, 0)))))"

text \<open>\<^verbatim>\<open>sfpDeliverOctet\<close> without a buffer, as the clients use it.\<close>

definition deliver_octet_with ::
  "('h, 'z) ringbuffer_scheme \<Rightarrow> ('h sfp \<Rightarrow> 'h sfp res) \<Rightarrow> ('h sfp \<Rightarrow> 'h sfp res)
    \<Rightarrow> 'h sfp \<Rightarrow> u8 \<Rightarrow> 'h sfp res" where
  "deliver_octet_with R other D c octet =
     (if SFP_FLAG = octet then
        bindR (if SFP_FRAME_STATE_RECEIVING = frameState (rx c) then sfpHandleFrame_with R other D c
               else Inr (c, 0))
        (\<lambda>(c, rc). let c = sfpResetReceiver c in assertR (rc \<noteq> -1) (Inr c))
      else deliver_octet R c octet)"

text \<open>With nothing going on in its midst it is the library of \<open>Sfp_Receiver\<close>.\<close>

lemma sfpHandleUSR_with_none: "sfpHandleUSR_with Inr Inr = sfpHandleUSR"
  by (rule ext) (auto simp: sfpHandleUSR_with_def sfpHandleUSR_connected_def sfpHandleUSR_def sfpCallDeliver_with_def sfpCallDeliver_def Let_def
      split: option.split intro!: arg_cong2 [where f = assertR] bindR_cong)

lemma sfpHandleFrame_with_none: "sfpHandleFrame_with R Inr Inr = sfpHandleFrame R"
  by (rule ext) (simp only: sfpHandleFrame_with_def sfpHandleFrame_def sfpHandleUSR_with_none)

lemma with_none: "deliver_octet_with R Inr Inr c octet = deliver_octet R c octet"
  by (simp add: deliver_octet_with_def deliver_octet_def sfpDeliverOctet_def sfpHandleFrame_with_none
      mapR_rules case_prod_unfold Let_def cong: bindR_cong)

section \<open>Packets sent in its midst\<close>

fun is_write :: "call \<Rightarrow> bool" where
  "is_write (CallWrite stack bs) \<longleftrightarrow> True"
| "is_write call \<longleftrightarrow> False"

lemma writes_beside:
  assumes "\<forall>call \<in> set calls. is_write call"
  shows "run_calls R (beside r es c) calls = mapR (beside r es) (run_calls R c calls)"
  using assms unfolding run_calls_def
proof (induction calls arbitrary: c)
  case (Cons call calls)
  then show ?case
    by (cases call) (simp_all add: packet_beside mapR_rules case_prod_unfold cong: bindR_cong)
qed simp

lemma beside_self [simp]: "beside (rx c) [] c = c"
  by (simp add: beside_def)

lemma beside_beside [simp]: "beside r es (beside r' es' c) = beside r (es @ es') c"
  by (simp add: beside_def)

text \<open>Packets that are sent do not touch the receiver, and do not look at it.\<close>

lemma writes_rx:
  assumes "\<forall>call \<in> set calls. is_write call" and "run_calls R c calls = Inr c'"
  shows "rx c' = rx c"
proof -
  have "c' = beside (rx c) [] c'" using writes_beside [OF assms(1), of R "rx c" "[]" c] assms(2) by simp
  then show ?thesis by (metis beside_simps(2))
qed

lemma writes_rx_upd:
  assumes "\<forall>call \<in> set calls. is_write call"
  shows "run_calls R (c\<lparr>rx := r\<rparr>) calls = mapR (\<lambda>c. c\<lparr>rx := r\<rparr>) (run_calls R c calls)"
proof -
  have "beside r [] d = d\<lparr>rx := r\<rparr>" for d :: "'a sfp" by (simp add: beside_def)
  with writes_beside [OF assms, of R r "[]" c] show ?thesis by (simp add: mapR_def)
qed

text \<open>What \<^verbatim>\<open>sfpDeliverOctet\<close> does when the callback has returned.\<close>

definition accepted :: "'h sfp \<Rightarrow> 'h sfp" where
  "accepted c = sfpResetReceiver (c\<lparr>rx := (rx c)\<lparr>rx_seq := nextSeq (rx_seq (rx c))\<rparr>\<rparr>)"

lemma trace_accepted [simp]: "trace (accepted c) = trace c"
  by (simp add: accepted_def sfpResetReceiver_def)

lemma accepted_rx:
  fixes c :: "'h sfp"
  shows "\<exists>r. accepted c = c\<lparr>rx := r\<rparr> \<and> (\<forall>d :: 'h sfp. rx d = rx c \<longrightarrow> accepted d = d\<lparr>rx := r\<rparr>)"
  by (auto simp: accepted_def sfpResetReceiver_def)

lemma unconnected_returns:
  assumes "sfpHandleUSR_unconnected c = Inr (c', returned)"
  shows "\<not> returned \<Longrightarrow> c' = sfpUnlockTransmitter (sfpLockTransmitter c) \<and> connectState c = SFP_CONNECT_STATE_CONNECTED"
  using assms by (auto simp: sfpHandleUSR_unconnected_def Let_def bindR_eq_Inr split: SFPconnectstate.splits)

text \<open>The moment of a delivery: no lock is held, and the packet is the only thing delivered.\<close>

definition at_delivery :: "'h sfp \<Rightarrow> 'h sfp \<Rightarrow> bool" where
  "at_delivery c c1 \<longleftrightarrow> (\<exists>n \<le> len (packet (rx c)). c1 = sfpUnlockTransmitter (sfpLockTransmitter
     (c\<lparr>rx := (rx c)\<lparr>packet := (packet (rx c))\<lparr>len := n\<rparr>\<rparr>\<rparr>)))"

lemma frame_with_cases:
  obtains (other) "sfpHandleFrame_with R Inr D c = sfpHandleFrame R c"
    "\<And>c' ret. sfpHandleFrame R c = Inr (c', ret) \<Longrightarrow> ret = 0"
  | (delivery) c1 where "at_delivery c c1"
    "\<And>D. sfpHandleFrame_with R Inr D c = bindR (sfpCallDeliver_with D c1)
      (\<lambda>c. Inr (c\<lparr>rx := (rx c)\<lparr>rx_seq := nextSeq (rx_seq (rx c))\<rparr>\<rparr>, 1))"
proof -
  let ?p = "packet (rx c)"
  let ?c = "c\<lparr>rx := (rx c)\<lparr>packet := ?p\<lparr>len := len ?p - SFP_CRC_SIZE\<rparr>\<rparr>\<rparr>"
  consider (bad) "len ?p < SFP_CRC_SIZE \<or> SFP_CRC_GOOD \<noteq> rx_crc (rx c)"
    | (control) "\<not> len ?p < SFP_CRC_SIZE" "SFP_CRC_GOOD = rx_crc (rx c)"
        "getFrameType (header (rx c)) \<in> {SFP_FRAME_NAK, SFP_FRAME_SYN}"
    | (user) "\<not> len ?p < SFP_CRC_SIZE" "SFP_CRC_GOOD = rx_crc (rx c)"
        "getFrameType (header (rx c)) \<in> {SFP_FRAME_USR, SFP_FRAME_RTX}"
    by (cases "getFrameType (header (rx c))") auto
  then show thesis
  proof cases
    case bad
    then show ?thesis
      by (intro other) (auto simp: sfpHandleFrame_with_def sfpHandleFrame_def Let_def bindR_eq_Inr split: if_splits)
  next
    case control
    then show ?thesis
      by (intro other) (auto simp: sfpHandleFrame_with_def sfpHandleFrame_def Let_def bindR_eq_Inr)
  next
    case user
    then have frame: "sfpHandleFrame_with R Inr D c = sfpHandleUSR_with Inr D ?c" "sfpHandleFrame R c = sfpHandleUSR ?c" for D
      by (auto simp: sfpHandleFrame_with_def sfpHandleFrame_def Let_def)
    have type: "getFrameType (header (rx ?c)) = SFP_FRAME_USR \<or> getFrameType (header (rx ?c)) = SFP_FRAME_RTX"
      using user(3) by auto
    show ?thesis
    proof (cases "sfpHandleUSR_unconnected ?c")
      case (Inl e)
      with type show ?thesis by (intro other) (simp_all add: frame sfpHandleUSR_with_def sfpHandleUSR_def)
    next
      case (Inr x)
      then obtain c1 returned where r: "sfpHandleUSR_unconnected ?c = Inr (c1, returned)" by (cases x) auto
      show ?thesis
      proof (cases "returned \<or> getFrameSeq (header (rx c1)) \<noteq> rx_seq (rx c1)")
        case True
        with type r show ?thesis
          by (intro other) (auto simp: frame sfpHandleUSR_with_def sfpHandleUSR_connected_def sfpHandleUSR_def Let_def bindR_eq_Inr split: if_splits)
      next
        case False
        with unconnected_returns [OF r] have "at_delivery c c1"
          by (auto simp: at_delivery_def intro!: exI [of _ "len ?p - SFP_CRC_SIZE"])
        with False type r show ?thesis
          by (intro delivery [of c1]) (simp_all add: frame sfpHandleUSR_with_def sfpHandleUSR_connected_def Let_def)
      qed
    qed
  qed
qed

text \<open>A callback that sends packets, which may depend on the one delivered.\<close>

definition sender :: "('h, 'z) ringbuffer_scheme \<Rightarrow> (u8 list \<Rightarrow> call list) \<Rightarrow> 'h sfp \<Rightarrow> 'h sfp res" where
  "sender R h c = run_calls R c (h (payload (packet (rx c))))"

lemma deliver_octet_plain:
  "deliver_octet R c octet = (if SFP_FLAG = octet then
     bindR (if SFP_FRAME_STATE_RECEIVING = frameState (rx c) then sfpHandleFrame R c else Inr (c, 0))
       (\<lambda>(c, rc). let c = sfpResetReceiver c in assertR (rc \<noteq> -1) (Inr c)) else deliver_octet R c octet)"
  using with_none [of R c octet, symmetric] unfolding deliver_octet_with_def sfpHandleFrame_with_none .

lemma lock_trace:
  "\<exists>es. trace (sfpUnlockTransmitter (sfpLockTransmitter c)) = trace c @ es \<and> deliveries es = [] \<and> out_octets es = []"
  by (simp add: sfpUnlockTransmitter_def sfpLockTransmitter_def sfpIsTransmitterLockable_def)

lemma at_delivery_trace:
  assumes "at_delivery c c1"
  shows "deliver (rx c1) = deliver (rx c)" "\<exists>es. trace c1 = trace c @ es \<and> deliveries es = [] \<and> out_octets es = []"
proof -
  obtain n where n: "c1 = sfpUnlockTransmitter (sfpLockTransmitter
      (c\<lparr>rx := (rx c)\<lparr>packet := (packet (rx c))\<lparr>len := n\<rparr>\<rparr>\<rparr>))" using assms by (auto simp: at_delivery_def)
  then show "deliver (rx c1) = deliver (rx c)" by simp
  show "\<exists>es. trace c1 = trace c @ es \<and> deliveries es = [] \<and> out_octets es = []"
    using lock_trace [of "c\<lparr>rx := (rx c)\<lparr>packet := (packet (rx c))\<lparr>len := n\<rparr>\<rparr>\<rparr>"] n by simp
qed

lemma nothing_delivered:
  assumes "sfp_inv R c" and "deliver_octet R c octet = Inr c'"
    and "SFP_FLAG = octet \<Longrightarrow> SFP_FRAME_STATE_RECEIVING = frameState (rx c) \<Longrightarrow> \<exists>c1. sfpHandleFrame R c = Inr (c1, 0)"
  shows "delivered c c' = []"
proof -
  obtain a fs ds where r: "on_octet (abs_sfp R c) octet = (a, fs, ds)" by (metis prod_cases3)
  have c': "reacts R c c' (abs_endpoint R c') fs ds" using octets.step_ok [OF assms(1) _ r] assms(2) by auto
  have "ds = []"
  proof (cases "octet = SFP_FLAG \<and> frameState (rx c) = SFP_FRAME_STATE_RECEIVING")
    case True
    obtain e fs' ds' where i: "on_input (abs_endpoint R c) (received c) = (e, fs', ds')" by (metis prod_cases3)
    have "ds' = []"
      using sfpHandleFrame_refines [OF _ _ i] assms(1,3) True by (auto simp: sfp_inv_def split: if_splits)
    moreover have "body (abs_receiver c) \<noteq> []" "parse_body (body (abs_receiver c)) = received c"
      using True parse_received [of R c] assms(1) by (auto simp: sfp_inv_def) (simp add: abs_receiver_def)
    ultimately show ?thesis using r i True by (simp add: on_octet_def abs_sfp_def)
  next
    case False
    then have "octet = SFP_FLAG \<Longrightarrow> body (abs_receiver c) = []"
      by (cases "frameState (rx c)") (auto simp: abs_receiver_def)
    with r show ?thesis by (auto simp: on_octet_def abs_sfp_def split: if_splits)
  qed
  with reacts_seen(2) [OF c'] show ?thesis by simp
qed

text \<open>
  C12. A deliver callback may send: if it writes packets, any number of them and whatever was
  delivered, then the call of \<^verbatim>\<open>sfpDeliverOctet\<close> that it interrupts has exactly the effect -
  the same context and the same calls of callbacks in the same order, or the same fault - of
  the call without it, followed by the packets that it writes for what was delivered.
\<close>

theorem sending_handler_sequential:
  fixes c :: "'h sfp"
  assumes "sfp_inv R c" and "\<forall>bs. \<forall>call \<in> set (h bs). is_write call"
  shows "deliver_octet_with R Inr (sender R h) c octet
    = bindR (deliver_octet R c octet) (\<lambda>c'. run_calls R c' (concat (map h (delivered c c'))))"
proof (cases "SFP_FLAG = octet \<and> SFP_FRAME_STATE_RECEIVING = frameState (rx c)")
  case False
  then have "deliver_octet_with R Inr (sender R h) c octet = deliver_octet R c octet"
    by (auto simp: deliver_octet_with_def deliver_octet_plain [of R c SFP_FLAG])
  with nothing_delivered [OF assms(1), of octet] False show ?thesis
    by (cases "deliver_octet R c octet") (auto simp: run_calls_def)
next
  case flag: True
  show ?thesis
  proof (rule frame_with_cases [where R = R and D = "sender R h" and c = c])
    assume other: "sfpHandleFrame_with R Inr (sender R h) c = sfpHandleFrame R c"
      "\<And>c' ret. sfpHandleFrame R c = Inr (c', ret) \<Longrightarrow> ret = 0"
    have "deliver_octet_with R Inr (sender R h) c octet = deliver_octet R c octet"
      using flag other(1) deliver_octet_plain [of R c octet] by (simp add: deliver_octet_with_def)
    moreover have "\<exists>c1. sfpHandleFrame R c = Inr (c1, 0)" if "deliver_octet R c octet = Inr c'" for c'
      using that other(2) deliver_octet_plain [of R c octet] flag by (cases "sfpHandleFrame R c") auto
    ultimately show ?thesis
      using nothing_delivered [OF assms(1), of octet]
      by (cases "deliver_octet R c octet") (auto simp: run_calls_def)
  next
    fix c1
    assume delivery: "at_delivery c c1"
      "\<And>D. sfpHandleFrame_with R Inr D c = bindR (sfpCallDeliver_with D c1)
        (\<lambda>c. Inr (c\<lparr>rx := (rx c)\<lparr>rx_seq := nextSeq (rx_seq (rx c))\<rparr>\<rparr>, 1))"
    have with_D: "deliver_octet_with R Inr D c octet = bindR (sfpCallDeliver_with D c1) (\<lambda>c. Inr (accepted c))" for D
      using flag by (simp add: deliver_octet_with_def delivery(2) bindR_assoc accepted_def)
    have plain: "deliver_octet R c octet = bindR (sfpCallDeliver_with Inr c1) (\<lambda>c. Inr (accepted c))"
      using with_D [of Inr] with_none by metis
    obtain es where es: "trace c1 = trace c @ es" "deliveries es = []" using at_delivery_trace(2) [OF delivery(1)] by blast
    show ?thesis
    proof (cases "deliver (rx c1)")
      case None
      have "delivered c (accepted c1) = []" using es by (simp add: delivered_def)
      with None show ?thesis by (simp add: plain with_D sfpCallDeliver_with_def run_calls_def)
    next
      case (Some f)
      let ?c = "c1\<lparr>trace := trace c1 @ [Deliver_call f (payload (packet (rx c1))) (deliverData (rx c1))]\<rparr>"
      let ?calls = "h (payload (packet (rx c1)))"
      have writes: "\<forall>call \<in> set ?calls. is_write call" using assms(2) by blast
      obtain r where r: "accepted ?c = ?c\<lparr>rx := r\<rparr>" "\<And>d :: 'h sfp. rx d = rx ?c \<Longrightarrow> accepted d = d\<lparr>rx := r\<rparr>"
        using accepted_rx [of ?c] by blast
      have "delivered c (accepted ?c) = [payload (packet (rx c1))]" using es by (simp add: delivered_def)
      moreover have "run_calls R (accepted ?c) ?calls = bindR (run_calls R ?c ?calls) (\<lambda>c. Inr (accepted c))"
        unfolding r(1) writes_rx_upd [OF writes] mapR_def
        by (rule bindR_cong [OF refl]) (rule arg_cong [where f = Inr], rule r(2) [OF writes_rx [OF writes], symmetric])
      ultimately show ?thesis using Some by (simp add: plain with_D sfpCallDeliver_with_def sender_def)
    qed
  qed
qed

section \<open>A connection made in its midst\<close>

lemma at_delivery_ok:
  assumes "at_delivery c c1" and "sfp_ok R c"
  shows "sfp_ok R (c1\<lparr>trace := es\<rparr>)" "callbacks c1 = callbacks c"
proof -
  obtain n where n: "n \<le> len (packet (rx c))" "c1 = sfpUnlockTransmitter (sfpLockTransmitter
      (c\<lparr>rx := (rx c)\<lparr>packet := (packet (rx c))\<lparr>len := n\<rparr>\<rparr>\<rparr>))" using assms(1) by (auto simp: at_delivery_def)
  then show "callbacks c1 = callbacks c" by simp
  have "sfp_ok R c1" using n assms(2) by simp
  then show "sfp_ok R (c1\<lparr>trace := es\<rparr>)" by (simp add: sfp_ok_def history_ok_def history_list_def)
qed

lemma connecting_handler:
  assumes inv: "sfp_inv R b" and "deliver_octet R b SFP_FLAG = Inr b'" and "delivered b b' \<noteq> []"
  shows "\<exists>b1. deliver_octet_with R Inr (sfpConnect R) b SFP_FLAG = Inr b1 \<and> sfp_inv R b1 \<and> abs_receiver b1 = idle
    \<and> abs_endpoint R b1 = (fresh_endpoint SFP_CONNECT_STATE_SENT_SYN0)\<lparr>rxs := nextSeq SFP_INITIAL_SEQ\<rparr>
    \<and> written b b1 = wire [SYN SFP_SEQ_SYN0] \<and> callbacks b1 = callbacks b"
proof -
  have receiving: "SFP_FRAME_STATE_RECEIVING = frameState (rx b)"
    using nothing_delivered [OF inv assms(2)] assms(3) by auto
  show ?thesis
  proof (rule frame_with_cases [where R = R and D = "sfpConnect R" and c = b])
    assume other: "\<And>c' ret. sfpHandleFrame R b = Inr (c', ret) \<Longrightarrow> ret = 0"
    then have "\<exists>c1. sfpHandleFrame R b = Inr (c1, 0)"
      using assms(2) deliver_octet_plain [of R b SFP_FLAG] receiving by (cases "sfpHandleFrame R b") auto
    then show ?thesis using nothing_delivered [OF inv assms(2)] assms(3) by blast
  next
    fix c1
    assume c1: "at_delivery b c1" and D: "\<And>D. sfpHandleFrame_with R Inr D b = bindR (sfpCallDeliver_with D c1)
        (\<lambda>c. Inr (c\<lparr>rx := (rx c)\<lparr>rx_seq := nextSeq (rx_seq (rx c))\<rparr>\<rparr>, 1))"
    have run: "deliver_octet_with R Inr D b SFP_FLAG = bindR (sfpCallDeliver_with D c1) (\<lambda>c. Inr (accepted c))" for D
      using receiving by (simp add: deliver_octet_with_def D bindR_assoc accepted_def)
    obtain es where es: "trace c1 = trace b @ es" "deliveries es = []" "out_octets es = []"
      using at_delivery_trace(2) [OF c1] by blast
    obtain f where f: "deliver (rx c1) = Some f"
    proof (cases "deliver (rx c1)")
      case None
      then have "b' = accepted c1"
        using run [of Inr] assms(2) by (simp add: with_none sfpCallDeliver_with_def)
      then have "delivered b b' = []" using es by (simp add: delivered_def)
      with assms(3) show ?thesis by simp
    qed blast
    let ?d = "c1\<lparr>trace := trace c1 @ [Deliver_call f (payload (packet (rx c1))) (deliverData (rx c1))]\<rparr>"
    have ok: "sfp_ok R ?d" and cb: "callbacks c1 = callbacks b"
      using at_delivery_ok [OF c1, of R] inv by (simp_all add: sfp_inv_def)
    have laws: "ringbuffer_laws R" using inv by (simp add: sfp_inv_def)
    obtain d where d: "sfpConnect R ?d = Inr d"
      "reacts R ?d d (fst (on_connect (abs_endpoint R ?d))) (snd (on_connect (abs_endpoint R ?d))) []"
      "rx d = (rx (sfpResetReceiver ?d))\<lparr>rx_seq := SFP_INITIAL_SEQ\<rparr>"
      using sfpConnect_refines [OF laws ok] by blast
    have "abs_endpoint R d = fresh_endpoint SFP_CONNECT_STATE_SENT_SYN0"
      using d(2) by (simp add: reacts_def on_connect_def fresh_endpoint_def abs_endpoint_def [of R ?d])
    then have e: "abs_endpoint R (accepted d) = (fresh_endpoint SFP_CONNECT_STATE_SENT_SYN0)\<lparr>rxs := nextSeq SFP_INITIAL_SEQ\<rparr>"
      by (simp add: accepted_def sfpResetReceiver_def abs_endpoint_def fresh_endpoint_def history_list_def)
    have "sfp_ok R d" "callbacks d = callbacks ?d" using d(2) by (simp_all add: reacts_def)
    then have inv': "sfp_inv R (accepted d)" and cb': "callbacks (accepted d) = callbacks b"
      using laws cb sfp_ok_reset [of R "d\<lparr>rx := (rx d)\<lparr>rx_seq := nextSeq (rx_seq (rx d))\<rparr>\<rparr>"]
      by (simp_all add: sfp_inv_def accepted_def)
        (simp_all add: sfp_ok_def history_ok_def history_list_def callbacks_def sfpResetReceiver_def)
    have "written b (accepted d) = wire [SYN SFP_SEQ_SYN0]"
      using reacts_trace [OF d(2)] es by (auto simp: written_def on_connect_def)
    then show ?thesis
      using run [of "sfpConnect R"] f d(1) inv' e cb' by (simp add: sfpCallDeliver_with_def) (simp add: accepted_def)
  qed
qed

text \<open>An endpoint that is one packet ahead of its peer.\<close>

definition ahead_endpoint :: endpoint where
  "ahead_endpoint = (fresh_endpoint SFP_CONNECT_STATE_CONNECTED)\<lparr>rxs := nextSeq SFP_INITIAL_SEQ\<rparr>"

lemma syn_numbers:
  "SFP_SEQ_SYN1 \<noteq> SFP_SEQ_SYN0" "SFP_SEQ_SYN2 \<noteq> SFP_SEQ_SYN0" "SFP_SEQ_SYN2 \<noteq> SFP_SEQ_SYN1"
  "seq_ok SFP_SEQ_SYN0" "seq_ok SFP_SEQ_SYN1" "seq_ok SFP_SEQ_SYN2" "seq_ok SFP_INITIAL_SEQ"
  "SFP_INITIAL_SEQ \<noteq> nextSeq SFP_INITIAL_SEQ"
  by (simp_all add: sfp_consts seq_ok_def nextSeq_def)

lemma connecting_handler_handshake:
  assumes "sfp_inv R b" and "sfp_inv R' a" and "abs_receiver a = idle"
    and "deliver_octet R b SFP_FLAG = Inr b'" and "delivered b b' \<noteq> []"
  shows "\<exists>b1 a1 b2 a2. deliver_octet_with R Inr (sfpConnect R) b SFP_FLAG = Inr b1
    \<and> deliver_octets R' a (written b b1) = Inr a1 \<and> deliver_octets R b1 (written a a1) = Inr b2
    \<and> deliver_octets R' a1 (written b1 b2) = Inr a2
    \<and> sfp_inv R b2 \<and> abs_sfp R b2 = (ahead_endpoint, idle) \<and> callbacks b2 = callbacks b
    \<and> sfp_inv R' a2 \<and> abs_sfp R' a2 = (fresh_endpoint SFP_CONNECT_STATE_CONNECTED, idle)"
proof -
  note num = syn_numbers
  obtain b1 where b1: "deliver_octet_with R Inr (sfpConnect R) b SFP_FLAG = Inr b1" "sfp_inv R b1" "abs_receiver b1 = idle"
    "abs_endpoint R b1 = (fresh_endpoint SFP_CONNECT_STATE_SENT_SYN0)\<lparr>rxs := nextSeq SFP_INITIAL_SEQ\<rparr>"
    "written b b1 = wire [SYN SFP_SEQ_SYN0]" "callbacks b1 = callbacks b"
    using connecting_handler [OF assms(1,4,5)] by blast
  have "on_inputs (abs_endpoint R' a) (map Some [SYN SFP_SEQ_SYN0])
      = (fresh_endpoint SFP_CONNECT_STATE_SENT_SYN1, [SYN SFP_SEQ_SYN1], [])"
    by (simp add: on_input_def on_syn_def fresh_endpoint_def abs_endpoint_def)
  from frames_run [OF assms(2,3) _ this] num obtain a1 where a1: "deliver_octets R' a (wire [SYN SFP_SEQ_SYN0]) = Inr a1"
    "sfp_inv R' a1" "abs_receiver a1 = idle" "abs_endpoint R' a1 = fresh_endpoint SFP_CONNECT_STATE_SENT_SYN1"
    "written a a1 = wire [SYN SFP_SEQ_SYN1]" by auto
  have "on_inputs (abs_endpoint R b1) (map Some [SYN SFP_SEQ_SYN1]) = (ahead_endpoint, [SYN SFP_SEQ_SYN2], [])"
    using num by (simp add: on_input_def on_syn_def resend_all_def b1(4)) (simp add: fresh_endpoint_def ahead_endpoint_def)
  from frames_run [OF b1(2,3) _ this] num obtain b2 where b2: "deliver_octets R b1 (wire [SYN SFP_SEQ_SYN1]) = Inr b2"
    "sfp_inv R b2" "abs_receiver b2 = idle" "abs_endpoint R b2 = ahead_endpoint" "written b1 b2 = wire [SYN SFP_SEQ_SYN2]"
    "callbacks b2 = callbacks b1" by auto
  have "on_inputs (abs_endpoint R' a1) (map Some [SYN SFP_SEQ_SYN2]) = (fresh_endpoint SFP_CONNECT_STATE_CONNECTED, [], [])"
    using num by (simp add: on_input_def on_syn_def resend_all_def a1(4)) (simp add: fresh_endpoint_def)
  from frames_run [OF a1(2,3) _ this] num obtain a2 where a2: "deliver_octets R' a1 (wire [SYN SFP_SEQ_SYN2]) = Inr a2"
    "sfp_inv R' a2" "abs_receiver a2 = idle" "abs_endpoint R' a2 = fresh_endpoint SFP_CONNECT_STATE_CONNECTED" by auto
  from b1(1,5,6) a1(1,5) b2 a2 show ?thesis
    by (intro exI [of _ b1] exI [of _ a1] exI [of _ b2] exI [of _ a2]) (simp add: abs_sfp_def del: wire_simps)
qed

lemma send_run:
  assumes "sfp_inv R c" and "abs_sfp R c = (e, r)" and "length stack = SFP_CONFIG_MAX_PACKET_SIZE" and "length m \<le> max_payload"
  obtains c' where "run_calls R c [CallWrite stack m] = Inr c'" "sfp_inv R c'" "abs_sfp R c' = (fst (on_send e m), r)"
    "written c c' = wire [USR (txs e) m]"
proof -
  have "length m \<le> SFP_CONFIG_MAX_PACKET_SIZE" using assms(4) by (simp add: max_payload_def)
  from write_inv [OF assms(1,3) this] assms(2) that reacts_seen(1,3) show ?thesis
    by (fastforce simp: run_calls_def abs_sfp_def on_send_def)
qed

lemma ahead_loses_packet:
  assumes b: "sfp_inv R b" "abs_sfp R b = (ahead_endpoint, idle)" "deliver (rx b) \<noteq> None"
    and a: "sfp_inv R' a" "abs_sfp R' a = (fresh_endpoint SFP_CONNECT_STATE_CONNECTED, idle)"
    and m: "length stack = SFP_CONFIG_MAX_PACKET_SIZE" "length m1 \<le> max_payload" "length m2 \<le> max_payload"
  shows "\<exists>a3 b3 a4 a5 b4. run_calls R' a [CallWrite stack m1] = Inr a3 \<and> deliver_octets R b (written a a3) = Inr b3
    \<and> delivered b b3 = [] \<and> deliver_octets R' a3 (written b b3) = Inr a4 \<and> written a3 a4 = []
    \<and> run_calls R' a4 [CallWrite stack m2] = Inr a5 \<and> deliver_octets R b3 (written a4 a5) = Inr b4
    \<and> delivered b3 b4 = [m2]"
proof -
  let ?one = "nextSeq SFP_INITIAL_SEQ" and ?e = "fst (on_send (fresh_endpoint SFP_CONNECT_STATE_CONNECTED) m1)"
  note num = syn_numbers and defs = on_input_def on_user_def on_nak_def on_send_def fresh_endpoint_def not_connected_def
  obtain a3 where a3: "run_calls R' a [CallWrite stack m1] = Inr a3" "sfp_inv R' a3" "abs_sfp R' a3 = (?e, idle)"
    "written a a3 = wire [USR SFP_INITIAL_SEQ m1]"
    using send_run [OF a m(1,2)] by (auto simp: fresh_endpoint_def)
  have "on_inputs (abs_endpoint R b) (map Some [USR SFP_INITIAL_SEQ m1]) = (ahead_endpoint, [NAK ?one], [])"
    using num(8) b(2) by (simp add: abs_sfp_def ahead_endpoint_def defs)
  from frames_run [OF b(1) _ _ this] num m(2) b(2) obtain b3 where
    b3: "deliver_octets R b (wire [USR SFP_INITIAL_SEQ m1]) = Inr b3" "sfp_inv R b3" "abs_receiver b3 = idle"
      "abs_endpoint R b3 = ahead_endpoint" "written b b3 = wire [NAK ?one]" "delivered b b3 = []" "callbacks b3 = callbacks b"
    by (auto simp: abs_sfp_def)
  have "on_inputs (abs_endpoint R' a3) (map Some [NAK ?one]) = (?e, [], [])"
    using a3(3) by (simp add: abs_sfp_def defs)
  from frames_run [OF a3(2) _ _ this] num a3(3) obtain a4 where
    a4: "deliver_octets R' a3 (wire [NAK ?one]) = Inr a4" "sfp_inv R' a4" "abs_sfp R' a4 = (?e, idle)" "written a3 a4 = []"
    by (auto simp: abs_sfp_def)
  obtain a5 where a5: "run_calls R' a4 [CallWrite stack m2] = Inr a5" "written a4 a5 = wire [USR ?one m2]"
    using send_run [OF a4(2,3) m(1,3)] by (auto simp: defs)
  have "on_inputs (abs_endpoint R b3) (map Some [USR ?one m2]) = (ahead_endpoint\<lparr>rxs := nextSeq ?one\<rparr>, [], [m2])"
    using receives(1) [of ahead_endpoint "[m2]"] b3(4) by (simp add: ahead_endpoint_def fresh_endpoint_def)
  from frames_run [OF b3(2,3) _ this] num m(3) b(3) b3(7) obtain b4 where
    "deliver_octets R b3 (wire [USR ?one m2]) = Inr b4" "delivered b3 b4 = [m2]" by (auto simp: callbacks_def)
  with a3 b3 a4 a5 show ?thesis
    by (intro exI [of _ a3] exI [of _ b3] exI [of _ a4] exI [of _ a5] exI [of _ b4]) (simp del: wire_simps)
qed

text \<open>
  C14. A deliver callback must not connect: if it calls \<^verbatim>\<open>sfpConnect\<close>, the call it interrupts
  counts the delivered packet against the new connection. The handshake that follows
  succeeds, and both ends report that they are connected; but the first packet that the
  peer sends is refused, and the request for the next one tells the peer that all is well:
  the packet is lost for good, and the one after it is delivered.
\<close>

theorem connecting_handler_loses_packet:
  assumes "sfp_inv R b" and "sfp_inv R' a" and "abs_receiver a = idle" and "deliver (rx b) \<noteq> None"
    and "deliver_octet R b SFP_FLAG = Inr b'" and "delivered b b' \<noteq> []"
    and "length stack = SFP_CONFIG_MAX_PACKET_SIZE"
    and "length m1 \<le> SFP_CONFIG_MAX_PACKET_SIZE - SFP_CRC_SIZE" and "length m2 \<le> SFP_CONFIG_MAX_PACKET_SIZE - SFP_CRC_SIZE"
  shows "\<exists>b1 a1 b2 a2 a3 b3 a4 a5 b4. deliver_octet_with R Inr (sfpConnect R) b SFP_FLAG = Inr b1
    \<and> deliver_octets R' a (written b b1) = Inr a1 \<and> deliver_octets R b1 (written a a1) = Inr b2
    \<and> deliver_octets R' a1 (written b1 b2) = Inr a2 \<and> sfpIsConnected a2 \<and> sfpIsConnected b2
    \<and> run_calls R' a2 [CallWrite stack m1] = Inr a3 \<and> deliver_octets R b2 (written a2 a3) = Inr b3
    \<and> delivered b2 b3 = [] \<and> deliver_octets R' a3 (written b2 b3) = Inr a4 \<and> written a3 a4 = []
    \<and> run_calls R' a4 [CallWrite stack m2] = Inr a5 \<and> deliver_octets R b3 (written a4 a5) = Inr b4
    \<and> delivered b3 b4 = [m2]"
proof -
  obtain b1 a1 b2 a2 where up: "deliver_octet_with R Inr (sfpConnect R) b SFP_FLAG = Inr b1"
    "deliver_octets R' a (written b b1) = Inr a1" "deliver_octets R b1 (written a a1) = Inr b2"
    "deliver_octets R' a1 (written b1 b2) = Inr a2"
    and b2: "sfp_inv R b2" "abs_sfp R b2 = (ahead_endpoint, idle)" "callbacks b2 = callbacks b"
    and a2: "sfp_inv R' a2" "abs_sfp R' a2 = (fresh_endpoint SFP_CONNECT_STATE_CONNECTED, idle)"
    using connecting_handler_handshake [OF assms(1-3,5,6)] by blast
  have "deliver (rx b2) \<noteq> None" using assms(4) b2(3) by (simp add: callbacks_def)
  moreover have "sfpIsConnected a2" "sfpIsConnected b2"
    using a2(2) b2(2) by (simp_all add: sfpIsConnected_def abs_sfp_def abs_endpoint_def fresh_endpoint_def ahead_endpoint_def)
  ultimately show ?thesis
    using up ahead_loses_packet [OF b2(1,2) _ a2 assms(7), of m1 m2] assms(8,9)
    unfolding max_payload_def by blast
qed

section \<open>Examples\<close>

text \<open>A context that has received a packet but for its last flag.\<close>

lemma before_flag:
  "\<exists>c c'. sfp_inv list_ringbuffer c \<and> callbacks c = callbacks example_connected \<and> SFP_FRAME_STATE_RECEIVING = frameState (rx c)
    \<and> connectState c = SFP_CONNECT_STATE_CONNECTED \<and> received c = Some (USR SFP_INITIAL_SEQ [1, 2])
    \<and> deliver_octet list_ringbuffer c SFP_FLAG = Inr c' \<and> delivered c c' = [[1, 2]]"
proof -
  let ?R = list_ringbuffer and ?c = example_connected and ?hdr = "makeHeader SFP_FRAME_USR SFP_INITIAL_SEQ"
  let ?xs = "SFP_FLAG # escape (frame_body ?hdr [1, 2])"
  have "\<exists>esc. deframe idle ?xs = (\<lparr>escaping = esc, body = frame_body ?hdr [1, 2]\<rparr>, [])"
    using deframe_data [of "escape (frame_body ?hdr [1, 2])" idle] escape_no_flag by (simp add: flagged_def sfp_consts)
  then obtain esc where d: "deframe (abs_receiver ?c) ?xs = (\<lparr>escaping = esc, body = frame_body ?hdr [1, 2]\<rparr>, [])"
    by auto
  from input_runs [OF connected_inv d] obtain c where c: "sfp_inv ?R c" "abs_endpoint ?R c = abs_endpoint ?R ?c"
    "abs_receiver c = \<lparr>escaping = esc, body = frame_body ?hdr [1, 2]\<rparr>" "callbacks c = callbacks ?c" by auto
  have frame: "parse_body (frame_body ?hdr [1, 2]) = Some (USR SFP_INITIAL_SEQ [1, 2])"
    using syn_numbers(7) by (simp add: parse_frame_body)
  have conn: "connectState c = SFP_CONNECT_STATE_CONNECTED" "rx_seq (rx c) = SFP_INITIAL_SEQ"
    using arg_cong [OF c(2), of conn] arg_cong [OF c(2), of rxs] by (simp_all add: endpoint_simps)
  have "frame_body ?hdr [1, 2] \<noteq> []" by (simp add: frame_body_def)
  then have receiving: "frameState (rx c) = SFP_FRAME_STATE_RECEIVING"
    using arg_cong [OF c(3), of body] by (auto simp: abs_receiver_def split: SFPframestate.splits)
  have r: "received c = Some (USR SFP_INITIAL_SEQ [1, 2])"
    using parse_received [of ?R c] c(1,3) receiving frame by (simp add: sfp_inv_def)
  have "on_octet (abs_sfp ?R c) SFP_FLAG = (((abs_endpoint ?R c)\<lparr>rxs := nextSeq SFP_INITIAL_SEQ\<rparr>, idle), [], [[1, 2]])"
    using frame \<open>frame_body ?hdr [1, 2] \<noteq> []\<close> conn
    by (simp add: on_octet_def abs_sfp_def c(3) on_input_def on_user_def endpoint_simps)
  from octets.step_ok [OF c(1) TrueI this] obtain c' where
    c': "deliver_octet ?R c SFP_FLAG = Inr c'" "reacts ?R c c' (abs_endpoint ?R c') [] [[1, 2]]" by blast
  have "deliver (rx c) \<noteq> None" using c(4) by (simp add: callbacks_def)
  with reacts_seen(2) [OF c'(2)] have "delivered c c' = [[1, 2]]" by simp
  with c(1,4) r receiving [symmetric] conn(1) c'(1) show ?thesis by blast
qed

text \<open>The packet that was delivered is sent back from within the callback.\<close>

theorem sending_handler_sequential_witness:
  "\<exists>c c' d. delivered c c' = [[1, 2]]
    \<and> deliver_octet_with list_ringbuffer Inr
        (sender list_ringbuffer (\<lambda>bs. [CallWrite (replicate SFP_CONFIG_MAX_PACKET_SIZE 0) bs])) c SFP_FLAG = Inr d
    \<and> run_calls list_ringbuffer c' [CallWrite (replicate SFP_CONFIG_MAX_PACKET_SIZE 0) [1, 2]] = Inr d
    \<and> written c' d = wire [USR (tx_seq (tx c')) [1, 2]]"
proof -
  let ?R = list_ringbuffer and ?stack = "replicate SFP_CONFIG_MAX_PACKET_SIZE (0 :: u8)"
  obtain c c' where c: "sfp_inv ?R c" "deliver_octet ?R c SFP_FLAG = Inr c'" "delivered c c' = [[1, 2]]"
    using before_flag by blast
  obtain a fs ds where "on_octet (abs_sfp ?R c) SFP_FLAG = (a, fs, ds)" by (metis prod_cases3)
  from octets.step_ok [OF c(1) TrueI this] c(2) have inv: "sfp_inv ?R c'" by auto
  obtain d where d: "run_calls ?R c' [CallWrite ?stack [1, 2]] = Inr d" "written c' d = wire [USR (tx_seq (tx c')) [1, 2]]"
    using send_run [OF inv, of "abs_endpoint ?R c'" "abs_receiver c'" ?stack "[1, 2]"]
    by (auto simp: abs_sfp_def endpoint_simps max_payload_def sfp_consts)
  have "deliver_octet_with ?R Inr (sender ?R (\<lambda>bs. [CallWrite ?stack bs])) c SFP_FLAG = Inr d"
    using sending_handler_sequential [OF c(1), of "\<lambda>bs. [CallWrite ?stack bs]" SFP_FLAG] c(2,3) d(1) by simp
  with c(3) d show ?thesis by blast
qed

theorem connecting_handler_loses_packet_witness:
  "\<exists>b b1 a1 b2 a2 a3 b3 a4 a5 b4. deliver_octet_with list_ringbuffer Inr (sfpConnect list_ringbuffer) b SFP_FLAG = Inr b1
    \<and> deliver_octets list_ringbuffer example_connected (written b b1) = Inr a1
    \<and> deliver_octets list_ringbuffer b1 (written example_connected a1) = Inr b2
    \<and> deliver_octets list_ringbuffer a1 (written b1 b2) = Inr a2 \<and> sfpIsConnected a2 \<and> sfpIsConnected b2
    \<and> run_calls list_ringbuffer a2 [CallWrite (replicate SFP_CONFIG_MAX_PACKET_SIZE 0) [5]] = Inr a3
    \<and> deliver_octets list_ringbuffer b2 (written a2 a3) = Inr b3 \<and> delivered b2 b3 = []
    \<and> deliver_octets list_ringbuffer a3 (written b2 b3) = Inr a4 \<and> written a3 a4 = []
    \<and> run_calls list_ringbuffer a4 [CallWrite (replicate SFP_CONFIG_MAX_PACKET_SIZE 0) [6]] = Inr a5
    \<and> deliver_octets list_ringbuffer b3 (written a4 a5) = Inr b4 \<and> delivered b3 b4 = [[6]]"
proof -
  obtain b b' where b: "sfp_inv list_ringbuffer b" "callbacks b = callbacks example_connected"
    "deliver_octet list_ringbuffer b SFP_FLAG = Inr b'" "delivered b b' = [[1, 2]]"
    using before_flag by blast
  have "deliver (rx b) \<noteq> None" using b(2) by (simp add: callbacks_def)
  moreover have "delivered b b' \<noteq> []" "length [5 :: u8] \<le> SFP_CONFIG_MAX_PACKET_SIZE - SFP_CRC_SIZE"
    "length [6 :: u8] \<le> SFP_CONFIG_MAX_PACKET_SIZE - SFP_CRC_SIZE"
    using b(4) by (simp_all add: sfp_consts)
  ultimately show ?thesis
    by (intro exI [of _ b] connecting_handler_loses_packet [OF b(1) connected_inv example_simps(2) _ b(3) _ length_replicate])
qed

end
