(* ===== verification/Sfp_Threads.thy ===== *)
theory Sfp_Threads
  imports Sfp_Handlers
begin

text \<open>
  A thread that sends while another one receives: the transmitter's lock orders their
  accesses to the transmitter, and at the one place where \<^verbatim>\<open>sfpDeliverOctet\<close> releases it and
  goes on, a packet sent by the other thread is as good as one sent before.
\<close>

section \<open>A thread that sends\<close>

text \<open>The moments when \<^verbatim>\<open>sfpDeliverOctet\<close> has released the lock and goes on to use the context.\<close>

definition releases :: "'h sfp \<Rightarrow> u8 \<Rightarrow> bool" where
  "releases c octet \<longleftrightarrow> SFP_FLAG = octet \<and> SFP_FRAME_STATE_RECEIVING = frameState (rx c)
     \<and> connectState c = SFP_CONNECT_STATE_CONNECTED
     \<and> (\<exists>t s bs. received c = Some (t, s, bs) \<and> t \<in> {SFP_FRAME_USR, SFP_FRAME_RTX})"

definition released :: "'h sfp \<Rightarrow> 'h sfp" where
  "released c = sfpUnlockTransmitter (sfpLockTransmitter
     (c\<lparr>rx := (rx c)\<lparr>packet := (packet (rx c))\<lparr>len := len (packet (rx c)) - SFP_CRC_SIZE\<rparr>\<rparr>\<rparr>))"

definition resumed :: "'h sfp \<Rightarrow> 'h sfp res" where
  "resumed c = bindR (sfpHandleUSR_connected Inr c) (\<lambda>(c, rc). assertR (rc \<noteq> -1) (Inr (sfpResetReceiver c)))"

lemma received_cong: "rx c = rx d \<Longrightarrow> received c = received d"
  by (simp add: received_def Let_def)

lemma with_other:
  "deliver_octet_with R other Inr c octet =
     (if releases c octet then bindR (other (released c)) resumed else deliver_octet R c octet)"
proof (cases "SFP_FLAG = octet \<and> SFP_FRAME_STATE_RECEIVING = frameState (rx c)")
  case False
  then show ?thesis
    by (auto simp: deliver_octet_with_def releases_def deliver_octet_plain [of R c SFP_FLAG])
next
  case flag: True
  let ?p = "packet (rx c)"
  let ?c = "c\<lparr>rx := (rx c)\<lparr>packet := ?p\<lparr>len := len ?p - SFP_CRC_SIZE\<rparr>\<rparr>\<rparr>"
  let ?user = "\<not> len ?p < SFP_CRC_SIZE \<and> SFP_CRC_GOOD = rx_crc (rx c)
    \<and> (getFrameType (header (rx c)) = SFP_FRAME_USR \<or> getFrameType (header (rx c)) = SFP_FRAME_RTX)"
  have frame: "deliver_octet_with R other Inr c octet = bindR (sfpHandleFrame_with R other Inr c)
      (\<lambda>(c, rc). assertR (rc \<noteq> -1) (Inr (sfpResetReceiver c)))" for other
    using flag by (simp add: deliver_octet_with_def Let_def)
  have user: "sfpHandleFrame_with R other Inr c = sfpHandleUSR_with other Inr ?c" if ?user for other
    using that by (auto simp: sfpHandleFrame_with_def Let_def)
  have releases: "releases c octet \<longleftrightarrow> ?user \<and> connectState c = SFP_CONNECT_STATE_CONNECTED"
    using flag by (auto simp: releases_def received_def Let_def)
  show ?thesis
  proof (cases "releases c octet")
    case True
    then have "connectState ?c = SFP_CONNECT_STATE_CONNECTED" using releases by simp
    then have "sfpHandleUSR_unconnected ?c = Inr (released c, False)"
      by (simp add: sfpHandleUSR_unconnected_def released_def Let_def)
    with True releases show ?thesis
      by (simp add: frame user sfpHandleUSR_with_def bindR_assoc resumed_def [abs_def])
  next
    case False
    have "sfpHandleFrame_with R other Inr c = sfpHandleFrame_with R Inr Inr c"
    proof (cases ?user)
      case True
      have "sfpHandleUSR_unconnected ?c \<noteq> Inr (d, False)" for d
        using unconnected_returns [of ?c d False] True False releases by auto
      then have "sfpHandleUSR_with other Inr ?c = sfpHandleUSR_with Inr Inr ?c"
        by (auto simp: sfpHandleUSR_with_def intro!: arg_cong2 [where f = assertR] bindR_cong)
      then show ?thesis unfolding user [OF True] .
    next
      case False
      then show ?thesis
        by (cases "getFrameType (header (rx c))") (auto simp: sfpHandleFrame_with_def Let_def)
    qed
    with False show ?thesis using frame [of other] frame [of Inr] with_none [of R c octet] by simp
  qed
qed

text \<open>What comes after does not look at the trace.\<close>

lemma nak_beside:
  "TransmitterLock (\<lambda>c. sfpTransmitNAK c s) (beside r es c) = mapR (beside r es) (TransmitterLock (\<lambda>c. sfpTransmitNAK c s) c)"
  by (simp add: TransmitterLock_def sfpTransmitNAK_def sfpTransmitControl_def lock_beside frame_beside mapR_rules
      case_prod_unfold cong: bindR_cong)

lemma nak_keeps_rx:
  assumes "TransmitterLock (\<lambda>c. sfpTransmitNAK c s) c = Inr c'"
  shows "rx c' = rx c"
proof -
  have "c' = beside (rx c) [] c'" using nak_beside [of s "rx c" "[]" c] assms by simp
  then show ?thesis by (metis beside_simps(2))
qed

lemma reset_trace:
  "sfpResetReceiver (c\<lparr>trace := es\<rparr>) = (sfpResetReceiver c)\<lparr>trace := es\<rparr>" "trace (sfpResetReceiver c) = trace c"
  by (cases c, simp add: sfpResetReceiver_def)+

lemma resumed_past:
  fixes c :: "'h sfp"
  shows "resumed (c\<lparr>trace := es @ trace c\<rparr>) = mapR (\<lambda>d. d\<lparr>trace := es @ trace d\<rparr>) (resumed c)"
proof -
  have past: "d\<lparr>trace := es @ trace d\<rparr> = beside (rx d) es d" for d :: "'h sfp" by (simp add: beside_def)
  have nak: "TransmitterLock (\<lambda>c. sfpTransmitNAK c s) (c\<lparr>trace := es @ trace c\<rparr>)
      = mapR (\<lambda>d. d\<lparr>trace := es @ trace d\<rparr>) (TransmitterLock (\<lambda>c. sfpTransmitNAK c s) c)" for s
    unfolding past [of c] nak_beside mapR_def
    by (rule bindR_cong [OF refl]) (simp add: past nak_keeps_rx)
  have scope: "TransmitterLock (\<lambda>c. sfpTransmitNAK c (rx_seq (rx c))) d
      = TransmitterLock (\<lambda>c. sfpTransmitNAK c (rx_seq (rx d))) d" for d :: "'h sfp"
    by (simp add: TransmitterLock_def)
  show ?thesis
  proof (cases "getFrameSeq (header (rx c)) = rx_seq (rx c)")
    case True
    then show ?thesis
      by (simp add: resumed_def sfpHandleUSR_connected_def sfpCallDeliver_with_def sfpResetReceiver_def
          split: option.split)
  next
    case False
    then show ?thesis
      unfolding resumed_def sfpHandleUSR_connected_def Let_def scope
      by (simp add: nak reset_trace mapR_rules cong: bindR_cong)
  qed
qed

definition lock_pair :: "'h sfp \<Rightarrow> event list" where
  "lock_pair c = (if sfpIsTransmitterLockable c
     then [Lock_call (the (lock (tx c))) (lockData (tx c)), Unlock_call (the (unlock (tx c))) (unlockData (tx c))] else [])"

lemma released_eq:
  "released c = c\<lparr>rx := (rx c)\<lparr>packet := (packet (rx c))\<lparr>len := len (packet (rx c)) - SFP_CRC_SIZE\<rparr>\<rparr>,
     trace := trace c @ lock_pair c\<rparr>"
  by (simp add: released_def lock_pair_def sfpUnlockTransmitter_def sfpLockTransmitter_def sfpIsTransmitterLockable_def)

lemma lock_pair_simps [simp]:
  "deliveries (lock_pair c) = []" "out_octets (lock_pair c) = []" "lock_monitor False (lock_pair c) = Some False"
  by (simp_all add: lock_pair_def)

lemma lock_pair_cong: "callbacks c = callbacks d \<Longrightarrow> lock_pair c = lock_pair d"
  by (simp add: callbacks_def lock_pair_def sfpIsTransmitterLockable_def)

lemma writes_conn:
  assumes "\<forall>call \<in> set calls. is_write call" and "run_spec on_call (e, r) calls = ((e', r'), fs, ds)"
  shows "conn e' = conn e \<and> r' = r \<and> ds = []"
  using assms
proof (induction calls arbitrary: e fs ds)
  case (Cons call calls)
  then show ?case
    by (cases call) (fastforce simp: on_send_def split: prod.splits)+
qed simp

text \<open>Packets sent with another receiver and another past are sent the same way.\<close>

lemma writes_anywhere:
  fixes c :: "'h sfp" and R :: "('h, 'z) ringbuffer_scheme"
  assumes "\<forall>call \<in> set calls. is_write call" and "run_calls R c calls = Inr c'"
  shows "\<exists>W. trace c' = trace c @ W
    \<and> (\<forall>r es. run_calls R (c\<lparr>rx := r, trace := es\<rparr>) calls = Inr (c'\<lparr>rx := r, trace := es @ W\<rparr>))"
proof -
  have "run_calls R (beside (rx c) (trace c) (c\<lparr>trace := []\<rparr>)) calls = Inr c'" using assms(2) by (simp add: beside_def)
  then obtain w where w: "run_calls R (c\<lparr>trace := []\<rparr>) calls = Inr w" "c' = beside (rx c) (trace c) w"
    unfolding writes_beside [OF assms(1)] by (cases "run_calls R (c\<lparr>trace := []\<rparr>) calls") auto
  have "run_calls R (c\<lparr>rx := r, trace := es\<rparr>) calls = Inr (c'\<lparr>rx := r, trace := es @ trace w\<rparr>)" for r es
    using writes_beside [OF assms(1), of R r es "c\<lparr>trace := []\<rparr>"] w by (simp add: beside_def)
  with w(2) show ?thesis by (intro exI [of _ "trace w"]) simp
qed

text \<open>
  C13. A thread may send while another one receives: if packets are sent at a moment when
  \<^verbatim>\<open>sfpDeliverOctet\<close> has released the lock and goes on, then nothing goes wrong, and the
  result is the one of sending them before: the same context, the same octets written and
  the same deliveries, with the lock taken and released in turns.
\<close>

theorem concurrent_send_linearizes:
  fixes c :: "'h sfp"
  assumes inv: "sfp_inv R c" and writes: "\<forall>call \<in> set calls. is_write call \<and> call_ok call"
  shows "\<exists>c1. deliver_octet_with R (\<lambda>c. run_calls R c calls) Inr c octet = Inr c1
    \<and> (if releases c octet
       then \<exists>c2. run_calls R c (calls @ [CallOctet octet]) = Inr c2 \<and> c1\<lparr>trace := trace c2\<rparr> = c2
         \<and> written c c1 = written c c2 \<and> delivered c c1 = delivered c c2
         \<and> (sfpIsTransmitterLockable c \<longrightarrow> lock_monitor False (drop (length (trace c)) (trace c1)) = Some False)
       else run_calls R c [CallOctet octet] = Inr c1)"
proof (cases "releases c octet")
  case False
  obtain a fs ds where "on_octet (abs_sfp R c) octet = (a, fs, ds)" by (metis prod_cases3)
  from octets.step_ok [OF inv TrueI this] False show ?thesis
    by (auto simp: with_other run_calls_def)
next
  case True
  have w: "\<forall>call \<in> set calls. is_write call" "\<forall>call \<in> set calls. call_ok call" using writes by blast+
  obtain e r fs ds where s: "run_spec on_call (abs_sfp R c) calls = ((e, r), fs, ds)" by (metis prod_cases3 surj_pair)
  obtain cw where cw: "run_calls R c calls = Inr cw" "sfp_inv R cw" "abs_sfp R cw = (e, r)"
    "reacts R c cw (abs_endpoint R cw) fs ds" using run_calls_refines [OF inv w(2) s] by blast
  have conn: "connectState cw = connectState c"
    using writes_conn [OF w(1), of "abs_endpoint R c" "abs_receiver c"] s cw(3) by (auto simp: abs_sfp_def abs_endpoint_def)
  have rx: "rx cw = rx c" and cb: "callbacks cw = callbacks c"
    using writes_rx [OF w(1) cw(1)] cw(4) by (simp_all add: reacts_def)
  obtain W where W: "trace cw = trace c @ W"
    "\<And>r es. run_calls R (c\<lparr>rx := r, trace := es\<rparr>) calls = Inr (cw\<lparr>rx := r, trace := es @ W\<rparr>)"
    using writes_anywhere [OF w(1) cw(1)] by blast
  define L where "L = lock_pair c"
  define v where "v = cw\<lparr>rx := rx (released c), trace := []\<rparr>"
  have "released c = c\<lparr>rx := rx (released c), trace := trace c @ L\<rparr>" by (simp add: released_eq L_def)
  then have "run_calls R (released c) calls = Inr (v\<lparr>trace := (trace c @ L @ W) @ trace v\<rparr>)"
    using W(2) [where r = "rx (released c)" and es = "trace c @ L"] by (simp add: v_def)
  then have x1: "deliver_octet_with R (\<lambda>c. run_calls R c calls) Inr c octet
      = mapR (\<lambda>d. d\<lparr>trace := (trace c @ L @ W) @ trace d\<rparr>) (resumed v)"
    using True by (simp only: with_other if_True bindR_Inr resumed_past)
  have "releases cw octet" using True received_cong [OF rx] rx conn by (simp add: releases_def)
  moreover have "released cw = v\<lparr>trace := (trace c @ W @ L) @ trace v\<rparr>"
    using lock_pair_cong [OF cb] rx W(1) by (simp add: released_eq v_def L_def)
  ultimately have x2: "deliver_octet R cw octet = mapR (\<lambda>d. d\<lparr>trace := (trace c @ W @ L) @ trace d\<rparr>) (resumed v)"
    using with_other [of R Inr cw octet] by (simp only: with_none if_True bindR_Inr resumed_past)
  obtain a fs' ds' where s': "on_octet (abs_sfp R cw) octet = (a, fs', ds')" by (metis prod_cases3)
  obtain c2 where c2: "deliver_octet R cw octet = Inr c2" "reacts R cw c2 (abs_endpoint R c2) fs' ds'"
    using octets.step_ok [OF cw(2) TrueI s'] by blast
  obtain k where k: "resumed v = Inr k" "c2 = k\<lparr>trace := (trace c @ W @ L) @ trace k\<rparr>"
    using x2 c2(1) by (cases "resumed v") auto
  have "lock_monitor False (L @ W @ trace k) = Some False" if "sfpIsTransmitterLockable c"
    using reacts_lock [OF cw(4) that] reacts_lock [OF c2(2)] k(2) W(1) that lockable_callbacks [OF cb]
    by (auto simp: lock_monitor_append L_def)
  with True x1 c2(1) k cw(1) show ?thesis
    by (intro exI [of _ "k\<lparr>trace := (trace c @ L @ W) @ trace k\<rparr>"])
      (auto simp: run_calls_def foldR_append written_def delivered_def L_def)
qed

text \<open>A packet is sent by another thread while one is received.\<close>

theorem concurrent_send_linearizes_witness:
  "\<exists>c c1 c2. releases c SFP_FLAG
    \<and> deliver_octet_with list_ringbuffer (\<lambda>c. run_calls list_ringbuffer c [CallWrite (replicate SFP_CONFIG_MAX_PACKET_SIZE 0) [3]])
        Inr c SFP_FLAG = Inr c1
    \<and> run_calls list_ringbuffer c [CallWrite (replicate SFP_CONFIG_MAX_PACKET_SIZE 0) [3], CallOctet SFP_FLAG] = Inr c2
    \<and> written c c1 = written c c2"
proof -
  obtain c where c: "sfp_inv list_ringbuffer c" "releases c SFP_FLAG"
    using before_flag by (auto simp: releases_def)
  from concurrent_send_linearizes [OF c(1), of "[CallWrite (replicate SFP_CONFIG_MAX_PACKET_SIZE 0) [3]]" SFP_FLAG] c(2)
  show ?thesis by (auto simp: sfp_consts)
qed

end
