(* ===== verification/Sfp_Duplex.thy ===== *)
theory Sfp_Duplex
  imports Sfp_Calls "HOL-Library.Sublist"
begin

text \<open>
  Two connected endpoints that both send, over a link that delays but does not lose: what
  follows for any two front ends that are explained by calls of the library, whatever they
  do between reading and writing octets.
\<close>

section \<open>One endpoint\<close>

text \<open>
  An endpoint that is given the frames of a peer's messages, in whatever pieces and with
  whatever packets written in between: it writes the frames of its own packets and delivers
  the peer's messages.
\<close>

lemma on_octet_deframe:
  "on_octet (e, r) x = (let (r', is) = deframe r [x]; (e', fs, ds) = on_inputs e is in ((e', r'), fs, ds))"
  using on_octets_deframe [of e r "[x]"] by simp

lemma deframe_single: "\<exists>r' is. deframe r [x] = (r', is) \<and> length is \<le> 1"
  by (auto simp: flagged_def)

lemma duplex_run:
  assumes "CallConnect \<notin> set calls" and "conn e = SFP_CONNECT_STATE_CONNECTED"
    and "deframe r (concat (map call_octets calls)) = (r', map Some (usr (rxs e) ms))"
  shows "\<exists>e'. run_spec on_call (e, r) calls = ((e', r'), usr (txs e) (concat (map call_packets calls)), ms)"
  using assms
proof (induction calls arbitrary: e r ms)
  case Nil
  then show ?case by (cases ms) simp_all
next
  case (Cons call calls)
  show ?case
  proof (cases call)
    case CallConnect
    with Cons.prems(1) show ?thesis by simp
  next
    case (CallWrite stack bs)
    with Cons.IH [of "fst (on_send e bs)" r ms] Cons.prems show ?thesis
      by (auto simp: on_send_def)
  next
    case (CallOctet x)
    obtain r1 "is" where r1: "deframe r [x] = (r1, is)" "length is \<le> 1" using deframe_single by blast
    obtain r2 js where r2: "deframe r1 (concat (map call_octets calls)) = (r2, js)" by (metis surj_pair)
    have eq: "r2 = r'" "is @ js = map Some (usr (rxs e) ms)"
      using Cons.prems(3) r1(1) r2 deframe_append [of r "[x]" "concat (map call_octets calls)"] CallOctet by simp_all
    show ?thesis
    proof (cases "is")
      case Nil
      then have "on_octet (e, r) x = ((e, r1), [], [])" using r1 by (simp add: on_octet_deframe)
      with Cons.IH [of e r1 ms] Cons.prems(1,2) r2 eq Nil CallOctet show ?thesis by auto
    next
      case (Cons i is')
      with r1(2) eq(2) obtain m ms' where m: "ms = m # ms'" "is = [Some (USR (rxs e) m)]"
        "js = map Some (usr (nextSeq (rxs e)) ms')" by (cases ms) auto
      let ?e = "e\<lparr>rxs := nextSeq (rxs e)\<rparr>"
      have "on_octet (e, r) x = ((?e, r1), [], [m])"
        using receives(1) [OF Cons.prems(2), of "[m]"] r1(1) m(2) by (simp add: on_octet_deframe)
      with Cons.IH [of ?e r1 ms'] Cons.prems(1,2) r2 eq(1) m CallOctet show ?thesis by auto
    qed
  qed
qed

lemma take_usr: "take k (usr s ms) = usr s (take k ms)"
  by (induction ms arbitrary: s k) (auto simp: take_Cons')

lemma length_usr [simp]: "length (usr s ms) = length ms"
  by (induction ms arbitrary: s) simp_all

text \<open>
  What a transmitter may put on the line: its frames, and flags between them to keep the
  line alive. The receiver hears the frames.
\<close>

inductive on_line :: "frame list \<Rightarrow> u8 list \<Rightarrow> bool" where
  silence: "on_line [] []"
| framed: "on_line fs xs \<Longrightarrow> on_line (fs @ gs) (xs @ wire gs)"
| alive: "on_line fs xs \<Longrightarrow> on_line fs (xs @ [SFP_FLAG])"

lemma on_line_wire [intro, simp]: "on_line fs (wire fs)"
  using on_line.framed [OF on_line.silence, of fs] by simp

lemma on_line_deframe: "on_line fs xs \<Longrightarrow> \<forall>f \<in> set fs. frame_ok f \<Longrightarrow> deframe idle xs = (idle, map Some fs)"
  by (induction rule: on_line.induct) (auto simp: deframe_append deframe_wire)

text \<open>A beginning of what may be on the line.\<close>

definition begun :: "frame list \<Rightarrow> u8 list \<Rightarrow> bool" where
  "begun fs xs \<longleftrightarrow> (\<exists>zs. on_line fs zs \<and> prefix xs zs)"

lemma begun_prefix: "begun fs xs \<Longrightarrow> prefix ys xs \<Longrightarrow> begun fs ys"
  unfolding begun_def by (blast intro: prefix_order.trans)

lemma begunI [intro]: "on_line fs xs \<Longrightarrow> begun fs xs" "prefix xs (wire fs) \<Longrightarrow> begun fs xs"
  unfolding begun_def by blast+

lemma begun_Nil [simp]: "begun fs []"
  by (auto simp: begun_def)

text \<open>All of the frames are in a beginning of the octets.\<close>

definition arrived :: "frame list \<Rightarrow> u8 list \<Rightarrow> bool" where
  "arrived fs xs \<longleftrightarrow> (\<exists>ys. on_line fs ys \<and> prefix ys xs)"

lemma arrivedI [intro]: "on_line fs xs \<Longrightarrow> arrived fs xs"
  unfolding arrived_def by blast

text \<open>A beginning of the line of the messages \<open>ms\<close> contains the first of them.\<close>

lemma deframe_prefix:
  assumes "begun (usr s ms) xs" and "seq_ok s" and "\<forall>m \<in> set ms. length m \<le> max_payload"
  obtains r k where "deframe idle xs = (r, map Some (usr s (take k ms)))" "arrived (usr s ms) xs \<longrightarrow> k = length ms"
proof -
  obtain ys zs where zs: "on_line (usr s ms) zs" "zs = xs @ ys"
    using assms(1) by (auto simp: begun_def elim: prefixE)
  have ok: "\<forall>f \<in> set (usr s ms). frame_ok f" using usr_frames_ok [OF assms(2,3)] .
  obtain r "is" r' js where d: "deframe idle xs = (r, is)" "deframe r ys = (r', js)" by (metis surj_pair)
  have "is @ js = map Some (usr s ms)"
    using on_line_deframe [OF zs(1) ok] d deframe_append [of idle xs ys] zs(2) by simp
  then have "is = take (length is) (map Some (usr s ms))" by (metis append_eq_conv_conj)
  then have "is": "is = map Some (usr s (take (length is) ms))" by (simp add: take_map take_usr)
  show ?thesis
  proof (cases "arrived (usr s ms) xs")
    case True
    then obtain vs ws where "on_line (usr s ms) vs" "xs = vs @ ws" by (auto simp: arrived_def elim: prefixE)
    with on_line_deframe [OF _ ok] d(1) obtain ks where ks: "is = map Some (usr s ms) @ ks"
      by (auto simp: deframe_append split: prod.splits)
    then have "length ms \<le> length is" by simp
    with d(1) "is" that [of r "length ms"] show ?thesis by simp
  next
    case False
    with d(1) "is" that [of r "length is"] show ?thesis by simp
  qed
qed

lemma duplex_prefix:
  assumes "CallConnect \<notin> set calls" and "conn e = SFP_CONNECT_STATE_CONNECTED"
    and "begun (usr (rxs e) ms) (concat (map call_octets calls))"
    and "seq_ok (rxs e)" and "\<forall>m \<in> set ms. length m \<le> max_payload"
    and "run_spec on_call (e, idle) calls = (a, fs, ds)"
  shows "fs = usr (txs e) (concat (map call_packets calls)) \<and> prefix ds ms
    \<and> (arrived (usr (rxs e) ms) (concat (map call_octets calls)) \<longrightarrow> ds = ms)"
proof -
  obtain r k where "deframe idle (concat (map call_octets calls)) = (r, map Some (usr (rxs e) (take k ms)))"
    "arrived (usr (rxs e) ms) (concat (map call_octets calls)) \<longrightarrow> k = length ms"
    using deframe_prefix [OF assms(3-5)] .
  moreover from duplex_run [OF assms(1,2) this(1)] assms(6)
  have "fs = usr (txs e) (concat (map call_packets calls))" "ds = take k ms" by auto
  ultimately show ?thesis by (simp add: take_is_prefix)
qed

section \<open>Two front ends and a link\<close>

text \<open>
  Two machines run side by side; each reads octets that the other has written, in their
  order, late by any number.
\<close>

inductive linked ::
  "('n \<Rightarrow> 'n \<Rightarrow> bool) \<Rightarrow> ('n \<Rightarrow> u8 list) \<Rightarrow> ('n \<Rightarrow> u8 list)
    \<Rightarrow> ('m \<Rightarrow> 'm \<Rightarrow> bool) \<Rightarrow> ('m \<Rightarrow> u8 list) \<Rightarrow> ('m \<Rightarrow> u8 list) \<Rightarrow> 'n \<times> 'm \<Rightarrow> 'n \<times> 'm \<Rightarrow> bool"
  for stepn gotn putn stepm gotm putm where
  start: "linked stepn gotn putn stepm gotm putm p p"
| left: "linked stepn gotn putn stepm gotm putm p (n, m) \<Longrightarrow> stepn n n' \<Longrightarrow> prefix (gotn n') (putm m)
    \<Longrightarrow> linked stepn gotn putn stepm gotm putm p (n', m)"
| right: "linked stepn gotn putn stepm gotm putm p (n, m) \<Longrightarrow> stepm m m' \<Longrightarrow> prefix (gotm m') (putn n)
    \<Longrightarrow> linked stepn gotn putn stepm gotm putm p (n, m')"

text \<open>One side alone, on what the other has written so far.\<close>

lemma left_alone:
  assumes "(\<lambda>a b. stepn a b \<and> prefix (gotn b) (putm m))\<^sup>*\<^sup>* n n'" and "linked stepn gotn putn stepm gotm putm p (n, m)"
  shows "linked stepn gotn putn stepm gotm putm p (n', m)"
  using assms by (induction rule: rtranclp_induct) (auto intro: linked.left)

lemma right_alone:
  assumes "(\<lambda>a b. stepm a b \<and> prefix (gotm b) (putn n))\<^sup>*\<^sup>* m m'" and "linked stepn gotn putn stepm gotm putm p (n, m)"
  shows "linked stepn gotn putn stepm gotm putm p (n, m')"
  using assms by (induction rule: rtranclp_induct) (auto intro: linked.right)

text \<open>
  A front end: from a good start, with an endpoint of the library, what it has written is a
  beginning of the frames that calls of the library send, with flags between them; the calls
  read what it has read and write what it was given to send; what it has handed out is a
  beginning of what they deliver - if the client has room for that -, of which it shows the
  messages that \<open>seen\<close> selects. All of it, if it is \<open>quiet\<close>.
\<close>

locale front_end =
  fixes good :: "'n \<Rightarrow> bool" and step :: "'n \<Rightarrow> 'n \<Rightarrow> bool" and quiet :: "'n \<Rightarrow> bool"
    and view :: "'n \<Rightarrow> endpoint" and got put :: "'n \<Rightarrow> u8 list" and posted given :: "'n \<Rightarrow> u8 list list"
    and seen :: "u8 list list \<Rightarrow> u8 list list"
  assumes explained: "good n0 \<Longrightarrow> step\<^sup>*\<^sup>* n0 n \<Longrightarrow>
      \<exists>calls a fs ds. CallConnect \<notin> set calls \<and> run_spec on_call (view n0, idle) calls = (a, fs, ds)
        \<and> prefix (concat (map call_octets calls)) (got n) \<and> concat (map call_packets calls) = posted n
        \<and> begun fs (put n)
        \<and> ((\<forall>d \<in> set ds. length d \<le> max_payload) \<longrightarrow> prefix (given n) (seen ds) \<and> (quiet n \<longrightarrow> given n = seen ds))
        \<and> (quiet n \<longrightarrow> concat (map call_octets calls) = got n \<and> on_line fs (put n))"
    and connected: "good n0 \<Longrightarrow> conn (view n0) = SFP_CONNECT_STATE_CONNECTED \<and> seq_ok (rxs (view n0))"
    and fresh: "good n0 \<Longrightarrow> got n0 = [] \<and> put n0 = []"
    and grows: "good n0 \<Longrightarrow> step\<^sup>*\<^sup>* n0 n \<Longrightarrow> step n n' \<Longrightarrow> prefix (put n) (put n') \<and> prefix (posted n) (posted n')"
    and seen_mono: "prefix ds ds' \<Longrightarrow> prefix (seen ds) (seen ds')"
begin

lemma answers:
  assumes "good n0" and "step\<^sup>*\<^sup>* n0 n" and "begun (usr (rxs (view n0)) ms) (got n)"
    and "\<forall>m \<in> set ms. length m \<le> max_payload"
  shows "begun (usr (txs (view n0)) (posted n)) (put n) \<and> prefix (given n) (seen ms)
    \<and> (quiet n \<longrightarrow> on_line (usr (txs (view n0)) (posted n)) (put n))
    \<and> (quiet n \<and> arrived (usr (rxs (view n0)) ms) (got n) \<longrightarrow> given n = seen ms)"
proof -
  obtain calls a fs ds where c: "CallConnect \<notin> set calls" "run_spec on_call (view n0, idle) calls = (a, fs, ds)"
    "prefix (concat (map call_octets calls)) (got n)" "concat (map call_packets calls) = posted n"
    "begun fs (put n)"
    "(\<forall>d \<in> set ds. length d \<le> max_payload) \<longrightarrow> prefix (given n) (seen ds) \<and> (quiet n \<longrightarrow> given n = seen ds)"
    "quiet n \<longrightarrow> concat (map call_octets calls) = got n \<and> on_line fs (put n)"
    using explained [OF assms(1,2)] by blast
  have conn: "conn (view n0) = SFP_CONNECT_STATE_CONNECTED" and ok: "seq_ok (rxs (view n0))"
    using connected [OF assms(1)] by simp_all
  have "begun (usr (rxs (view n0)) ms) (concat (map call_octets calls))"
    using assms(3) c(3) by (rule begun_prefix)
  note d = duplex_prefix [OF c(1) conn this ok assms(4) c(2)]
  have "\<forall>d \<in> set ds. length d \<le> max_payload" using d assms(4) set_mono_prefix by blast
  with c(6) have given: "prefix (given n) (seen ds)" "quiet n \<longrightarrow> given n = seen ds" by simp_all
  have "prefix (given n) (seen ms)"
    using given(1) seen_mono [of ds ms] d by (auto intro: prefix_order.trans)
  with c(4,5,7) d given(2) show ?thesis by simp
qed

end

locale link = l: front_end lgood lstep lquiet lview lgot lput lposted lgiven lseen
    + r: front_end rgood rstep rquiet rview rgot rput rposted rgiven rseen
  for lgood :: "'n \<Rightarrow> bool" and lstep lquiet lview lgot lput lposted lgiven lseen
    and rgood :: "'m \<Rightarrow> bool" and rstep rquiet rview rgot rput rposted rgiven rseen
begin

lemma l_reach: "linked lstep lgot lput rstep rgot rput (n0, m0) (n, m) \<Longrightarrow> lstep\<^sup>*\<^sup>* n0 n"
  by (induction "(n0, m0)" "(n, m)" arbitrary: n m rule: linked.induct) (auto intro: rtranclp.rtrancl_into_rtrancl)

lemma r_reach: "linked lstep lgot lput rstep rgot rput (n0, m0) (n, m) \<Longrightarrow> rstep\<^sup>*\<^sup>* m0 m"
  by (induction "(n0, m0)" "(n, m)" arbitrary: n m rule: linked.induct) (auto intro: rtranclp.rtrancl_into_rtrancl)

lemma exchange:
  assumes good: "lgood n0" "rgood m0"
    and numbers: "rxs (rview m0) = txs (lview n0)" "rxs (lview n0) = txs (rview m0)"
    and run: "linked lstep lgot lput rstep rgot rput (n0, m0) (n, m)"
    and fits: "\<forall>bs \<in> set (lposted n) \<union> set (rposted m). length bs \<le> max_payload"
  shows "lstep\<^sup>*\<^sup>* n0 n \<and> rstep\<^sup>*\<^sup>* m0 m \<and> prefix (lgot n) (rput m) \<and> prefix (rgot m) (lput n)
    \<and> begun (usr (txs (lview n0)) (lposted n)) (lput n)
    \<and> begun (usr (txs (rview m0)) (rposted m)) (rput m)"
  using run fits
proof (induction "(n0, m0)" "(n, m)" arbitrary: n m rule: linked.induct)
  case start
  then show ?case using l.fresh [OF good(1)] r.fresh [OF good(2)] by simp
next
  case (left n m n')
  have "lstep\<^sup>*\<^sup>* n0 n" using l_reach left.hyps(1) .
  note grow = l.grows [OF good(1) this left.hyps(3)]
  then have "set (lposted n) \<subseteq> set (lposted n')" by (simp add: set_mono_prefix)
  with left.prems have ih: "rstep\<^sup>*\<^sup>* m0 m" "prefix (rgot m) (lput n)" 
    "begun (usr (txs (rview m0)) (rposted m)) (rput m)" using left.hyps(2) by auto
  have "lstep\<^sup>*\<^sup>* n0 n'" using \<open>lstep\<^sup>*\<^sup>* n0 n\<close> left.hyps(3) by simp
  moreover have "begun (usr (rxs (lview n0)) (rposted m)) (lgot n')"
    using begun_prefix [OF ih(3) left.hyps(4)] numbers(2) by simp
  ultimately have "begun (usr (txs (lview n0)) (lposted n')) (lput n')"
    using l.answers [OF good(1)] left.prems by blast
  with \<open>lstep\<^sup>*\<^sup>* n0 n'\<close> left.hyps(4) ih grow show ?case by (auto intro: prefix_order.trans)
next
  case (right n m m')
  have "rstep\<^sup>*\<^sup>* m0 m" using r_reach right.hyps(1) .
  note grow = r.grows [OF good(2) this right.hyps(3)]
  then have "set (rposted m) \<subseteq> set (rposted m')" by (simp add: set_mono_prefix)
  with right.prems have ih: "lstep\<^sup>*\<^sup>* n0 n" "prefix (lgot n) (rput m)"
    "begun (usr (txs (lview n0)) (lposted n)) (lput n)" using right.hyps(2) by auto
  have "rstep\<^sup>*\<^sup>* m0 m'" using \<open>rstep\<^sup>*\<^sup>* m0 m\<close> right.hyps(3) by simp
  moreover have "begun (usr (rxs (rview m0)) (lposted n)) (rgot m')"
    using begun_prefix [OF ih(3) right.hyps(4)] numbers(1) by simp
  ultimately have "begun (usr (txs (rview m0)) (rposted m')) (rput m')"
    using r.answers [OF good(2)] right.prems by blast
  with \<open>rstep\<^sup>*\<^sup>* m0 m'\<close> right.hyps(4) ih grow show ?case by (auto intro: prefix_order.trans)
qed

lemma delivered_in_order:
  assumes good: "lgood n0" "rgood m0"
    and numbers: "rxs (rview m0) = txs (lview n0)" "rxs (lview n0) = txs (rview m0)"
    and run: "linked lstep lgot lput rstep rgot rput (n0, m0) (n, m)"
    and fits: "\<forall>bs \<in> set (lposted n) \<union> set (rposted m). length bs \<le> max_payload"
  shows "prefix (rgiven m) (rseen (lposted n)) \<and> prefix (lgiven n) (lseen (rposted m))
    \<and> (lquiet n \<and> rquiet m \<and> rgot m = lput n \<longrightarrow> rgiven m = rseen (lposted n))
    \<and> (lquiet n \<and> rquiet m \<and> lgot n = rput m \<longrightarrow> lgiven n = lseen (rposted m))"
proof -
  have x: "lstep\<^sup>*\<^sup>* n0 n" "rstep\<^sup>*\<^sup>* m0 m" "prefix (lgot n) (rput m)" "prefix (rgot m) (lput n)"
    "begun (usr (txs (lview n0)) (lposted n)) (lput n)" "begun (usr (txs (rview m0)) (rposted m)) (rput m)"
    using exchange [OF assms] by blast+
  have "begun (usr (rxs (lview n0)) (rposted m)) (lgot n)" "begun (usr (rxs (rview m0)) (lposted n)) (rgot m)"
    using begun_prefix [OF x(6,3)] begun_prefix [OF x(5,4)] numbers by simp_all
  with l.answers [OF good(1) x(1), of "rposted m"] r.answers [OF good(2) x(2), of "lposted n"] fits numbers
  show ?thesis by auto
qed

text \<open>What one side has written at an earlier moment counts once the other has read it.\<close>

lemma delivered_since:
  assumes good: "lgood n0" "rgood m0"
    and numbers: "rxs (rview m0) = txs (lview n0)" "rxs (lview n0) = txs (rview m0)"
    and before: "linked lstep lgot lput rstep rgot rput (n0, m0) (n1, m1)"
    and run: "linked lstep lgot lput rstep rgot rput (n0, m0) (n, m)"
    and fits: "\<forall>bs \<in> set (lposted n) \<union> set (rposted m). length bs \<le> max_payload"
      "\<forall>bs \<in> set (lposted n1) \<union> set (rposted m1). length bs \<le> max_payload"
  shows "lquiet n1 \<Longrightarrow> rquiet m \<Longrightarrow> lposted n1 = lposted n
      \<Longrightarrow> prefix (lput n1) (rgot m) \<Longrightarrow> rgiven m = rseen (lposted n)"
    and "rquiet m1 \<Longrightarrow> lquiet n \<Longrightarrow> rposted m1 = rposted m
      \<Longrightarrow> prefix (rput m1) (lgot n) \<Longrightarrow> lgiven n = lseen (rposted m)"
proof -
  have x: "lstep\<^sup>*\<^sup>* n0 n" "rstep\<^sup>*\<^sup>* m0 m" "prefix (lgot n) (rput m)" "prefix (rgot m) (lput n)"
    "begun (usr (txs (lview n0)) (lposted n)) (lput n)" "begun (usr (txs (rview m0)) (rposted m)) (rput m)"
    using exchange [OF good numbers run fits(1)] by blast+
  have got: "begun (usr (rxs (lview n0)) (rposted m)) (lgot n)" "begun (usr (rxs (rview m0)) (lposted n)) (rgot m)"
    using begun_prefix [OF x(6,3)] begun_prefix [OF x(5,4)] numbers by simp_all
  have y: "lstep\<^sup>*\<^sup>* n0 n1" "rstep\<^sup>*\<^sup>* m0 m1" "begun (usr (rxs (lview n0)) (rposted m1)) (lgot n1)"
      "begun (usr (rxs (rview m0)) (lposted n1)) (rgot m1)"
    using exchange [OF good numbers before fits(2)] numbers by (auto intro: begun_prefix)
  show "rgiven m = rseen (lposted n)" if "lquiet n1" "rquiet m" "lposted n1 = lposted n"
    "prefix (lput n1) (rgot m)"
  proof -
    have "on_line (usr (txs (lview n0)) (lposted n)) (lput n1)"
      using l.answers [OF good(1) y(1,3)] fits that by auto
    with that(4) numbers(1) have "arrived (usr (rxs (rview m0)) (lposted n)) (rgot m)" by (auto simp: arrived_def)
    with r.answers [OF good(2) x(2) got(2)] fits that(2) show ?thesis by auto
  qed
  show "lgiven n = lseen (rposted m)" if "rquiet m1" "lquiet n" "rposted m1 = rposted m"
    "prefix (rput m1) (lgot n)"
  proof -
    have "on_line (usr (txs (rview m0)) (rposted m)) (rput m1)"
      using r.answers [OF good(2) y(2,4)] fits that by auto
    with that(4) numbers(2) have "arrived (usr (rxs (lview n0)) (rposted m)) (lgot n)" by (auto simp: arrived_def)
    with l.answers [OF good(1) x(1) got(1)] fits that(2) show ?thesis by auto
  qed
qed

end

end
