(* ===== verification/Sfp_Error.thy ===== *)
theory Sfp_Error
  imports Sfp_Prelude
begin

text \<open>
  The status codes of the library as error codes of the Boost system library
  (\<^verbatim>\<open>src/include/sfp/status.hpp\<close>, \<^verbatim>\<open>src/src/system_error.cpp\<close>), with the error codes of
  Asio that the asynchronous front ends name, and the protocol between a coroutine and the
  completions that resume it.
\<close>

section \<open>Status codes\<close>

datatype Status = OK | HANDSHAKE_FAILED

fun status_value :: "Status \<Rightarrow> int" where
  "status_value OK = 0"
| "status_value HANDSHAKE_FAILED = 1"

text \<open>
  The codes of \<^verbatim>\<open>boost::asio::error\<close> that the sources name; every other code of another
  category with a value other than 0 is \<^term>\<open>Other_error\<close>.
\<close>

datatype asio_error = Timed_out | Operation_aborted | Network_down | Message_size | Other_error nat

text \<open>
  An error code: the default-constructed one, one of Asio's, or one of this library's
  category. Its conversion to \<^verbatim>\<open>bool\<close> asks whether its value is other than 0.
\<close>

datatype error_code = No_error | Asio asio_error | Sfp Status

fun failed :: "error_code \<Rightarrow> bool" where
  "failed No_error \<longleftrightarrow> False"
| "failed (Asio e) \<longleftrightarrow> True"
| "failed (Sfp s) \<longleftrightarrow> status_value s \<noteq> 0"

definition ErrorCategory_name :: string where
  "ErrorCategory_name = ''sfp''"

definition ErrorCategory_message :: "int \<Rightarrow> string" where
  "ErrorCategory_message ev =
     (if ev = status_value OK then ''OK''
      else if ev = status_value HANDSHAKE_FAILED then ''HANDSHAKE_FAILED''
      else ''(unknown status)'')"

definition make_error_code :: "Status \<Rightarrow> error_code" where
  "make_error_code status = Sfp status"

text \<open>An error condition, like an error code, is a value and a category: here its name.\<close>

definition make_error_condition :: "Status \<Rightarrow> int \<times> string" where
  "make_error_condition status = (status_value status, ErrorCategory_name)"

lemma failed_make_error_code [simp]: "failed (make_error_code s) \<longleftrightarrow> s = HANDSHAKE_FAILED"
  by (cases s) (simp_all add: make_error_code_def)

section \<open>Coroutines\<close>

text \<open>
  A stackless coroutine (\<^verbatim>\<open>boost::asio::coroutine\<close>) runs until it starts an asynchronous
  operation, with the place where it goes on, or until it completes with an error code.
  Reading at most so many octets, writing all of a buffer, waiting for the lock of the
  writers (the phaser).
\<close>

datatype io = Read_some nat | Write_all "u8 list" | Dispatch

datatype 'pc progress = Suspend 'pc io | Complete error_code

text \<open>
  A completion: the error code, the octets that were read, and whether the timer of the
  timed operation around it has expired.
\<close>

record completion =
  c_ec :: error_code
  c_data :: "u8 list"
  c_expired :: bool

text \<open>A coroutine that is resumed by one completion after the other.\<close>

fun run_op ::
  "('pc \<Rightarrow> completion \<Rightarrow> 's \<Rightarrow> ('s \<times> 'pc progress) res) \<Rightarrow> 's \<times> 'pc progress \<Rightarrow> completion list
    \<Rightarrow> ('s \<times> 'pc progress) res" where
  "run_op resume (s, Suspend pc io) (c # cs) = bindR (resume pc c s) (\<lambda>r. run_op resume r cs)"
| "run_op resume (s, Suspend pc io) [] = Inr (s, Suspend pc io)"
| "run_op resume (s, Complete ec) cs = Inr (s, Complete ec)"

text \<open>What is known of the state where the coroutine waits, and where it has completed.\<close>

fun holds_at ::
  "('pc \<Rightarrow> 's \<Rightarrow> bool) \<Rightarrow> (error_code \<Rightarrow> 's \<Rightarrow> bool) \<Rightarrow> 's \<times> 'pc progress \<Rightarrow> bool" where
  "holds_at waiting post (s, Suspend pc io) \<longleftrightarrow> waiting pc s"
| "holds_at waiting post (s, Complete ec) \<longleftrightarrow> post ec s"

text \<open>
  The contract of a coroutine: an assertion for every place where it waits is enough for
  its next stretch, which ends in such a place again or completes with its postcondition,
  unless it stops with a tolerated fault.
\<close>

locale coroutine =
  fixes resume :: "'pc \<Rightarrow> completion \<Rightarrow> 's \<Rightarrow> ('s \<times> 'pc progress) res"
    and waiting :: "'pc \<Rightarrow> 's \<Rightarrow> bool" and post :: "error_code \<Rightarrow> 's \<Rightarrow> bool"
    and valid :: "completion \<Rightarrow> bool" and faults :: "fault set"
  assumes resume_ok: "waiting pc s \<Longrightarrow> valid c \<Longrightarrow> safe faults (resume pc c s) (holds_at waiting post)"
begin

lemma run_ok:
  assumes "holds_at waiting post r" and "\<forall>c \<in> set cs. valid c"
  shows "safe faults (run_op resume r cs) (holds_at waiting post)"
  using assms
proof (induction cs arbitrary: r)
  case Nil
  obtain s p where r: "r = (s, p)" by (cases r)
  with Nil show ?case by (cases p) auto
next
  case (Cons c cs)
  obtain s p where r: "r = (s, p)" by (cases r)
  show ?case
  proof (cases p)
    case (Suspend pc io)
    with Cons.prems have "safe faults (resume pc c s) (holds_at waiting post)"
      by (intro resume_ok) (auto simp: r)
    then have "safe faults (bindR (resume pc c s) (\<lambda>r. run_op resume r cs)) (holds_at waiting post)"
      by (rule safe_bind) (rule Cons.IH, assumption, use Cons.prems(2) in simp)
    with Suspend show ?thesis by (simp add: r)
  qed (use Cons.prems(1) in \<open>simp add: r\<close>)
qed

end

end
