(* ===== verification/Sfp_Stream.thy ===== *)
theory Sfp_Stream
  imports Sfp_Calls Sfp_Error
begin

text \<open>
  The class \<^verbatim>\<open>sfp::stream\<close> of \<^verbatim>\<open>src/include/sfp/stream.hpp\<close>, first part: the object, its
  write callback and \<^verbatim>\<open>deliver_input_sequence\<close>, which feeds the octets of the read buffer to
  the library until a message has arrived. The buffers are Beast's multi-buffers and a
  parameter here; the write buffer throws when the frames of a reaction exceed its limit.
\<close>

section \<open>Dynamic buffers\<close>

text \<open>
  A dynamic buffer of Asio: its readable octets, \<^verbatim>\<open>prepare (n)\<close>, which makes room for \<open>n\<close>
  more or throws (\<^term>\<open>None\<close>), \<^verbatim>\<open>commit\<close> of octets that were stored in the room prepared,
  and \<^verbatim>\<open>consume (n)\<close>.
\<close>

record 'b dynbuf =
  db_data :: "'b \<Rightarrow> u8 list"
  db_prepare :: "'b \<Rightarrow> nat \<Rightarrow> 'b option"
  db_commit :: "'b \<Rightarrow> u8 list \<Rightarrow> 'b"
  db_consume :: "'b \<Rightarrow> nat \<Rightarrow> 'b"

text \<open>
  The documented behaviour of a buffer with a maximal size: \<^verbatim>\<open>prepare\<close> throws
  \<^verbatim>\<open>std::length_error\<close> exactly if the limit would be exceeded, a commit appends at most as
  many octets as were prepared, and \<^verbatim>\<open>consume\<close> removes from the front.
\<close>

definition dynbuf_laws :: "('b, 'z) dynbuf_scheme \<Rightarrow> nat \<Rightarrow> bool" where
  "dynbuf_laws B limit \<longleftrightarrow>
     (\<forall>b n. db_prepare B b n = None \<longleftrightarrow> limit < length (db_data B b) + n) \<and>
     (\<forall>b n b' xs. db_prepare B b n = Some b' \<longrightarrow> length xs \<le> n \<longrightarrow>
        db_data B (db_commit B b' xs) = db_data B b @ xs) \<and>
     (\<forall>b n b'. db_prepare B b n = Some b' \<longrightarrow> db_data B b' = db_data B b) \<and>
     (\<forall>b n. db_data B (db_consume B b n) = drop n (db_data B b))"

definition list_dynbuf :: "nat \<Rightarrow> u8 list dynbuf" where
  "list_dynbuf limit =
     \<lparr>db_data = id, db_prepare = (\<lambda>b n. if limit < length b + n then None else Some b),
      db_commit = (@), db_consume = (\<lambda>b n. drop n b)\<rparr>"

lemma list_dynbuf_laws [simp]: "dynbuf_laws (list_dynbuf limit) limit"
  by (auto simp: dynbuf_laws_def list_dynbuf_def split: if_splits)

lemma dynbuf_prepare_None: "dynbuf_laws B limit \<Longrightarrow> db_prepare B b n = None \<longleftrightarrow> limit < length (db_data B b) + n"
  by (simp add: dynbuf_laws_def)

lemma dynbuf_prepare:
  assumes "dynbuf_laws B limit" and "length (db_data B b) + n \<le> limit"
  shows "\<exists>b'. db_prepare B b n = Some b' \<and> db_data B b' = db_data B b
    \<and> (\<forall>xs. length xs \<le> n \<longrightarrow> db_data B (db_commit B b' xs) = db_data B b @ xs)"
  using assms by (cases "db_prepare B b n") (auto simp: dynbuf_laws_def)

lemma dynbuf_consume: "dynbuf_laws B limit \<Longrightarrow> db_data B (db_consume B b n) = drop n (db_data B b)"
  by (simp add: dynbuf_laws_def)

section \<open>The object\<close>

text \<open>The constructor gives both buffers this limit.\<close>

definition buffer_limit :: nat where
  [sfp_consts]: "buffer_limit = 1024"

text \<open>
  The next layer is a stream of Asio, whose completions are inputs of the coroutines.
  \<open>phaser_held\<close> says whether a work guard of the \<^verbatim>\<open>write_phaser\<close> exists, \<open>address\<close> is the
  address of the object.
\<close>

record ('h, 'b) stream =
  phaser_held :: bool
  read_buffer :: 'b
  write_buffer :: 'b
  sfp_context :: "'h sfp"
  sfp_packet :: SFPpacket
  address :: nat

text \<open>The address of the lambda that \<^verbatim>\<open>handshake_op\<close> registers.\<close>

definition addr_on_sfp_write :: nat where
  "addr_on_sfp_write = 5"

definition on_sfp_write :: "('b, 'y) dynbuf_scheme \<Rightarrow> ('h, 'b) stream \<Rightarrow> u8 list \<Rightarrow> ('h, 'b) stream res" where
  "on_sfp_write B s octets =
     (case db_prepare B (write_buffer s) (length octets) of
        None \<Rightarrow> Inl LengthError
      | Some b \<Rightarrow> Inr (s\<lparr>write_buffer := db_commit B b octets\<rparr>))"

text \<open>
  A call of the library on the object's context, with the callbacks it makes: the lambda
  casts the user pointer to the object. No other callback is ever registered. The callback
  does not touch the library's context, so the calls can be run in their order when the
  library returns; an exception of the buffer ends the call.
\<close>

fun stream_callback :: "('b, 'y) dynbuf_scheme \<Rightarrow> ('h, 'b) stream \<Rightarrow> event \<Rightarrow> ('h, 'b) stream res" where
  "stream_callback B s (Write_call f octets d) =
     (if f = addr_on_sfp_write \<and> d = Some (address s) then on_sfp_write B s octets else Inl NullDeref)"
| "stream_callback B s _ = Inl NullDeref"

definition with_sfp ::
  "('b, 'y) dynbuf_scheme \<Rightarrow> ('h sfp \<Rightarrow> ('h sfp \<times> 'r) res) \<Rightarrow> ('h, 'b) stream \<Rightarrow> (('h, 'b) stream \<times> 'r) res" where
  "with_sfp B f s =
     bindR (f (sfp_context s))
     (\<lambda>(c, r). bindR (foldR (stream_callback B) (drop (length (trace (sfp_context s))) (trace c)) (s\<lparr>sfp_context := c\<rparr>))
     (\<lambda>s. Inr (s, r)))"

section \<open>The input sequence\<close>

text \<open>\<^verbatim>\<open>sfpDeliverOctet (&sfp_context, *octet, pkt.buf, sizeof (pkt.buf), &pkt.len)\<close>\<close>

definition stream_octet ::
  "('h, 'z) ringbuffer_scheme \<Rightarrow> ('b, 'y) dynbuf_scheme \<Rightarrow> ('h, 'b) stream \<Rightarrow> u8 \<Rightarrow> (('h, 'b) stream \<times> int) res" where
  "stream_octet R B s octet =
     (let pkt = sfp_packet s
      in bindR (with_sfp B
                  (\<lambda>c. bindR (sfpDeliverOctet R c octet (Some (buf pkt)) SFP_CONFIG_MAX_PACKET_SIZE (Some (len pkt)))
                       (\<lambda>(c, rc, mem, outlen). Inr (c, rc, mem, outlen))) s)
         (\<lambda>(s, rc, mem, outlen). Inr (s\<lparr>sfp_packet := \<lparr>buf = the mem, len = the outlen\<rparr>\<rparr>, rc)))"

primrec deliver_loop ::
  "('h, 'z) ringbuffer_scheme \<Rightarrow> ('b, 'y) dynbuf_scheme \<Rightarrow> u8 list \<Rightarrow> ('h, 'b) stream \<Rightarrow> nat
    \<Rightarrow> (('h, 'b) stream \<times> nat) res" where
  "deliver_loop R B [] s n = Inr (s, n)"
| "deliver_loop R B (octet # octets) s n =
     bindR (stream_octet R B s octet)
     (\<lambda>(s, rc). assertR (rc \<noteq> -1)
        (if rc = 1 \<and> len (sfp_packet s) \<noteq> 0 then Inr (s, Suc n)
         else deliver_loop R B octets s (Suc n)))"

definition deliver_input_sequence ::
  "('h, 'z) ringbuffer_scheme \<Rightarrow> ('b, 'y) dynbuf_scheme \<Rightarrow> ('h, 'b) stream \<Rightarrow> ('h, 'b) stream res" where
  "deliver_input_sequence R B s =
     (let s = s\<lparr>sfp_packet := (sfp_packet s)\<lparr>len := 0\<rparr>\<rparr>
      in bindR (deliver_loop R B (db_data B (read_buffer s)) s 0)
         (\<lambda>(s, n). Inr (s\<lparr>read_buffer := db_consume B (read_buffer s) n\<rparr>)))"

section \<open>Its specification\<close>

text \<open>
  The state after the octets up to the first non-empty message, the frames sent, the
  message (empty if there is none) and the octets left.
\<close>

fun take_message ::
  "endpoint \<times> receiver \<Rightarrow> u8 list \<Rightarrow> (endpoint \<times> receiver) \<times> frame list \<times> u8 list \<times> u8 list" where
  "take_message a [] = (a, [], [], [])"
| "take_message a (x # xs) =
     (let (a, fs, ds) = on_octet a x
      in if ds \<noteq> [] \<and> hd ds \<noteq> [] then (a, fs, hd ds, xs)
         else let (a, fs', m, rest) = take_message a xs in (a, fs @ fs', m, rest))"

lemma on_input_deliveries:
  "on_input e f = (e', fs, ds) \<Longrightarrow>
   ds = [] \<or> (\<exists>t s bs. f = Some (t, s, bs) \<and> ds = [bs]) \<and> conn e' = SFP_CONNECT_STATE_CONNECTED"
  by (cases f; cases "fst (the f)")
    (auto simp: on_input_def on_user_def on_nak_def on_syn_def resend_def resend_all_def Let_def split: if_splits prod.splits)

lemma on_octet_deliveries:
  assumes "on_octet (e, r) x = ((e', r'), fs, ds)"
  shows "ds = [] \<or> (\<exists>bs. ds = [bs] \<and> length bs \<le> length (body r) - 3) \<and> conn e' = SFP_CONNECT_STATE_CONNECTED"
  using assms
  by (auto simp: on_octet_def parse_body_def sfp_consts dest!: on_input_deliveries split: if_splits prod.splits)

text \<open>The message is the first non-empty delivery of the octets taken, and there is at most one.\<close>

lemma take_message_octets:
  assumes "take_message a xs = (a', fs, m, rest)"
  shows "\<exists>pre ds. xs = pre @ rest \<and> on_octets a pre = (a', fs, ds)
    \<and> filter (\<lambda>d. d \<noteq> []) ds = (if m = [] then [] else [m])"
    and "m = [] \<Longrightarrow> rest = []" and "m \<noteq> [] \<Longrightarrow> conn (fst a') = SFP_CONNECT_STATE_CONNECTED"
proof -
  have "(\<exists>pre ds. xs = pre @ rest \<and> on_octets a pre = (a', fs, ds)
      \<and> filter (\<lambda>d. d \<noteq> []) ds = (if m = [] then [] else [m]))
    \<and> (m = [] \<longrightarrow> rest = []) \<and> (m \<noteq> [] \<longrightarrow> conn (fst a') = SFP_CONNECT_STATE_CONNECTED)"
    using assms
  proof (induction a xs arbitrary: fs rule: take_message.induct)
    case (1 a)
    then show ?case by auto
  next
    case (2 a x xs)
    obtain e r e1 r1 fs1 ds1 where o: "on_octet a x = ((e1, r1), fs1, ds1)" and a: "a = (e, r)"
      by (metis prod_cases3 surj_pair)
    then have ds1: "ds1 = [] \<or> (\<exists>bs. ds1 = [bs]) \<and> conn e1 = SFP_CONNECT_STATE_CONNECTED"
      using on_octet_deliveries by blast
    show ?case
    proof (cases "ds1 \<noteq> [] \<and> hd ds1 \<noteq> []")
      case True
      with 2 o have "a' = (e1, r1)" "fs = fs1" "m = hd ds1" "rest = xs" by auto
      with True ds1 o show ?thesis by (auto intro!: exI [of _ "[x]"])
    next
      case False
      obtain fs2 where t: "take_message (e1, r1) xs = (a', fs2, m, rest)" "fs = fs1 @ fs2"
        using 2(2) o False by (auto split: prod.splits)
      obtain pre ds where p: "xs = pre @ rest" "on_octets (e1, r1) pre = (a', fs2, ds)"
        "filter (\<lambda>d. d \<noteq> []) ds = (if m = [] then [] else [m])" "m = [] \<longrightarrow> rest = []"
        "m \<noteq> [] \<longrightarrow> conn (fst a') = SFP_CONNECT_STATE_CONNECTED"
        using 2(1) [OF o [symmetric] refl refl False t(1)] by blast
      have "on_octets a (x # pre) = (a', fs, ds1 @ ds)" by (simp add: o p(2) t(2))
      moreover have "filter (\<lambda>d. d \<noteq> []) (ds1 @ ds) = (if m = [] then [] else [m])"
        using False ds1 p(3) by (auto simp: filter_empty_conv)
      ultimately show ?thesis using p by (metis append_Cons)
    qed
  qed
  then show "\<exists>pre ds. xs = pre @ rest \<and> on_octets a pre = (a', fs, ds)
    \<and> filter (\<lambda>d. d \<noteq> []) ds = (if m = [] then [] else [m])"
    and "m = [] \<Longrightarrow> rest = []" and "m \<noteq> [] \<Longrightarrow> conn (fst a') = SFP_CONNECT_STATE_CONNECTED"
    by blast+
qed

section \<open>The object between two operations\<close>

definition stream_callbacks :: "nat \<Rightarrow> (funptr \<times> pointer) list" where
  "stream_callbacks a = [(Some addr_on_sfp_write, Some a), (None, None), (None, None), (None, None)]"

definition stream_ok :: "('h, 'z) ringbuffer_scheme \<Rightarrow> ('b, 'y) dynbuf_scheme \<Rightarrow> ('h, 'b) stream \<Rightarrow> bool" where
  "stream_ok R B s \<longleftrightarrow> sfp_inv R (sfp_context s) \<and> dynbuf_laws B buffer_limit
     \<and> callbacks (sfp_context s) = stream_callbacks (address s)
     \<and> length (buf (sfp_packet s)) = SFP_CONFIG_MAX_PACKET_SIZE
     \<and> length (db_data B (write_buffer s)) \<le> buffer_limit"

text \<open>Whether the frames of a reaction fit into the write buffer, and the object after it.\<close>

definition fits :: "('b, 'y) dynbuf_scheme \<Rightarrow> ('h, 'b) stream \<Rightarrow> frame list \<Rightarrow> bool" where
  "fits B s fs \<longleftrightarrow> length (db_data B (write_buffer s)) + length (wire fs) \<le> buffer_limit"

definition shows_frames ::
  "('b, 'y) dynbuf_scheme \<Rightarrow> ('h, 'b) stream \<Rightarrow> ('h, 'b) stream \<Rightarrow> frame list \<Rightarrow> bool" where
  "shows_frames B s s' fs \<longleftrightarrow> phaser_held s' = phaser_held s \<and> address s' = address s
     \<and> read_buffer s' = read_buffer s \<and> db_data B (write_buffer s') = db_data B (write_buffer s) @ wire fs"

lemma shows_frames_trans:
  "shows_frames B s t fs \<Longrightarrow> shows_frames B t u gs \<Longrightarrow> shows_frames B s u (fs @ gs)"
  by (simp add: shows_frames_def)

lemma shows_frames_refl [simp]: "shows_frames B s s []"
  by (simp add: shows_frames_def)

lemma shows_frames_upd [simp]:
  "shows_frames B s (s'\<lparr>sfp_packet := p\<rparr>) fs \<longleftrightarrow> shows_frames B s s' fs"
  "shows_frames B (s\<lparr>sfp_packet := p\<rparr>) s' fs \<longleftrightarrow> shows_frames B s s' fs"
  by (simp_all add: shows_frames_def)

lemma fits_append: "shows_frames B s t fs \<Longrightarrow> fits B s (fs @ gs) \<longleftrightarrow> fits B t gs"
  by (simp add: fits_def shows_frames_def add.assoc)

lemma fits_prefix: "fits B s (fs @ gs) \<Longrightarrow> fits B s fs"
  by (simp add: fits_def)

lemma stream_callbacks_run:
  assumes "dynbuf_laws B limit" and "length (db_data B (write_buffer s)) \<le> limit"
    and "\<forall>ev \<in> set es. \<exists>octets. ev = Write_call addr_on_sfp_write octets (Some (address s))"
  shows "if length (db_data B (write_buffer s)) + length (out_octets es) \<le> limit
    then \<exists>w. foldR (stream_callback B) es s = Inr (s\<lparr>write_buffer := w\<rparr>)
      \<and> db_data B w = db_data B (write_buffer s) @ out_octets es
    else foldR (stream_callback B) es s = Inl LengthError"
  using assms(2,3)
proof (induction es arbitrary: s)
  case Nil
  then show ?case by (auto intro: exI [of _ "write_buffer s"])
next
  case (Cons ev es)
  then obtain octets where ev: "ev = Write_call addr_on_sfp_write octets (Some (address s))" by auto
  show ?case
  proof (cases "length (db_data B (write_buffer s)) + length octets \<le> limit")
    case False
    then have "db_prepare B (write_buffer s) (length octets) = None"
      using dynbuf_prepare_None [OF assms(1)] by simp
    with False show ?thesis by (simp add: ev on_sfp_write_def)
  next
    case True
    from dynbuf_prepare [OF assms(1) this] obtain b where b:
      "db_prepare B (write_buffer s) (length octets) = Some b"
      "db_data B (db_commit B b octets) = db_data B (write_buffer s) @ octets" by auto
    let ?s = "s\<lparr>write_buffer := db_commit B b octets\<rparr>"
    have "stream_callback B s ev = Inr ?s" by (simp add: ev on_sfp_write_def b(1))
    then show ?thesis using Cons.IH [of ?s] Cons.prems True by (simp add: b(2) ev add.assoc split: if_splits)
  qed
qed

lemma with_sfp_ok:
  assumes ok: "stream_ok R B s" and f: "f (sfp_context s) = Inr (c', r)"
    and re: "reacts R (sfp_context s) c' e fs ds" and inv: "sfp_inv R c'"
  shows "if fits B s fs
    then \<exists>s'. with_sfp B f s = Inr (s', r) \<and> stream_ok R B s' \<and> sfp_context s' = c'
      \<and> sfp_packet s' = sfp_packet s \<and> shows_frames B s s' fs
    else with_sfp B f s = Inl LengthError"
proof -
  let ?c = "sfp_context s"
  have cb: "callbacks ?c = stream_callbacks (address s)" and laws: "dynbuf_laws B buffer_limit"
    and len: "length (db_data B (write_buffer s)) \<le> buffer_limit"
    using ok by (simp_all add: stream_ok_def)
  obtain es where es: "trace c' = trace ?c @ es" "\<forall>ev \<in> set es. own_call ?c ev" "out_octets es = wire fs"
    using reacts_trace [OF re] by blast
  have own: "\<forall>ev \<in> set es. \<exists>octets. ev = Write_call addr_on_sfp_write octets (Some (address s))"
  proof
    fix ev assume "ev \<in> set es"
    with es(2) have "own_call ?c ev" by blast
    with cb show "\<exists>octets. ev = Write_call addr_on_sfp_write octets (Some (address s))"
      by (cases ev) (auto simp: callbacks_def stream_callbacks_def sfpIsTransmitterLockable_def)
  qed
  have run: "with_sfp B f s = bindR (foldR (stream_callback B) es (s\<lparr>sfp_context := c'\<rparr>)) (\<lambda>s. Inr (s, r))"
    by (simp add: with_sfp_def f es(1))
  have cb': "callbacks c' = stream_callbacks (address s)" using reacts_seen(4) [OF re] cb by simp
  from stream_callbacks_run [OF laws, of "s\<lparr>sfp_context := c'\<rparr>" es] len own show ?thesis
    using inv cb' laws ok
    by (auto simp: run es(3) fits_def stream_ok_def shows_frames_def split: if_splits)
qed

section \<open>Its operations refine the specification\<close>

lemma body_bound:
  assumes "sfp_inv R c"
  shows "length (body (abs_receiver c)) \<le> SFP_CONFIG_MAX_PACKET_SIZE + 1"
proof -
  have "length (payload (packet (rx c))) \<le> SFP_CONFIG_MAX_PACKET_SIZE"
    using assms by (simp add: sfp_inv_def sfp_ok_def packet_ok_def payload_def)
  then show ?thesis by (simp add: abs_receiver_def split: SFPframestate.split)
qed

lemma stream_octet_ok:
  assumes ok: "stream_ok R B s" and o: "on_octet (abs_sfp R (sfp_context s)) x = (a, fs, ds)"
    and len0: "len (sfp_packet s) = 0"
  shows "if fits B s fs
    then \<exists>s' rc. stream_octet R B s x = Inr (s', rc) \<and> rc = (if ds = [] then 0 else 1)
      \<and> stream_ok R B s' \<and> abs_sfp R (sfp_context s') = a \<and> shows_frames B s s' fs
      \<and> len (sfp_packet s') = (if ds = [] then 0 else length (hd ds))
      \<and> payload (sfp_packet s') = (if ds = [] then [] else hd ds)
    else stream_octet R B s x = Inl LengthError"
proof -
  let ?c = "sfp_context s" and ?p = "sfp_packet s"
  have inv: "sfp_inv R ?c" and p: "length (buf ?p) = SFP_CONFIG_MAX_PACKET_SIZE"
    using ok by (simp_all add: stream_ok_def)
  have short: "ds \<noteq> [] \<Longrightarrow> length (hd ds) \<le> SFP_CONFIG_MAX_PACKET_SIZE"
    using on_octet_deliveries [of "abs_endpoint R ?c" "abs_receiver ?c" x "fst a" "snd a" fs ds]
      o body_bound [OF inv] by (force simp: abs_sfp_def)
  obtain c' where c': "sfpDeliverOctet R ?c x (Some (buf ?p)) SFP_CONFIG_MAX_PACKET_SIZE (Some (len ?p))
      = Inr (c', if ds = [] then (0, Some (buf ?p), Some (len ?p))
                 else (1, Some (hd ds @ drop (length (hd ds)) (buf ?p)), Some (length (hd ds))))"
    "deliver_octet R ?c x = Inr c'"
    using deliver_buffered [OF inv, of SFP_CONFIG_MAX_PACKET_SIZE "buf ?p" x "len ?p"] p o short
    by (auto split: if_splits)
  have r: "sfp_inv R c'" "abs_sfp R c' = a" "reacts R ?c c' (abs_endpoint R c') fs ds"
    using octets.step_ok [OF inv _ o] c'(2) by auto
  let ?f = "\<lambda>c. bindR (sfpDeliverOctet R c x (Some (buf ?p)) SFP_CONFIG_MAX_PACKET_SIZE (Some (len ?p)))
      (\<lambda>(c, rc, mem, outlen). Inr (c, rc, mem, outlen))"
  have run: "?f ?c = Inr (c', if ds = [] then (0, Some (buf ?p), Some (len ?p))
      else (1, Some (hd ds @ drop (length (hd ds)) (buf ?p)), Some (length (hd ds))))"
    by (simp add: c'(1))
  from with_sfp_ok [where f = ?f, OF ok run r(3,1)] show ?thesis
    using p short r(2) len0
    by (auto simp: stream_octet_def Let_def stream_ok_def payload_def split: if_splits)
qed

lemma deliver_loop_ok:
  assumes "stream_ok R B s" and "take_message (abs_sfp R (sfp_context s)) xs = (a, fs, m, rest)"
    and "len (sfp_packet s) = 0"
  shows "if fits B s fs
    then \<exists>s'. deliver_loop R B xs s n = Inr (s', n + (length xs - length rest))
      \<and> stream_ok R B s' \<and> abs_sfp R (sfp_context s') = a \<and> shows_frames B s s' fs
      \<and> len (sfp_packet s') = length m \<and> payload (sfp_packet s') = m
    else deliver_loop R B xs s n = Inl LengthError"
  using assms
proof (induction xs arbitrary: s fs n)
  case Nil
  then show ?case by (auto simp: fits_def stream_ok_def payload_def)
next
  case (Cons x xs)
  obtain a1 fs1 ds1 where o: "on_octet (abs_sfp R (sfp_context s)) x = (a1, fs1, ds1)" by (metis prod_cases3)
  note step = stream_octet_ok [OF Cons.prems(1) o Cons.prems(3)]
  show ?case
  proof (cases "fits B s fs1")
    case False
    have "\<exists>gs. fs = fs1 @ gs"
      using Cons.prems(2) o by (auto split: if_splits prod.splits)
    then have "\<not> fits B s fs" using False fits_prefix by blast
    with False step show ?thesis by simp
  next
    case True
    with step obtain s1 rc where s1: "stream_octet R B s x = Inr (s1, rc)" "rc = (if ds1 = [] then 0 else 1)"
      "stream_ok R B s1" "abs_sfp R (sfp_context s1) = a1" "shows_frames B s s1 fs1"
      "len (sfp_packet s1) = (if ds1 = [] then 0 else length (hd ds1))"
      "payload (sfp_packet s1) = (if ds1 = [] then [] else hd ds1)" by auto
    show ?thesis
    proof (cases "ds1 \<noteq> [] \<and> hd ds1 \<noteq> []")
      case msg: True
      with Cons.prems(2) o have "a = a1" "fs = fs1" "m = hd ds1" "rest = xs" by auto
      with msg s1 True show ?thesis by simp
    next
      case False
      obtain fs2 where t: "take_message (abs_sfp R (sfp_context s1)) xs = (a, fs2, m, rest)" "fs = fs1 @ fs2"
        using Cons.prems(2) o False s1(4) by (auto split: prod.splits)
      have len1: "len (sfp_packet s1) = 0" using False s1(6) by auto
      have "length rest \<le> length xs" using take_message_octets(1) [OF t(1)] by auto
      with Cons.IH [OF s1(3) t(1) len1, of "Suc n"] s1(1,2) len1 show ?thesis
        using fits_append [OF s1(5)] shows_frames_trans [OF s1(5)] by (auto simp: t(2))
    qed
  qed
qed

lemma deliver_input_sequence_ok:
  assumes ok: "stream_ok R B s"
    and t: "take_message (abs_sfp R (sfp_context s)) (db_data B (read_buffer s)) = (a, fs, m, rest)"
  shows "if fits B s fs
    then \<exists>s'. deliver_input_sequence R B s = Inr s' \<and> stream_ok R B s' \<and> abs_sfp R (sfp_context s') = a
      \<and> len (sfp_packet s') = length m \<and> payload (sfp_packet s') = m
      \<and> db_data B (read_buffer s') = rest \<and> db_data B (write_buffer s') = db_data B (write_buffer s) @ wire fs
      \<and> phaser_held s' = phaser_held s \<and> address s' = address s
    else deliver_input_sequence R B s = Inl LengthError"
proof -
  let ?s = "s\<lparr>sfp_packet := (sfp_packet s)\<lparr>len := 0\<rparr>\<rparr>"
  have laws: "dynbuf_laws B buffer_limit" using ok by (simp add: stream_ok_def)
  obtain pre where "db_data B (read_buffer s) = pre @ rest" using take_message_octets(1) [OF t] by blast
  then have "drop (length (db_data B (read_buffer s)) - length rest) (db_data B (read_buffer s)) = rest" by simp
  moreover have "stream_ok R B ?s" "fits B ?s fs = fits B s fs" using ok by (simp_all add: stream_ok_def fits_def)
  ultimately show ?thesis
    using deliver_loop_ok [of R B ?s "db_data B (read_buffer s)" a fs m rest 0] t
    by (auto simp: deliver_input_sequence_def dynbuf_consume [OF laws] shows_frames_def stream_ok_def split: if_splits)
qed

end
