(* ===== verification/Sfp_StreamOps.thy ===== *)
theory Sfp_StreamOps
  imports Sfp_Stream
begin

text \<open>
  The asynchronous operations of \<^verbatim>\<open>sfp::stream\<close> (\<^verbatim>\<open>src/include/sfp/stream.hpp\<close>) as
  coroutines: the handshake with its two reading phases, reading a message, writing one.
  Each is cut where the source yields; the completion that resumes it is an input.
\<close>

section \<open>Reading until a condition holds\<close>

text \<open>
  \<^verbatim>\<open>read_until_connected_op\<close> and \<^verbatim>\<open>read_until_delivery_op\<close> have the same loop, while
  \<open>going\<close> holds, and the latter two assertions before it.
\<close>

datatype read_until_pc = RU_read | RU_write

type_synonym ('h, 'b, 'pc) stream_res = "(('h, 'b) stream \<times> 'pc progress) res"

definition consume_all :: "('b, 'y) dynbuf_scheme \<Rightarrow> 'b \<Rightarrow> 'b" where
  "consume_all B b = db_consume B b (length (db_data B b))"

text \<open>\<^verbatim>\<open>async_read_some (read_buffer.prepare (256), ...)\<close> after the buffer was emptied.\<close>

definition start_reading ::
  "('b, 'y) dynbuf_scheme \<Rightarrow> 'pc \<Rightarrow> ('h, 'b) stream \<Rightarrow> ('h, 'b, 'pc) stream_res" where
  "start_reading B pc s =
     (case db_prepare B (consume_all B (read_buffer s)) 256 of
        None \<Rightarrow> Inl LengthError
      | Some b \<Rightarrow> Inr (s\<lparr>read_buffer := b\<rparr>, Suspend pc (Read_some 256)))"

definition read_until_loop ::
  "('b, 'y) dynbuf_scheme \<Rightarrow> (('h, 'b) stream \<Rightarrow> bool) \<Rightarrow> ('h, 'b) stream \<Rightarrow> ('h, 'b, read_until_pc) stream_res" where
  "read_until_loop B going s = (if going s then start_reading B RU_read s else Inr (s, Complete No_error))"

fun read_until_resume ::
  "('h, 'z) ringbuffer_scheme \<Rightarrow> ('b, 'y) dynbuf_scheme \<Rightarrow> (('h, 'b) stream \<Rightarrow> bool)
    \<Rightarrow> read_until_pc \<Rightarrow> completion \<Rightarrow> ('h, 'b) stream \<Rightarrow> ('h, 'b, read_until_pc) stream_res" where
  "read_until_resume R B going RU_read c s =
     (if failed (c_ec c) then Inr (s, Complete (c_ec c))
      else
        (let s = s\<lparr>read_buffer := db_commit B (read_buffer s) (c_data c)\<rparr>
         in bindR (deliver_input_sequence R B s)
            (\<lambda>s. Inr (s, Suspend RU_write (Write_all (db_data B (write_buffer s)))))))"
| "read_until_resume R B going RU_write c s =
     (if failed (c_ec c) then Inr (s, Complete (c_ec c))
      else read_until_loop B going (s\<lparr>write_buffer := consume_all B (write_buffer s)\<rparr>))"

definition not_connected_yet :: "('h, 'b) stream \<Rightarrow> bool" where
  "not_connected_yet s \<longleftrightarrow> \<not> sfpIsConnected (sfp_context s)"

definition no_message_yet :: "('h, 'b) stream \<Rightarrow> bool" where
  "no_message_yet s \<longleftrightarrow> len (sfp_packet s) = 0"

definition read_until_connected_op ::
  "('b, 'y) dynbuf_scheme \<Rightarrow> ('h, 'b) stream \<Rightarrow> ('h, 'b, read_until_pc) stream_res" where
  "read_until_connected_op B s = read_until_loop B not_connected_yet s"

definition read_until_delivery_op ::
  "('b, 'y) dynbuf_scheme \<Rightarrow> ('h, 'b) stream \<Rightarrow> ('h, 'b, read_until_pc) stream_res" where
  "read_until_delivery_op B s =
     assertR (len (sfp_packet s) = 0)
     (assertR (length (db_data B (read_buffer s)) = 0)
     (read_until_loop B no_message_yet s))"

section \<open>The handshake\<close>

text \<open>
  \<^verbatim>\<open>composed::timed\<close> is not part of the repository: \<open>timed expired ec\<close> is the code with
  which a timed operation completes when the operation itself completed with \<open>ec\<close>.
  It is the same code, or the one of an expired timer.
\<close>

definition timed_laws :: "(bool \<Rightarrow> error_code \<Rightarrow> error_code) \<Rightarrow> bool" where
  "timed_laws timed \<longleftrightarrow> (\<forall>ec. timed False ec = ec)
     \<and> (\<forall>expired ec. timed expired ec = ec \<or> timed expired ec = Asio Timed_out)"

datatype handshake_pc = HS_write | HS_connect read_until_pc | HS_settle read_until_pc

definition handshake_start ::
  "('h, 'z) ringbuffer_scheme \<Rightarrow> ('b, 'y) dynbuf_scheme \<Rightarrow> ('h, 'b) stream \<Rightarrow> ('h, 'b, handshake_pc) stream_res" where
  "handshake_start R B s =
     (let s = s\<lparr>sfp_context := sfpInit (sfp_context s)\<rparr>;
          s = s\<lparr>sfp_context := sfpSetWriteCallback (sfp_context s) (Some addr_on_sfp_write) (Some (address s))\<rparr>
      in bindR (with_sfp B (\<lambda>c. bindR (sfpConnect R c) (\<lambda>c. Inr (c, ()))) s)
         (\<lambda>(s, u). Inr (s, Suspend HS_write (Write_all (db_data B (write_buffer s))))))"

text \<open>The end of the settling phase: its code decides unless it timed out while connected.\<close>

definition handshake_settled ::
  "(bool \<Rightarrow> error_code \<Rightarrow> error_code) \<Rightarrow> bool \<Rightarrow> ('h, 'b) stream \<times> read_until_pc progress
    \<Rightarrow> ('h, 'b, handshake_pc) stream_res" where
  "handshake_settled timed expired r =
     (case r of
        (s, Suspend pc io) \<Rightarrow> Inr (s, Suspend (HS_settle pc) io)
      | (s, Complete settle_ec) \<Rightarrow>
          (let settle_ec = timed expired settle_ec;
               ec = (if settle_ec = Asio Timed_out \<and> sfpIsConnected (sfp_context s) then No_error else settle_ec)
           in assertR (sfpIsConnected (sfp_context s) \<or> failed ec) (Inr (s, Complete ec))))"

definition handshake_connected ::
  "('b, 'y) dynbuf_scheme \<Rightarrow> (bool \<Rightarrow> error_code \<Rightarrow> error_code) \<Rightarrow> ('h, 'b) stream
    \<Rightarrow> ('h, 'b, handshake_pc) stream_res" where
  "handshake_connected B timed s =
     (if len (sfp_packet s) = 0
      then bindR (read_until_delivery_op B s) (handshake_settled timed False)
      else Inr (s, Complete No_error))"

definition handshake_connecting ::
  "('b, 'y) dynbuf_scheme \<Rightarrow> (bool \<Rightarrow> error_code \<Rightarrow> error_code) \<Rightarrow> bool \<Rightarrow> ('h, 'b) stream \<times> read_until_pc progress
    \<Rightarrow> ('h, 'b, handshake_pc) stream_res" where
  "handshake_connecting B timed expired r =
     (case r of
        (s, Suspend pc io) \<Rightarrow> Inr (s, Suspend (HS_connect pc) io)
      | (s, Complete ec) \<Rightarrow>
          (let ec = timed expired ec
           in if failed ec then Inr (s, Complete ec) else handshake_connected B timed s))"

fun handshake_resume ::
  "('h, 'z) ringbuffer_scheme \<Rightarrow> ('b, 'y) dynbuf_scheme \<Rightarrow> (bool \<Rightarrow> error_code \<Rightarrow> error_code)
    \<Rightarrow> handshake_pc \<Rightarrow> completion \<Rightarrow> ('h, 'b) stream \<Rightarrow> ('h, 'b, handshake_pc) stream_res" where
  "handshake_resume R B timed HS_write c s =
     (let ec = timed (c_expired c) (c_ec c)
      in if failed ec then Inr (s, Complete ec)
         else
           (let s = s\<lparr>write_buffer := consume_all B (write_buffer s)\<rparr>
            in if \<not> sfpIsConnected (sfp_context s)
               then bindR (read_until_connected_op B s) (handshake_connecting B timed False)
               else handshake_connected B timed s))"
| "handshake_resume R B timed (HS_connect pc) c s =
     bindR (read_until_resume R B not_connected_yet pc c s) (handshake_connecting B timed (c_expired c))"
| "handshake_resume R B timed (HS_settle pc) c s =
     bindR (read_until_resume R B no_message_yet pc c s) (handshake_settled timed (c_expired c))"

section \<open>Reading a message\<close>

text \<open>
  The places where \<^verbatim>\<open>read_op\<close> waits: for the phaser and the flush while it drains the read
  buffer, and for input, the phaser and the flush in its loop.
\<close>

datatype read_pc = RO_drain | RO_drain_flush | RO_read | RO_dispatch | RO_flush

type_synonym ('h, 'b, 'd) read_res = "((('h, 'b) stream \<times> 'd) \<times> read_pc progress) res"

text \<open>The end: the message is copied out, its memory scrubbed, a flush error reported.\<close>

definition read_finish ::
  "('d, 'x) dynbuf_scheme \<Rightarrow> error_code \<Rightarrow> ('h, 'b) stream \<times> 'd \<Rightarrow> ('h, 'b, 'd) read_res" where
  "read_finish D flush_ec r =
     (case r of (s, dest) \<Rightarrow>
        let pkt = sfp_packet s
        in case db_prepare D dest (len pkt) of
             None \<Rightarrow> Inl LengthError
           | Some dest \<Rightarrow>
               Inr ((s\<lparr>sfp_packet := \<lparr>buf = replicate SFP_CONFIG_MAX_PACKET_SIZE 0xcd, len = 0\<rparr>\<rparr>,
                     db_commit D dest (payload pkt)),
                    Complete (if failed flush_ec then flush_ec else No_error)))"

definition read_loop ::
  "('b, 'y) dynbuf_scheme \<Rightarrow> ('d, 'x) dynbuf_scheme \<Rightarrow> error_code \<Rightarrow> ('h, 'b) stream \<times> 'd \<Rightarrow> ('h, 'b, 'd) read_res" where
  "read_loop B D flush_ec r =
     (case r of (s, dest) \<Rightarrow>
        if \<not> failed flush_ec \<and> len (sfp_packet s) = 0
        then bindR (start_reading B RO_read s) (\<lambda>(s, p). Inr ((s, dest), p))
        else read_finish D flush_ec (s, dest))"

text \<open>Under the phaser: deliver, and flush what the library has written, if anything.\<close>

definition read_exchange ::
  "('h, 'z) ringbuffer_scheme \<Rightarrow> ('b, 'y) dynbuf_scheme \<Rightarrow> ('d, 'x) dynbuf_scheme \<Rightarrow> read_pc
    \<Rightarrow> ('h, 'b) stream \<times> 'd \<Rightarrow> ('h, 'b, 'd) read_res" where
  "read_exchange R B D flush r =
     (case r of (s, dest) \<Rightarrow>
        bindR (deliver_input_sequence R B (s\<lparr>phaser_held := True\<rparr>))
        (\<lambda>s. if length (db_data B (write_buffer s)) \<noteq> 0
             then Inr ((s, dest), Suspend flush (Write_all (db_data B (write_buffer s))))
             else read_loop B D No_error (s\<lparr>phaser_held := False\<rparr>, dest)))"

definition read_flushed ::
  "('b, 'y) dynbuf_scheme \<Rightarrow> ('d, 'x) dynbuf_scheme \<Rightarrow> error_code \<Rightarrow> ('h, 'b) stream \<times> 'd \<Rightarrow> ('h, 'b, 'd) read_res" where
  "read_flushed B D flush_ec r =
     (case r of (s, dest) \<Rightarrow>
        let s = s\<lparr>write_buffer := consume_all B (write_buffer s)\<rparr>
        in read_loop B D flush_ec (s\<lparr>phaser_held := False\<rparr>, dest))"

definition read_start ::
  "('b, 'y) dynbuf_scheme \<Rightarrow> ('d, 'x) dynbuf_scheme \<Rightarrow> ('h, 'b) stream \<times> 'd \<Rightarrow> ('h, 'b, 'd) read_res" where
  "read_start B D r =
     (case r of (s, dest) \<Rightarrow>
        assertR (sfpIsConnected (sfp_context s))
        (if len (sfp_packet s) = 0 \<and> length (db_data B (read_buffer s)) \<noteq> 0
         then Inr ((s, dest), Suspend RO_drain Dispatch)
         else read_loop B D No_error (s, dest)))"

fun read_resume ::
  "('h, 'z) ringbuffer_scheme \<Rightarrow> ('b, 'y) dynbuf_scheme \<Rightarrow> ('d, 'x) dynbuf_scheme
    \<Rightarrow> read_pc \<Rightarrow> completion \<Rightarrow> ('h, 'b) stream \<times> 'd \<Rightarrow> ('h, 'b, 'd) read_res" where
  "read_resume R B D RO_drain c r = read_exchange R B D RO_drain_flush r"
| "read_resume R B D RO_drain_flush c r = read_flushed B D (c_ec c) r"
| "read_resume R B D RO_read c (s, dest) =
     (if failed (c_ec c) then Inr ((s, dest), Complete (c_ec c))
      else Inr ((s\<lparr>read_buffer := db_commit B (read_buffer s) (c_data c)\<rparr>, dest), Suspend RO_dispatch Dispatch))"
| "read_resume R B D RO_dispatch c r = read_exchange R B D RO_flush r"
| "read_resume R B D RO_flush c r = read_flushed B D (c_ec c) r"

section \<open>Writing a message\<close>

datatype write_pc = WO_dispatch | WO_flush

definition write_start :: "('h, 'b) stream \<Rightarrow> ('h, 'b, write_pc) stream_res" where
  "write_start s = assertR (sfpIsConnected (sfp_context s)) (Inr (s, Suspend WO_dispatch Dispatch))"

text \<open>
  \<open>bs\<close> are the octets of the source buffer, \<open>stack\<close> the memory of \<^verbatim>\<open>sfpWritePacket\<close>'s local
  packet. When the operation completes its work guard is destroyed with it.
\<close>

fun write_resume ::
  "('h, 'z) ringbuffer_scheme \<Rightarrow> ('b, 'y) dynbuf_scheme \<Rightarrow> u8 list \<Rightarrow> u8 list
    \<Rightarrow> write_pc \<Rightarrow> completion \<Rightarrow> ('h, 'b) stream \<Rightarrow> ('h, 'b, write_pc) stream_res" where
  "write_resume R B stack bs WO_dispatch c s =
     bindR (with_sfp B (\<lambda>c. sfpWritePacket R c stack bs) (s\<lparr>phaser_held := True\<rparr>))
     (\<lambda>(s, outlen). Inr (s, Suspend WO_flush (Write_all (db_data B (write_buffer s)))))"
| "write_resume R B stack bs WO_flush c s =
     (if failed (c_ec c) then Inr (s\<lparr>phaser_held := False\<rparr>, Complete (c_ec c))
      else Inr (s\<lparr>write_buffer := consume_all B (write_buffer s), phaser_held := False\<rparr>, Complete No_error))"

end
