(* ===== verification/Sfp_StreamHandshake.thy ===== *)
theory Sfp_StreamHandshake
  imports Sfp_StreamOps
begin

text \<open>
  The handshake of \<^verbatim>\<open>sfp::stream\<close>: its assertions hold for whatever the next layer and the
  timers do, it succeeds only when connected, and it does succeed when the peer answers.
\<close>

section \<open>Stretches of the coroutines\<close>

lemma consume_all_data [simp]: "dynbuf_laws B limit \<Longrightarrow> db_data B (consume_all B b) = []"
  by (simp add: consume_all_def dynbuf_consume)

lemma stream_ok_upd [simp]:
  "stream_ok R B (s\<lparr>read_buffer := b\<rparr>) \<longleftrightarrow> stream_ok R B s"
  "stream_ok R B (s\<lparr>phaser_held := h\<rparr>) \<longleftrightarrow> stream_ok R B s"
  "stream_ok R B s \<Longrightarrow> stream_ok R B (s\<lparr>write_buffer := consume_all B (write_buffer s)\<rparr>)"
  by (auto simp: stream_ok_def)

text \<open>A buffer into which up to 256 octets are being read.\<close>

definition awaiting :: "('b, 'y) dynbuf_scheme \<Rightarrow> 'b \<Rightarrow> bool" where
  "awaiting B b \<longleftrightarrow> db_data B b = [] \<and> (\<forall>xs. length xs \<le> 256 \<longrightarrow> db_data B (db_commit B b xs) = xs)"

lemma start_reading_ok:
  assumes "dynbuf_laws B buffer_limit"
  shows "\<exists>b. start_reading B pc s = Inr (s\<lparr>read_buffer := b\<rparr>, Suspend pc (Read_some 256)) \<and> awaiting B b"
proof -
  have "length (db_data B (consume_all B (read_buffer s))) + 256 \<le> buffer_limit"
    using assms by (simp add: sfp_consts)
  from dynbuf_prepare [OF assms this] show ?thesis
    using assms by (auto simp: start_reading_def awaiting_def)
qed

text \<open>What is known after the input sequence was delivered.\<close>

definition delivered_ok :: "('h, 'z) ringbuffer_scheme \<Rightarrow> ('b, 'y) dynbuf_scheme \<Rightarrow> ('h, 'b) stream \<Rightarrow> bool" where
  "delivered_ok R B s \<longleftrightarrow> stream_ok R B s
     \<and> (len (sfp_packet s) = 0 \<longrightarrow> db_data B (read_buffer s) = [])
     \<and> (len (sfp_packet s) \<noteq> 0 \<longrightarrow> sfpIsConnected (sfp_context s))"

lemma abs_connected:
  "conn (fst (abs_sfp R c)) = SFP_CONNECT_STATE_CONNECTED \<longleftrightarrow> sfpIsConnected c"
  by (auto simp: abs_sfp_def abs_endpoint_def sfpIsConnected_def)

lemma deliver_safe:
  assumes "stream_ok R B s"
  shows "safe {LengthError} (deliver_input_sequence R B s) (delivered_ok R B)"
proof -
  obtain a fs m rest where t: "take_message (abs_sfp R (sfp_context s)) (db_data B (read_buffer s)) = (a, fs, m, rest)"
    by (metis prod_cases4)
  from deliver_input_sequence_ok [OF assms t] take_message_octets(2,3) [OF t] show ?thesis
    by (auto simp: delivered_ok_def abs_connected split: if_splits)
qed

fun ru_waiting ::
  "('h, 'z) ringbuffer_scheme \<Rightarrow> ('b, 'y) dynbuf_scheme \<Rightarrow> read_until_pc \<Rightarrow> ('h, 'b) stream \<Rightarrow> bool" where
  "ru_waiting R B RU_read s \<longleftrightarrow> stream_ok R B s \<and> awaiting B (read_buffer s)"
| "ru_waiting R B RU_write s \<longleftrightarrow> delivered_ok R B s"

definition ru_post ::
  "('h, 'z) ringbuffer_scheme \<Rightarrow> ('b, 'y) dynbuf_scheme \<Rightarrow> (('h, 'b) stream \<Rightarrow> bool) \<Rightarrow> error_code
    \<Rightarrow> ('h, 'b) stream \<Rightarrow> bool" where
  "ru_post R B going ec s \<longleftrightarrow> stream_ok R B s \<and> (\<not> failed ec \<longrightarrow> delivered_ok R B s \<and> \<not> going s)"

abbreviation chunk :: "completion \<Rightarrow> bool" where
  "chunk c \<equiv> length (c_data c) \<le> 256"

lemma read_until_loop_ok:
  assumes "stream_ok R B s" and "\<not> going s \<Longrightarrow> delivered_ok R B s"
  shows "safe E (read_until_loop B going s) (holds_at (ru_waiting R B) (ru_post R B going))"
proof -
  have "dynbuf_laws B buffer_limit" using assms(1) by (simp add: stream_ok_def)
  from start_reading_ok [OF this, of RU_read s] show ?thesis
    using assms by (auto simp: read_until_loop_def ru_post_def)
qed

interpretation read_until: coroutine "read_until_resume R B going" "ru_waiting R B" "ru_post R B going" chunk "{LengthError}"
  for R :: "('h, 'z) ringbuffer_scheme" and B :: "('b, 'y) dynbuf_scheme" and going :: "('h, 'b) stream \<Rightarrow> bool"
proof
  fix pc s c assume w: "ru_waiting R B pc s" and c: "chunk c"
  show "safe {LengthError} (read_until_resume R B going pc c s) (holds_at (ru_waiting R B) (ru_post R B going))"
  proof (cases pc)
    case RU_read
    show ?thesis
    proof (cases "failed (c_ec c)")
      case False
      have ok: "stream_ok R B (s\<lparr>read_buffer := db_commit B (read_buffer s) (c_data c)\<rparr>)"
        using w RU_read by simp
      show ?thesis
        using False RU_read by (simp add: Let_def) (rule safe_bind [OF deliver_safe [OF ok]], simp)
    qed (use w RU_read in \<open>simp add: ru_post_def\<close>)
  next
    case RU_write
    show ?thesis
    proof (cases "failed (c_ec c)")
      case False
      then show ?thesis
        using w RU_write read_until_loop_ok [of R B "s\<lparr>write_buffer := consume_all B (write_buffer s)\<rparr>" going]
        by (auto simp: delivered_ok_def)
    qed (use w RU_write in \<open>simp add: ru_post_def delivered_ok_def\<close>)
  qed
qed

section \<open>The handshake is sound\<close>

fun hs_waiting ::
  "('h, 'z) ringbuffer_scheme \<Rightarrow> ('b, 'y) dynbuf_scheme \<Rightarrow> handshake_pc \<Rightarrow> ('h, 'b) stream \<Rightarrow> bool" where
  "hs_waiting R B HS_write s \<longleftrightarrow> stream_ok R B s \<and> \<not> sfpIsConnected (sfp_context s)"
| "hs_waiting R B (HS_connect pc) s \<longleftrightarrow> ru_waiting R B pc s"
| "hs_waiting R B (HS_settle pc) s \<longleftrightarrow> ru_waiting R B pc s"

definition hs_post ::
  "('h, 'z) ringbuffer_scheme \<Rightarrow> ('b, 'y) dynbuf_scheme \<Rightarrow> error_code \<Rightarrow> ('h, 'b) stream \<Rightarrow> bool" where
  "hs_post R B ec s \<longleftrightarrow> stream_ok R B s \<and> (\<not> failed ec \<longrightarrow> sfpIsConnected (sfp_context s))"

lemma timed_cases:
  "timed_laws timed \<Longrightarrow> timed x ec = ec \<or> timed x ec = Asio Timed_out"
  by (simp add: timed_laws_def)

lemma handshake_settled_ok:
  assumes "timed_laws timed" and "holds_at (ru_waiting R B) (ru_post R B no_message_yet) r"
  shows "safe {LengthError} (handshake_settled timed x r) (holds_at (hs_waiting R B) (hs_post R B))"
proof -
  obtain s p where r: "r = (s, p)" by (cases r)
  show ?thesis
  proof (cases p)
    case (Complete ec)
    then show ?thesis
      using assms(2) timed_cases [OF assms(1), of x ec]
      by (auto simp: r handshake_settled_def ru_post_def hs_post_def delivered_ok_def no_message_yet_def assertR_def Let_def)
  qed (use assms(2) in \<open>simp add: r handshake_settled_def\<close>)
qed

lemma handshake_connected_ok:
  assumes "timed_laws timed" and "delivered_ok R B s" and "sfpIsConnected (sfp_context s)"
  shows "safe {LengthError} (handshake_connected B timed s) (holds_at (hs_waiting R B) (hs_post R B))"
proof (cases "len (sfp_packet s) = 0")
  case True
  have "safe {LengthError} (read_until_loop B no_message_yet s)
      (holds_at (ru_waiting R B) (ru_post R B no_message_yet))"
    using assms(2) by (intro read_until_loop_ok) (simp_all add: delivered_ok_def)
  moreover have "read_until_delivery_op B s = read_until_loop B no_message_yet s"
    using assms(2) True by (simp add: read_until_delivery_op_def delivered_ok_def)
  ultimately show ?thesis
    using True by (simp add: handshake_connected_def) (erule safe_bind, rule handshake_settled_ok [OF assms(1)])
next
  case False
  then show ?thesis
    using assms(2,3) by (simp add: handshake_connected_def hs_post_def delivered_ok_def)
qed

lemma handshake_connecting_ok:
  assumes "timed_laws timed" and "holds_at (ru_waiting R B) (ru_post R B not_connected_yet) r"
  shows "safe {LengthError} (handshake_connecting B timed x r) (holds_at (hs_waiting R B) (hs_post R B))"
proof -
  obtain s p where r: "r = (s, p)" by (cases r)
  show ?thesis
  proof (cases p)
    case (Complete ec)
    show ?thesis
    proof (cases "failed (timed x ec)")
      case False
      then have "\<not> failed ec" using timed_cases [OF assms(1), of x ec] by auto
      then have "delivered_ok R B s" "sfpIsConnected (sfp_context s)"
        using assms(2) by (auto simp: r Complete ru_post_def not_connected_yet_def)
      from handshake_connected_ok [OF assms(1) this] show ?thesis
        using False by (simp add: r Complete handshake_connecting_def Let_def)
    qed (use assms(2) in \<open>simp add: r Complete handshake_connecting_def ru_post_def hs_post_def\<close>)
  qed (use assms(2) in \<open>simp add: r handshake_connecting_def\<close>)
qed

lemma handshake_resume_ok:
  assumes "timed_laws timed" and w: "hs_waiting R B pc s" and "chunk c"
  shows "safe {LengthError} (handshake_resume R B timed pc c s) (holds_at (hs_waiting R B) (hs_post R B))"
proof (cases pc)
  case HS_write
  let ?s = "s\<lparr>write_buffer := consume_all B (write_buffer s)\<rparr>"
  have ok: "stream_ok R B ?s" "\<not> sfpIsConnected (sfp_context ?s)" using w HS_write by simp_all
  show ?thesis
  proof (cases "failed (timed (c_expired c) (c_ec c))")
    case False
    have "safe {LengthError} (read_until_connected_op B ?s)
        (holds_at (ru_waiting R B) (ru_post R B not_connected_yet))"
      unfolding read_until_connected_op_def
      using ok by (intro read_until_loop_ok) (simp_all add: not_connected_yet_def)
    from safe_bind [OF this handshake_connecting_ok [OF assms(1)]] show ?thesis
      using False ok(2) by (simp add: HS_write Let_def)
  qed (use w HS_write in \<open>simp add: hs_post_def\<close>)
next
  case (HS_connect pc')
  with w have "ru_waiting R B pc' s" by simp
  from safe_bind [OF read_until.resume_ok [OF this assms(3)] handshake_connecting_ok [OF assms(1)]]
  show ?thesis by (simp add: HS_connect)
next
  case (HS_settle pc')
  with w have "ru_waiting R B pc' s" by simp
  from safe_bind [OF read_until.resume_ok [OF this assms(3)] handshake_settled_ok [OF assms(1)]]
  show ?thesis by (simp add: HS_settle)
qed

text \<open>With the law of \<open>timed\<close> in its assertions, the handshake is an instance of the contract.\<close>

interpretation handshake: coroutine "handshake_resume R B timed"
  "\<lambda>pc s. timed_laws timed \<and> hs_waiting R B pc s" "hs_post R B" chunk "{LengthError}"
  for R :: "('h, 'z) ringbuffer_scheme" and B :: "('b, 'y) dynbuf_scheme"
    and timed :: "bool \<Rightarrow> error_code \<Rightarrow> error_code"
proof
  fix pc s c assume w: "timed_laws timed \<and> hs_waiting R B pc s" and c: "chunk c"
  have "holds_at (\<lambda>pc s. timed_laws timed \<and> hs_waiting R B pc s) (hs_post R B) r"
    if "holds_at (hs_waiting R B) (hs_post R B) r" for r
    using that w by (cases r; cases "snd r") auto
  with handshake_resume_ok w c
  show "safe {LengthError} (handshake_resume R B timed pc c s)
      (holds_at (\<lambda>pc s. timed_laws timed \<and> hs_waiting R B pc s) (hs_post R B))"
    by (blast intro: safe_mono)
qed

text \<open>The object before the handshake: the memory of a context, with an empty history.\<close>

definition stream_memory_ok ::
  "('h, 'z) ringbuffer_scheme \<Rightarrow> ('b, 'y) dynbuf_scheme \<Rightarrow> ('h, 'b) stream \<Rightarrow> bool" where
  "stream_memory_ok R B s \<longleftrightarrow> ringbuffer_laws R \<and> memory_ok R (sfp_context s) \<and> dynbuf_laws B buffer_limit
     \<and> length (buf (sfp_packet s)) = SFP_CONFIG_MAX_PACKET_SIZE \<and> db_data B (write_buffer s) = []"

lemma wire_syn_fits: "s \<in> {SFP_SEQ_SYN0, SFP_SEQ_SYN1, SFP_SEQ_SYN2} \<Longrightarrow> length (wire [SYN s]) \<le> 8"
  using length_frame_octets [where bs = "[]" and hdr = "makeHeader SFP_FRAME_SYN s"] by simp

lemma handshake_start_ok:
  assumes "stream_memory_ok R B s"
  shows "\<exists>s'. handshake_start R B s = Inr (s', Suspend HS_write (Write_all (wire [SYN SFP_SEQ_SYN0])))
    \<and> stream_ok R B s' \<and> abs_sfp R (sfp_context s') = (fresh_endpoint SFP_CONNECT_STATE_SENT_SYN0, idle)
    \<and> db_data B (write_buffer s') = wire [SYN SFP_SEQ_SYN0] \<and> phaser_held s' = phaser_held s"
proof -
  let ?c = "sfpSetWriteCallback (sfpInit (sfp_context s)) (Some addr_on_sfp_write) (Some (address s))"
  let ?s = "s\<lparr>sfp_context := ?c\<rparr>"
  have inv: "sfp_inv R ?c" using init_inv assms by (auto simp: stream_memory_ok_def)
  have ok: "stream_ok R B ?s"
    using inv assms
    by (simp add: stream_ok_def stream_memory_ok_def sfp_consts)
      (simp add: callbacks_def stream_callbacks_def setup_defs)
  obtain c' where c': "sfpConnect R ?c = Inr c'" "sfp_inv R c'" "abs_receiver c' = idle"
    and re: "reacts R ?c c' (fst (on_connect (abs_endpoint R ?c))) [SYN SFP_SEQ_SYN0] []"
    using connect_inv [OF inv] by (auto simp: on_connect_def)
  let ?f = "\<lambda>c. bindR (sfpConnect R c) (\<lambda>c. Inr (c, ()))"
  have f: "?f (sfp_context ?s) = Inr (c', ())" by (simp add: c'(1))
  have "fits B ?s [SYN SFP_SEQ_SYN0]"
    using assms wire_syn_fits [of SFP_SEQ_SYN0]
    by (simp add: fits_def stream_memory_ok_def sfp_consts)
  moreover have "reacts R (sfp_context ?s) c' (fst (on_connect (abs_endpoint R ?c))) [SYN SFP_SEQ_SYN0] []"
    using re by simp
  ultimately obtain s' where s':
    "with_sfp B ?f ?s = Inr (s', ())" "stream_ok R B s'" "sfp_context s' = c'"
    "db_data B (write_buffer s') = wire [SYN SFP_SEQ_SYN0]" "phaser_held s' = phaser_held s"
    using with_sfp_ok [where f = ?f, OF ok f _ c'(2)] assms
    by (fastforce simp: shows_frames_def stream_memory_ok_def simp del: wire_simps)
  have "abs_endpoint R c' = fresh_endpoint SFP_CONNECT_STATE_SENT_SYN0"
    using reacts_seen(3) [OF re] by (simp add: on_connect_def fresh_endpoint_def)
  with s' c'(3) show ?thesis
    by (auto simp: handshake_start_def Let_def abs_sfp_def simp del: wire_simps)
qed

lemma abs_sfp_connected:
  "abs_sfp R c = (e, r) \<Longrightarrow> sfpIsConnected c \<longleftrightarrow> conn e = SFP_CONNECT_STATE_CONNECTED"
  using abs_connected [of R c] by simp

text \<open>
  C32. The handshake of a stream is sound: whatever octets the next layer provides, whatever
  errors it reports and whichever timers expire, no assertion of the operation or of the
  library fails, the only exception is the one of a write buffer that overflows, and if
  the operation completes without an error, the connection stands.
\<close>

theorem handshake_sound:
  assumes "stream_memory_ok R B s" and "timed_laws timed" and "\<forall>c \<in> set cs. chunk c"
  shows "case bindR (handshake_start R B s) (\<lambda>r. run_op (handshake_resume R B timed) r cs) of
      Inl e \<Rightarrow> e = LengthError
    | Inr (s', Suspend pc io) \<Rightarrow> True
    | Inr (s', Complete ec) \<Rightarrow> \<not> failed ec \<longrightarrow> sfpIsConnected (sfp_context s')"
proof -
  obtain s1 where s1: "handshake_start R B s = Inr (s1, Suspend HS_write (Write_all (wire [SYN SFP_SEQ_SYN0])))"
    "hs_waiting R B HS_write s1"
    using handshake_start_ok [OF assms(1)]
    by (auto simp: abs_sfp_connected fresh_endpoint_def simp del: wire_simps)
  have "safe {LengthError} (bindR (handshake_start R B s) (\<lambda>r. run_op (handshake_resume R B timed) r cs))
      (holds_at (\<lambda>pc s. timed_laws timed \<and> hs_waiting R B pc s) (hs_post R B))"
    unfolding s1(1) bindR_Inr by (rule handshake.run_ok) (use s1(2) assms(2,3) in simp_all)
  then show ?thesis
    by (auto simp: safe_def hs_post_def split: sum.splits progress.splits)
qed

definition example_stream :: "(SFPpacket list, u8 list) stream" where
  "example_stream =
     \<lparr>phaser_held = False, read_buffer = [], write_buffer = [], sfp_context = raw_context,
      sfp_packet = \<lparr>buf = replicate SFP_CONFIG_MAX_PACKET_SIZE 0xcd, len = 77\<rparr>, address = 100\<rparr>"

lemma example_stream_memory: "stream_memory_ok list_ringbuffer (list_dynbuf buffer_limit) example_stream"
  using raw_memory_ok
  by (simp add: stream_memory_ok_def example_stream_def) (simp add: list_dynbuf_def)

text \<open>A timer that has expired decides over the code of a cancelled operation.\<close>

definition timed_example :: "bool \<Rightarrow> error_code \<Rightarrow> error_code" where
  "timed_example expired ec = (if expired \<and> failed ec then Asio Timed_out else ec)"

lemma timed_example_laws [simp]: "timed_laws timed_example"
  by (simp add: timed_laws_def timed_example_def)

theorem handshake_sound_witness:
  "case bindR (handshake_start list_ringbuffer (list_dynbuf buffer_limit) example_stream)
      (\<lambda>r. run_op (handshake_resume list_ringbuffer (list_dynbuf buffer_limit) timed_example) r
        [\<lparr>c_ec = No_error, c_data = [], c_expired = False\<rparr>, \<lparr>c_ec = No_error, c_data = [0x7e], c_expired = False\<rparr>]) of
      Inl e \<Rightarrow> e = LengthError
    | Inr (s', Suspend pc io) \<Rightarrow> True
    | Inr (s', Complete ec) \<Rightarrow> \<not> failed ec \<longrightarrow> sfpIsConnected (sfp_context s')"
  by (rule handshake_sound [OF example_stream_memory timed_example_laws]) simp

section \<open>The handshake succeeds\<close>

text \<open>The completions of an undisturbed handshake.\<close>

definition io_done :: completion where
  "io_done = \<lparr>c_ec = No_error, c_data = [], c_expired = False\<rparr>"

definition io_read :: "u8 list \<Rightarrow> completion" where
  "io_read xs = \<lparr>c_ec = No_error, c_data = xs, c_expired = False\<rparr>"

definition io_expired :: completion where
  "io_expired = \<lparr>c_ec = Asio Operation_aborted, c_data = [], c_expired = True\<rparr>"

lemma take_message_none: "on_octets a xs = (a', fs, []) \<Longrightarrow> take_message a xs = (a', fs, [], [])"
  by (induction xs arbitrary: a fs) (auto split: prod.splits)

lemma on_syn1_fresh:
  "on_octets (fresh_endpoint SFP_CONNECT_STATE_SENT_SYN0, idle) (wire [SYN SFP_SEQ_SYN1])
    = ((fresh_endpoint SFP_CONNECT_STATE_CONNECTED, idle), [SYN SFP_SEQ_SYN2], [])"
proof -
  have "deframe idle (wire [SYN SFP_SEQ_SYN1]) = (idle, [Some (SYN SFP_SEQ_SYN1)])"
    by (subst deframe_wire) (simp_all add: seq_ok_def sfp_consts)
  then show ?thesis
    by (simp add: on_octets_deframe on_input_def on_syn_def resend_all_def fresh_endpoint_def sfp_consts
        del: wire_simps)
qed

text \<open>SYN1 arrives: the connection stands, and SYN2 is to be written.\<close>

lemma syn1_delivered:
  assumes laws: "dynbuf_laws B buffer_limit" and ok: "stream_ok R B s"
    and e: "abs_sfp R (sfp_context s) = (fresh_endpoint SFP_CONNECT_STATE_SENT_SYN0, idle)"
    and data: "db_data B (read_buffer s) = wire [SYN SFP_SEQ_SYN1]" and none: "db_data B (write_buffer s) = []"
  shows "\<exists>s'. deliver_input_sequence R B s = Inr s' \<and> stream_ok R B s'
    \<and> abs_sfp R (sfp_context s') = (fresh_endpoint SFP_CONNECT_STATE_CONNECTED, idle) \<and> len (sfp_packet s') = 0
    \<and> db_data B (read_buffer s') = [] \<and> db_data B (write_buffer s') = wire [SYN SFP_SEQ_SYN2]
    \<and> phaser_held s' = phaser_held s"
proof -
  have "take_message (abs_sfp R (sfp_context s)) (db_data B (read_buffer s))
      = ((fresh_endpoint SFP_CONNECT_STATE_CONNECTED, idle), [SYN SFP_SEQ_SYN2], [], [])"
    using on_syn1_fresh e by (intro take_message_none) (simp add: data del: wire_simps)
  moreover have "fits B s [SYN SFP_SEQ_SYN2]"
    using none wire_syn_fits [of SFP_SEQ_SYN2] by (simp add: fits_def sfp_consts)
  ultimately show ?thesis
    using deliver_input_sequence_ok [OF ok] none by (fastforce simp del: wire_simps)
qed

text \<open>SYN2 is written: the operation waits for the connection to settle, and completes when that is over.\<close>

lemma settle_waits:
  assumes laws: "dynbuf_laws B buffer_limit" and now: "\<And>ec. timed False ec = ec"
    and out: "timed True (Asio Operation_aborted) = Asio Timed_out" and up: "sfpIsConnected (sfp_context s)"
    and none: "len (sfp_packet s) = 0" "db_data B (read_buffer s) = []"
  obtains b where
    "handshake_resume R B timed (HS_connect RU_write) io_done s
      = Inr (s\<lparr>write_buffer := consume_all B (write_buffer s), read_buffer := b\<rparr>, Suspend (HS_settle RU_read) (Read_some 256))"
    "handshake_resume R B timed (HS_settle RU_read) io_expired (s\<lparr>write_buffer := consume_all B (write_buffer s), read_buffer := b\<rparr>)
      = Inr (s\<lparr>write_buffer := consume_all B (write_buffer s), read_buffer := b\<rparr>, Complete No_error)"
    "awaiting B b"
proof -
  let ?s = "s\<lparr>write_buffer := consume_all B (write_buffer s)\<rparr>"
  obtain b where b: "start_reading B RU_read ?s = Inr (?s\<lparr>read_buffer := b\<rparr>, Suspend RU_read (Read_some 256))"
    "awaiting B b" using start_reading_ok [OF laws, of RU_read ?s] by (elim exE conjE)
  have "handshake_resume R B timed (HS_connect RU_write) io_done s
      = Inr (?s\<lparr>read_buffer := b\<rparr>, Suspend (HS_settle RU_read) (Read_some 256))"
    using b(1) up none
    by (simp add: io_done_def now read_until_loop_def not_connected_yet_def handshake_connecting_def
        handshake_connected_def read_until_delivery_op_def no_message_yet_def handshake_settled_def)
  moreover have "handshake_resume R B timed (HS_settle RU_read) io_expired (?s\<lparr>read_buffer := b\<rparr>)
      = Inr (?s\<lparr>read_buffer := b\<rparr>, Complete No_error)"
    using up by (simp add: io_expired_def handshake_settled_def out)
  ultimately show ?thesis using that b(2) by blast
qed

text \<open>
  C33. The handshake of a stream succeeds: it sends SYN0; when the peer's SYN1 has been read, it
  answers SYN2, reads on, and when nothing more arrives until the settle timer expires, it
  completes without an error, connected, with empty buffers.
\<close>

theorem handshake_completes:
  assumes "stream_memory_ok R B s" and "timed_laws timed" and "timed True (Asio Operation_aborted) = Asio Timed_out"
  shows "\<exists>s1 s2 s3 s4 s5.
      handshake_start R B s = Inr (s1, Suspend HS_write (Write_all (wire [SYN SFP_SEQ_SYN0])))
    \<and> handshake_resume R B timed HS_write io_done s1 = Inr (s2, Suspend (HS_connect RU_read) (Read_some 256))
    \<and> handshake_resume R B timed (HS_connect RU_read) (io_read (wire [SYN SFP_SEQ_SYN1])) s2
        = Inr (s3, Suspend (HS_connect RU_write) (Write_all (wire [SYN SFP_SEQ_SYN2])))
    \<and> handshake_resume R B timed (HS_connect RU_write) io_done s3 = Inr (s4, Suspend (HS_settle RU_read) (Read_some 256))
    \<and> handshake_resume R B timed (HS_settle RU_read) io_expired s4 = Inr (s5, Complete No_error)
    \<and> stream_ok R B s5 \<and> abs_sfp R (sfp_context s5) = (fresh_endpoint SFP_CONNECT_STATE_CONNECTED, idle)
    \<and> len (sfp_packet s5) = 0 \<and> db_data B (read_buffer s5) = [] \<and> db_data B (write_buffer s5) = []
    \<and> phaser_held s5 = phaser_held s"
proof -
  have laws: "dynbuf_laws B buffer_limit" using assms(1) by (simp add: stream_memory_ok_def)
  have now: "timed False ec = ec" for ec using assms(2) by (simp add: timed_laws_def)
  obtain s1 where s1: "handshake_start R B s = Inr (s1, Suspend HS_write (Write_all (wire [SYN SFP_SEQ_SYN0])))"
    "stream_ok R B s1" "abs_sfp R (sfp_context s1) = (fresh_endpoint SFP_CONNECT_STATE_SENT_SYN0, idle)"
    "phaser_held s1 = phaser_held s"
    using handshake_start_ok [OF assms(1)] by blast
  let ?s1 = "s1\<lparr>write_buffer := consume_all B (write_buffer s1)\<rparr>"
  have nc: "\<not> sfpIsConnected (sfp_context s1)"
    using abs_sfp_connected [OF s1(3)] by (simp add: fresh_endpoint_def)
  obtain b2 where b2: "start_reading B RU_read ?s1 = Inr (?s1\<lparr>read_buffer := b2\<rparr>, Suspend RU_read (Read_some 256))"
    "awaiting B b2" using start_reading_ok [OF laws, of RU_read ?s1] by (elim exE conjE)
  let ?s2 = "?s1\<lparr>read_buffer := b2\<rparr>"
  have r2: "handshake_resume R B timed HS_write io_done s1 = Inr (?s2, Suspend (HS_connect RU_read) (Read_some 256))"
    using b2(1) nc by (simp add: io_done_def now read_until_connected_op_def read_until_loop_def
        not_connected_yet_def handshake_connecting_def)
  let ?s = "?s2\<lparr>read_buffer := db_commit B b2 (wire [SYN SFP_SEQ_SYN1])\<rparr>"
  have data: "db_data B (db_commit B b2 (wire [SYN SFP_SEQ_SYN1])) = wire [SYN SFP_SEQ_SYN1]"
    using b2(2) wire_syn_fits [of SFP_SEQ_SYN1] by (simp add: awaiting_def)
  obtain s3 where s3: "deliver_input_sequence R B ?s = Inr s3" "stream_ok R B s3"
    "abs_sfp R (sfp_context s3) = (fresh_endpoint SFP_CONNECT_STATE_CONNECTED, idle)" "len (sfp_packet s3) = 0"
    "db_data B (read_buffer s3) = []" "db_data B (write_buffer s3) = wire [SYN SFP_SEQ_SYN2]"
    "phaser_held s3 = phaser_held s"
    using syn1_delivered [OF laws, of R ?s] s1(2-4) data laws by (auto simp del: wire_simps)
  have r3: "handshake_resume R B timed (HS_connect RU_read) (io_read (wire [SYN SFP_SEQ_SYN1])) ?s2
      = Inr (s3, Suspend (HS_connect RU_write) (Write_all (wire [SYN SFP_SEQ_SYN2])))"
    using s3(1,6) by (simp add: io_read_def handshake_connecting_def del: wire_simps)
  have up: "sfpIsConnected (sfp_context s3)"
    using abs_sfp_connected [OF s3(3)] by (simp add: fresh_endpoint_def)
  obtain b4 where r4: "handshake_resume R B timed (HS_connect RU_write) io_done s3
      = Inr (s3\<lparr>write_buffer := consume_all B (write_buffer s3), read_buffer := b4\<rparr>, Suspend (HS_settle RU_read) (Read_some 256))"
    "handshake_resume R B timed (HS_settle RU_read) io_expired (s3\<lparr>write_buffer := consume_all B (write_buffer s3), read_buffer := b4\<rparr>)
      = Inr (s3\<lparr>write_buffer := consume_all B (write_buffer s3), read_buffer := b4\<rparr>, Complete No_error)"
    "awaiting B b4"
    by (rule settle_waits [OF laws now assms(3) up s3(4,5)])
  let ?s4 = "s3\<lparr>write_buffer := consume_all B (write_buffer s3), read_buffer := b4\<rparr>"
  have fin: "stream_ok R B ?s4" "abs_sfp R (sfp_context ?s4) = (fresh_endpoint SFP_CONNECT_STATE_CONNECTED, idle)"
    "len (sfp_packet ?s4) = 0" "db_data B (read_buffer ?s4) = []" "db_data B (write_buffer ?s4) = []"
    "phaser_held ?s4 = phaser_held s"
    using s3(2,3,4,7) r4(3) laws by (simp_all add: awaiting_def)
  show ?thesis
    by (rule exI [of _ s1], rule exI [of _ ?s2], rule exI [of _ s3], rule exI [of _ ?s4], rule exI [of _ ?s4],
        intro conjI) (rule s1(1) r2 r3 r4(1,2) fin)+
qed

theorem handshake_completes_witness:
  "\<exists>s4 s5. handshake_resume list_ringbuffer (list_dynbuf buffer_limit) timed_example (HS_settle RU_read) io_expired s4
      = Inr (s5, Complete No_error) \<and> db_data (list_dynbuf buffer_limit) (read_buffer s5) = []"
proof -
  have "timed_example True (Asio Operation_aborted) = Asio Timed_out" by (simp add: timed_example_def)
  from handshake_completes [OF example_stream_memory timed_example_laws this] show ?thesis by blast
qed

end
