(* ===== verification/Sfp_StreamSession.thy ===== *)
theory Sfp_StreamSession
  imports Sfp_StreamHandshake
begin

text \<open>
  A connected \<^verbatim>\<open>sfp::stream\<close> with one reader and one writer at a time, whose steps
  interleave in any way the phaser allows. The stream refines the library's specification:
  there is one sequence of library calls that explains every octet sent, every message
  written and every message read.
\<close>

section \<open>The machine\<close>

text \<open>
  The operations under way, with what they wait for, and what has been observed: octets
  that the next layer has taken and given, messages that were read and written.
\<close>

record ('h, 'b, 'd) session =
  strm :: "('h, 'b) stream"
  dest :: 'd
  reader :: "(read_pc \<times> io) option"
  writer :: "(write_pc \<times> io \<times> u8 list) option"
  octets_sent :: "u8 list"
  octets_got :: "u8 list"
  messages_read :: "u8 list list"
  messages_written :: "u8 list list"

text \<open>
  What the next layer may report: at most as many octets as were asked for, or an error; the
  writes of this machine succeed. The phaser admits one operation at a time.
\<close>

fun may_complete :: "('h, 'b) stream \<Rightarrow> io \<Rightarrow> completion \<Rightarrow> bool" where
  "may_complete s (Read_some k) c \<longleftrightarrow> length (c_data c) \<le> k"
| "may_complete s (Write_all xs) c \<longleftrightarrow> c_ec c = No_error"
| "may_complete s Dispatch c \<longleftrightarrow> \<not> phaser_held s"

fun io_sent :: "io \<Rightarrow> u8 list" where
  "io_sent (Write_all xs) = xs"
| "io_sent _ = []"

fun io_got :: "io \<Rightarrow> completion \<Rightarrow> u8 list" where
  "io_got (Read_some k) c = (if failed (c_ec c) then [] else c_data c)"
| "io_got _ c = []"

definition observe :: "io \<Rightarrow> completion \<Rightarrow> ('h, 'b, 'd) session \<Rightarrow> ('h, 'b, 'd) session" where
  "observe io c n = n\<lparr>octets_sent := octets_sent n @ io_sent io, octets_got := octets_got n @ io_got io c\<rparr>"

text \<open>A reader that has completed without an error has put one message into its buffer.\<close>

definition reader_at ::
  "('d, 'x) dynbuf_scheme \<Rightarrow> ('h, 'b, 'd) session \<Rightarrow> (('h, 'b) stream \<times> 'd) \<times> read_pc progress \<Rightarrow> ('h, 'b, 'd) session" where
  "reader_at D n r =
     (case r of
        ((s, d), Suspend pc io) \<Rightarrow> n\<lparr>strm := s, dest := d, reader := Some (pc, io)\<rparr>
      | ((s, d), Complete ec) \<Rightarrow>
          n\<lparr>strm := s, dest := d, reader := None,
            messages_read := messages_read n @
              (if failed ec then [] else [drop (length (db_data D (dest n))) (db_data D d)])\<rparr>)"

definition writer_at ::
  "('h, 'b, 'd) session \<Rightarrow> u8 list \<Rightarrow> ('h, 'b) stream \<times> write_pc progress \<Rightarrow> ('h, 'b, 'd) session" where
  "writer_at n bs r =
     (case r of
        (s, Suspend pc io) \<Rightarrow> n\<lparr>strm := s, writer := Some (pc, io, bs)\<rparr>
      | (s, Complete ec) \<Rightarrow> n\<lparr>strm := s, writer := None\<rparr>)"

inductive session_step ::
  "('h, 'z) ringbuffer_scheme \<Rightarrow> ('b, 'y) dynbuf_scheme \<Rightarrow> ('d, 'x) dynbuf_scheme
    \<Rightarrow> ('h, 'b, 'd) session \<Rightarrow> ('h, 'b, 'd) session \<Rightarrow> bool" for R B D where
  start_read: "reader n = None \<Longrightarrow> read_start B D (strm n, d) = Inr r \<Longrightarrow>
    session_step R B D n (reader_at D (n\<lparr>dest := d\<rparr>) r)"
| start_write: "writer n = None \<Longrightarrow> length bs \<le> SFP_CONFIG_MAX_PACKET_SIZE \<Longrightarrow>
    write_start (strm n) = Inr r \<Longrightarrow> session_step R B D n (writer_at n bs r)"
| read_on: "reader n = Some (pc, io) \<Longrightarrow> may_complete (strm n) io c \<Longrightarrow>
    read_resume R B D pc c (strm n, dest n) = Inr r \<Longrightarrow>
    session_step R B D n (reader_at D (observe io c n) r)"
| write_on: "writer n = Some (pc, io, bs) \<Longrightarrow> may_complete (strm n) io c \<Longrightarrow>
    length stack = SFP_CONFIG_MAX_PACKET_SIZE \<Longrightarrow> write_resume R B stack bs pc c (strm n) = Inr r \<Longrightarrow>
    session_step R B D n
      (writer_at ((observe io c n)\<lparr>messages_written := messages_written n @ (if pc = WO_dispatch then [bs] else [])\<rparr>) bs r)"

inductive session_reach ::
  "('h, 'z) ringbuffer_scheme \<Rightarrow> ('b, 'y) dynbuf_scheme \<Rightarrow> ('d, 'x) dynbuf_scheme
    \<Rightarrow> ('h, 'b, 'd) session \<Rightarrow> ('h, 'b, 'd) session \<Rightarrow> bool" for R B D where
  refl: "session_reach R B D n n"
| step: "session_reach R B D n n' \<Longrightarrow> session_step R B D n' n'' \<Longrightarrow> session_reach R B D n n''"

section \<open>The calls that explain it\<close>

definition pending_message :: "('h, 'b) stream \<Rightarrow> u8 list list" where
  "pending_message s = (if len (sfp_packet s) = 0 then [] else [payload (sfp_packet s)])"

lemma pending_message_upd [simp]:
  "pending_message (s\<lparr>write_buffer := w\<rparr>) = pending_message s"
  "pending_message (s\<lparr>read_buffer := w\<rparr>) = pending_message s"
  "pending_message (s\<lparr>phaser_held := h\<rparr>) = pending_message s"
  by (simp_all add: pending_message_def)

definition explained ::
  "('h, 'z) ringbuffer_scheme \<Rightarrow> ('b, 'y) dynbuf_scheme \<Rightarrow> ('h, 'b) stream \<Rightarrow> ('h, 'b) stream
    \<Rightarrow> u8 list \<Rightarrow> u8 list \<Rightarrow> u8 list list \<Rightarrow> u8 list list \<Rightarrow> bool" where
  "explained R B s0 s sent gotten msgs posted \<longleftrightarrow>
     (\<exists>calls fs ds. (\<forall>call \<in> set calls. call_ok call) \<and> CallConnect \<notin> set calls
        \<and> run_spec on_call (abs_sfp R (sfp_context s0)) calls = (abs_sfp R (sfp_context s), fs, ds)
        \<and> concat (map call_octets calls) @ db_data B (read_buffer s) = gotten
        \<and> concat (map call_packets calls) = posted
        \<and> sent @ db_data B (write_buffer s) = wire fs
        \<and> msgs @ pending_message s = pending_message s0 @ filter (\<lambda>d. d \<noteq> []) ds)"

lemma explained_upd [simp]:
  "explained R B s0 (s\<lparr>phaser_held := h\<rparr>) sent gotten msgs posted \<longleftrightarrow> explained R B s0 s sent gotten msgs posted"
  by (simp add: explained_def pending_message_def)

lemma call_octets_map [simp]:
  "concat (map (call_octets \<circ> CallOctet) xs) = xs" "concat (map (call_packets \<circ> CallOctet) xs) = []"
  by (induction xs) simp_all

lemma deliver_explained:
  assumes "stream_ok R B s" and "len (sfp_packet s) = 0" and "deliver_input_sequence R B s = Inr s'"
    and "explained R B s0 s sent gotten msgs posted"
  shows "explained R B s0 s' sent gotten msgs posted \<and> delivered_ok R B s'
    \<and> phaser_held s' = phaser_held s \<and> packet_ok (sfp_packet s')"
proof -
  obtain a fs m rest where t: "take_message (abs_sfp R (sfp_context s)) (db_data B (read_buffer s)) = (a, fs, m, rest)"
    by (metis prod_cases4)
  have s': "stream_ok R B s'" "abs_sfp R (sfp_context s') = a" "len (sfp_packet s') = length m"
    "payload (sfp_packet s') = m" "db_data B (read_buffer s') = rest"
    "db_data B (write_buffer s') = db_data B (write_buffer s) @ wire fs" "phaser_held s' = phaser_held s"
    using deliver_input_sequence_ok [OF assms(1) t] assms(3) by (auto split: if_splits)
  obtain pre ds where pre: "db_data B (read_buffer s) = pre @ rest"
    "on_octets (abs_sfp R (sfp_context s)) pre = (a, fs, ds)"
    "filter (\<lambda>d. d \<noteq> []) ds = (if m = [] then [] else [m])"
    using take_message_octets(1) [OF t] by blast
  have "delivered_ok R B s'"
    using safeD [OF deliver_safe [OF assms(1)] assms(3)] .
  moreover have "packet_ok (sfp_packet s')"
  proof -
    have "length (take (length m) (buf (sfp_packet s'))) = length m"
      using s'(3,4) by (simp add: payload_def)
    then have "length m \<le> length (buf (sfp_packet s'))" by simp
    with s'(1,3) show ?thesis by (simp add: packet_ok_def stream_ok_def)
  qed
  moreover obtain calls fs0 ds0 where e: "(\<forall>call \<in> set calls. call_ok call) \<and> CallConnect \<notin> set calls"
    "run_spec on_call (abs_sfp R (sfp_context s0)) calls = (abs_sfp R (sfp_context s), fs0, ds0)"
    "concat (map call_octets calls) @ db_data B (read_buffer s) = gotten"
    "concat (map call_packets calls) = posted" "sent @ db_data B (write_buffer s) = wire fs0"
    "msgs @ pending_message s = pending_message s0 @ filter (\<lambda>d. d \<noteq> []) ds0"
    using assms(4) unfolding explained_def by blast
  have "run_spec on_call (abs_sfp R (sfp_context s0)) (calls @ map CallOctet pre)
      = (abs_sfp R (sfp_context s'), fs0 @ fs, ds0 @ ds)"
    using e(2) pre(2) s'(2) by (simp add: run_spec_append on_call_octets)
  moreover have "\<forall>call \<in> set (calls @ map CallOctet pre). call_ok call" using e(1) by auto
  moreover have "msgs @ pending_message s' = pending_message s0 @ filter (\<lambda>d. d \<noteq> []) (ds0 @ ds)"
    using e(6) pre(3) assms(2) s'(3,4) by (simp add: pending_message_def)
  ultimately show ?thesis
    using e(1,3,4,5) pre(1) s'(5,6,7)
    by (auto simp: explained_def intro!: exI [of _ "calls @ map CallOctet pre"] exI [of _ "fs0 @ fs"] exI [of _ "ds0 @ ds"])
qed

lemma write_explained:
  assumes ok: "stream_ok R B s" and "length bs \<le> SFP_CONFIG_MAX_PACKET_SIZE"
    and "length stack = SFP_CONFIG_MAX_PACKET_SIZE"
    and run: "with_sfp B (\<lambda>c. sfpWritePacket R c stack bs) s = Inr (s', k)"
    and "explained R B s0 s sent gotten msgs posted"
  shows "explained R B s0 s' sent gotten msgs (posted @ [bs]) \<and> stream_ok R B s'
    \<and> phaser_held s' = phaser_held s \<and> read_buffer s' = read_buffer s \<and> sfp_packet s' = sfp_packet s"
proof -
  have inv: "sfp_inv R (sfp_context s)" using ok by (simp add: stream_ok_def)
  let ?r = "on_send (abs_endpoint R (sfp_context s)) bs"
  obtain c' where c': "sfpWritePacket R (sfp_context s) stack bs = Inr (c', length (wire (snd ?r)))"
    "sfp_inv R c'" "abs_receiver c' = abs_receiver (sfp_context s)"
    "reacts R (sfp_context s) c' (fst ?r) (snd ?r) []"
    using write_inv [OF inv assms(3,2)] by blast
  have s': "stream_ok R B s'" "sfp_context s' = c'" "sfp_packet s' = sfp_packet s" "shows_frames B s s' (snd ?r)"
    using with_sfp_ok [where f = "\<lambda>c. sfpWritePacket R c stack bs", OF ok c'(1,4,2)] run
    by (auto split: if_splits)
  obtain calls fs0 ds0 where e: "(\<forall>call \<in> set calls. call_ok call) \<and> CallConnect \<notin> set calls"
    "run_spec on_call (abs_sfp R (sfp_context s0)) calls = (abs_sfp R (sfp_context s), fs0, ds0)"
    "concat (map call_octets calls) @ db_data B (read_buffer s) = gotten"
    "concat (map call_packets calls) = posted" "sent @ db_data B (write_buffer s) = wire fs0"
    "msgs @ pending_message s = pending_message s0 @ filter (\<lambda>d. d \<noteq> []) ds0"
    using assms(5) unfolding explained_def by blast
  have "on_call (abs_sfp R (sfp_context s)) (CallWrite stack bs) = (abs_sfp R c', snd ?r, [])"
    using reacts_seen(3) [OF c'(4)] c'(3) by (simp add: abs_sfp_def split: prod.split)
  then have "run_spec on_call (abs_sfp R (sfp_context s0)) (calls @ [CallWrite stack bs])
      = (abs_sfp R (sfp_context s'), fs0 @ snd ?r, ds0)"
    using e(2) s'(2) by (simp add: run_spec_append)
  moreover have "\<forall>call \<in> set (calls @ [CallWrite stack bs]). call_ok call" using e(1) assms(2,3) by auto
  moreover have "wire (fs0 @ snd ?r) = sent @ db_data B (write_buffer s')"
    using e(5) s'(4) by (simp add: shows_frames_def flip: append_assoc)
  moreover have "pending_message s' = pending_message s" "read_buffer s' = read_buffer s" "phaser_held s' = phaser_held s"
    using s'(3,4) by (simp_all add: pending_message_def shows_frames_def)
  ultimately show ?thesis
    using e(1,3,4,6) s'(1,3)
    by (auto simp: explained_def intro!: exI [of _ "calls @ [CallWrite stack bs]"] exI [of _ "fs0 @ snd ?r"] exI [of _ ds0])
qed

section \<open>The invariant\<close>

fun flushing_reader :: "(read_pc \<times> io) option \<Rightarrow> bool" where
  "flushing_reader (Some (RO_drain_flush, io)) \<longleftrightarrow> True"
| "flushing_reader (Some (RO_flush, io)) \<longleftrightarrow> True"
| "flushing_reader _ \<longleftrightarrow> False"

fun flushing_writer :: "(write_pc \<times> io \<times> u8 list) option \<Rightarrow> bool" where
  "flushing_writer (Some (WO_flush, io, bs)) \<longleftrightarrow> True"
| "flushing_writer _ \<longleftrightarrow> False"

definition flush_waits :: "('b, 'y) dynbuf_scheme \<Rightarrow> ('h, 'b) stream \<Rightarrow> io \<Rightarrow> bool" where
  "flush_waits B s io \<longleftrightarrow> io = Write_all (db_data B (write_buffer s))
     \<and> (len (sfp_packet s) = 0 \<longrightarrow> db_data B (read_buffer s) = [])"

fun reader_waits :: "('b, 'y) dynbuf_scheme \<Rightarrow> ('h, 'b) stream \<Rightarrow> (read_pc \<times> io) option \<Rightarrow> bool" where
  "reader_waits B s None \<longleftrightarrow> True"
| "reader_waits B s (Some (RO_drain, io)) \<longleftrightarrow> io = Dispatch \<and> len (sfp_packet s) = 0"
| "reader_waits B s (Some (RO_drain_flush, io)) \<longleftrightarrow> flush_waits B s io"
| "reader_waits B s (Some (RO_read, io)) \<longleftrightarrow> io = Read_some 256 \<and> len (sfp_packet s) = 0 \<and> awaiting B (read_buffer s)"
| "reader_waits B s (Some (RO_dispatch, io)) \<longleftrightarrow> io = Dispatch \<and> len (sfp_packet s) = 0"
| "reader_waits B s (Some (RO_flush, io)) \<longleftrightarrow> flush_waits B s io"

fun writer_waits :: "('b, 'y) dynbuf_scheme \<Rightarrow> ('h, 'b) stream \<Rightarrow> (write_pc \<times> io \<times> u8 list) option \<Rightarrow> bool" where
  "writer_waits B s None \<longleftrightarrow> True"
| "writer_waits B s (Some (WO_dispatch, io, bs)) \<longleftrightarrow> io = Dispatch \<and> length bs \<le> SFP_CONFIG_MAX_PACKET_SIZE"
| "writer_waits B s (Some (WO_flush, io, bs)) \<longleftrightarrow> io = Write_all (db_data B (write_buffer s))"

text \<open>The result of a stretch of the reader: \<open>g\<close> whether it flushes, \<open>h\<close> the phaser, \<open>w\<close> the write buffer.\<close>

definition read_after ::
  "('h, 'z) ringbuffer_scheme \<Rightarrow> ('b, 'y) dynbuf_scheme \<Rightarrow> ('d, 'x) dynbuf_scheme \<Rightarrow> ('h, 'b) stream
    \<Rightarrow> u8 list \<Rightarrow> u8 list \<Rightarrow> u8 list list \<Rightarrow> u8 list list \<Rightarrow> 'd \<Rightarrow> bool \<Rightarrow> bool \<Rightarrow> u8 list
    \<Rightarrow> (('h, 'b) stream \<times> 'd) \<times> read_pc progress \<Rightarrow> bool" where
  "read_after R B D s0 sent gotten msgs posted d g h w r \<longleftrightarrow>
     (case r of ((s, d'), p) \<Rightarrow> stream_ok R B s \<and> packet_ok (sfp_packet s)
        \<and> phaser_held s = h \<and> db_data B (write_buffer s) = w
        \<and> (case p of
             Suspend pc io \<Rightarrow> d' = d \<and> reader_waits B s (Some (pc, io)) \<and> flushing_reader (Some (pc, io)) = g
               \<and> explained R B s0 s sent gotten msgs posted
           | Complete ec \<Rightarrow> \<not> failed ec \<and> \<not> g
               \<and> explained R B s0 s sent gotten (msgs @ [drop (length (db_data D d)) (db_data D d')]) posted))"

lemma read_finish_ok:
  assumes "dynbuf_laws D limit" and "stream_ok R B s" and "packet_ok (sfp_packet s)" and "len (sfp_packet s) \<noteq> 0"
    and "explained R B s0 s sent gotten msgs posted"
  shows "safe {LengthError} (read_finish D No_error (s, d))
    (read_after R B D s0 sent gotten msgs posted d False (phaser_held s) (db_data B (write_buffer s)))"
proof (cases "db_prepare D d (len (sfp_packet s))")
  case None
  then show ?thesis by (simp add: read_finish_def Let_def)
next
  case (Some d')
  then have "length (db_data D d) + len (sfp_packet s) \<le> limit"
    using dynbuf_prepare_None [OF assms(1), of d "len (sfp_packet s)"] by simp
  from dynbuf_prepare [OF assms(1) this] Some
  have "db_data D (db_commit D d' (payload (sfp_packet s))) = db_data D d @ payload (sfp_packet s)"
    using length_payload [OF assms(3)] by auto
  then show ?thesis
    using assms(2-5) Some
    by (simp add: read_finish_def read_after_def Let_def stream_ok_def packet_ok_def explained_def pending_message_def)
qed

lemma read_loop_ok:
  assumes "dynbuf_laws D limit" and "stream_ok R B s" and "packet_ok (sfp_packet s)"
    and "len (sfp_packet s) = 0 \<longrightarrow> db_data B (read_buffer s) = []"
    and e: "explained R B s0 s sent gotten msgs posted"
  shows "safe {LengthError} (read_loop B D No_error (s, d))
    (read_after R B D s0 sent gotten msgs posted d False (phaser_held s) (db_data B (write_buffer s)))"
proof (cases "len (sfp_packet s) = 0")
  case False
  with read_finish_ok [OF assms(1-3) False e] show ?thesis by (simp add: read_loop_def)
next
  case True
  have "dynbuf_laws B buffer_limit" using assms(2) by (simp add: stream_ok_def)
  from start_reading_ok [OF this, of RO_read s] obtain b where b:
    "start_reading B RO_read s = Inr (s\<lparr>read_buffer := b\<rparr>, Suspend RO_read (Read_some 256))" "awaiting B b" by blast
  have "explained R B s0 (s\<lparr>read_buffer := b\<rparr>) sent gotten msgs posted"
    using e b(2) assms(4) True by (simp add: explained_def pending_message_def awaiting_def)
  with b True assms(2,3) show ?thesis by (simp add: read_loop_def read_after_def)
qed

lemma read_exchange_ok:
  assumes D: "dynbuf_laws D limit" and ok: "stream_ok R B s" and len0: "len (sfp_packet s) = 0"
    and e: "explained R B s0 s sent gotten msgs posted" and fl: "fl \<in> {RO_flush, RO_drain_flush}"
  shows "safe {LengthError} (read_exchange R B D fl (s, d))
    (\<lambda>r. \<exists>h w. read_after R B D s0 sent gotten msgs posted d h h w r \<and> (h \<or> w = []))"
proof -
  let ?s = "s\<lparr>phaser_held := True\<rparr>"
  let ?P = "\<lambda>r. \<exists>h w. read_after R B D s0 sent gotten msgs posted d h h w r \<and> (h \<or> w = [])"
  have "safe {LengthError} (deliver_input_sequence R B ?s)
      (\<lambda>s'. deliver_input_sequence R B ?s = Inr s')"
    using deliver_safe [of R B ?s] ok by (cases "deliver_input_sequence R B ?s") simp_all
  moreover have "safe {LengthError}
      (if length (db_data B (write_buffer s')) \<noteq> 0
       then Inr ((s', d), Suspend fl (Write_all (db_data B (write_buffer s'))))
       else read_loop B D No_error (s'\<lparr>phaser_held := False\<rparr>, d)) ?P"
    if run: "deliver_input_sequence R B ?s = Inr s'" for s'
  proof -
    have s': "explained R B s0 s' sent gotten msgs posted" "delivered_ok R B s'" "phaser_held s'"
      "packet_ok (sfp_packet s')"
      using deliver_explained [OF _ _ run, of s0 sent gotten msgs posted] ok len0 e by simp_all
    show ?thesis
    proof (cases "length (db_data B (write_buffer s')) = 0")
      case False
      then have "read_after R B D s0 sent gotten msgs posted d True True (db_data B (write_buffer s'))
          ((s', d), Suspend fl (Write_all (db_data B (write_buffer s'))))"
        using s' fl by (auto simp: read_after_def delivered_ok_def flush_waits_def)
      with False show ?thesis by auto
    next
      case True
      then have "safe {LengthError} (read_loop B D No_error (s'\<lparr>phaser_held := False\<rparr>, d))
          (read_after R B D s0 sent gotten msgs posted d False False [])"
        using read_loop_ok [OF D, of R B "s'\<lparr>phaser_held := False\<rparr>"] s' by (auto simp: delivered_ok_def)
      with True show ?thesis by (auto elim!: safe_mono)
    qed
  qed
  ultimately show ?thesis
    unfolding read_exchange_def prod.case by (rule safe_bind)
qed

lemma read_flushed_ok:
  assumes D: "dynbuf_laws D limit" and ok: "stream_ok R B s" and "packet_ok (sfp_packet s)"
    and "len (sfp_packet s) = 0 \<longrightarrow> db_data B (read_buffer s) = []"
    and e: "explained R B s0 s sent gotten msgs posted"
  shows "safe {LengthError} (read_flushed B D No_error (s, d))
    (read_after R B D s0 (sent @ db_data B (write_buffer s)) gotten msgs posted d False False [])"
proof -
  let ?s = "s\<lparr>write_buffer := consume_all B (write_buffer s), phaser_held := False\<rparr>"
  have laws: "dynbuf_laws B buffer_limit" using ok by (simp add: stream_ok_def)
  have "explained R B s0 ?s (sent @ db_data B (write_buffer s)) gotten msgs posted"
    using e laws by (simp add: explained_def)
  from read_loop_ok [OF D _ _ _ this] show ?thesis
    using assms(2-4) laws by (simp add: read_flushed_def Let_def)
qed

definition stream_session_inv ::
  "('h, 'z) ringbuffer_scheme \<Rightarrow> ('b, 'y) dynbuf_scheme \<Rightarrow> ('h, 'b) stream \<Rightarrow> ('h, 'b, 'd) session \<Rightarrow> bool" where
  "stream_session_inv R B s0 n \<longleftrightarrow> stream_ok R B (strm n) \<and> packet_ok (sfp_packet (strm n))
     \<and> explained R B s0 (strm n) (octets_sent n) (octets_got n) (messages_read n) (messages_written n)
     \<and> reader_waits B (strm n) (reader n) \<and> writer_waits B (strm n) (writer n)
     \<and> (phaser_held (strm n) \<longleftrightarrow> flushing_reader (reader n) \<or> flushing_writer (writer n))
     \<and> \<not> (flushing_reader (reader n) \<and> flushing_writer (writer n))
     \<and> (phaser_held (strm n) \<or> db_data B (write_buffer (strm n)) = [])"

lemma reader_waits_cong:
  "read_buffer s' = read_buffer s \<Longrightarrow> sfp_packet s' = sfp_packet s \<Longrightarrow> \<not> flushing_reader p \<Longrightarrow>
   reader_waits B s' p \<longleftrightarrow> reader_waits B s p"
  by (cases "(B, s, p)" rule: reader_waits.cases) auto

lemma writer_waits_cong:
  "db_data B (write_buffer s') = db_data B (write_buffer s) \<Longrightarrow> writer_waits B s' p \<longleftrightarrow> writer_waits B s p"
  by (cases "(B, s, p)" rule: writer_waits.cases) auto

lemma writer_waits_idle:
  "writer_waits B s p \<Longrightarrow> \<not> flushing_writer p \<Longrightarrow> writer_waits B s' p"
  by (cases "(B, s, p)" rule: writer_waits.cases) auto

lemma reader_at_inv:
  fixes n :: "('h, 'b, 'd) session"
  assumes "read_after R B D s0 (octets_sent n) (octets_got n) (messages_read n) (messages_written n) (dest n) g h w r"
    and "\<And>s :: ('h, 'b) stream. db_data B (write_buffer s) = w \<Longrightarrow> writer_waits B s (writer n)"
    and "h \<longleftrightarrow> g \<or> flushing_writer (writer n)" and "\<not> (g \<and> flushing_writer (writer n))" and "h \<or> w = []"
  shows "stream_session_inv R B s0 (reader_at D n r)"
proof -
  obtain s d p where r: "r = ((s, d), p)" by (metis surj_pair)
  show ?thesis
    using assms by (cases p) (auto simp: r read_after_def reader_at_def stream_session_inv_def)
qed

lemma observe_simps [simp]:
  "strm (observe io c n) = strm n" "dest (observe io c n) = dest n" "reader (observe io c n) = reader n"
  "writer (observe io c n) = writer n" "messages_read (observe io c n) = messages_read n"
  "messages_written (observe io c n) = messages_written n"
  "octets_sent (observe io c n) = octets_sent n @ io_sent io" "octets_got (observe io c n) = octets_got n @ io_got io c"
  by (simp_all add: observe_def)

lemma start_read_ok:
  assumes D: "dynbuf_laws D limit" and inv: "stream_session_inv R B s0 n" and "reader n = None"
    and "sfpIsConnected (sfp_context (strm n))"
  shows "safe {LengthError} (read_start B D (strm n, d)) (\<lambda>r. stream_session_inv R B s0 (reader_at D (n\<lparr>dest := d\<rparr>) r))"
proof (cases "len (sfp_packet (strm n)) = 0 \<and> length (db_data B (read_buffer (strm n))) \<noteq> 0")
  case True
  then show ?thesis
    using assms by (auto simp: read_start_def reader_at_def stream_session_inv_def)
next
  case False
  have run: "safe {LengthError} (read_loop B D No_error (strm n, d))
    (read_after R B D s0 (octets_sent n) (octets_got n) (messages_read n) (messages_written n) d False
      (phaser_held (strm n)) (db_data B (write_buffer (strm n))))"
    using inv False by (intro read_loop_ok [OF D]) (auto simp: stream_session_inv_def)
  have after: "stream_session_inv R B s0 (reader_at D (n\<lparr>dest := d\<rparr>) r)"
    if "read_after R B D s0 (octets_sent n) (octets_got n) (messages_read n) (messages_written n) d False
      (phaser_held (strm n)) (db_data B (write_buffer (strm n))) r" for r
    using that inv assms(3)
    by (intro reader_at_inv [of R B D s0 _ False "phaser_held (strm n)" "db_data B (write_buffer (strm n))"])
      (auto simp: stream_session_inv_def intro: writer_waits_cong [THEN iffD1, rotated])
  have "read_start B D (strm n, d) = read_loop B D No_error (strm n, d)"
    using False assms(4) by (simp only: read_start_def prod.case assertR_True if_False)
  with safe_mono [OF run after] show ?thesis by simp
qed

lemma read_on_ok:
  assumes D: "dynbuf_laws D limit" and inv: "stream_session_inv R B s0 n" and r: "reader n = Some (pc, io)"
    and c: "may_complete (strm n) io c"
  shows "safe {LengthError} (read_resume R B D pc c (strm n, dest n))
    (\<lambda>r. stream_session_inv R B s0 (reader_at D (observe io c n) r))"
proof -
  let ?s = "strm n"
  have ok: "stream_ok R B ?s" "packet_ok (sfp_packet ?s)"
    and e: "explained R B s0 ?s (octets_sent n) (octets_got n) (messages_read n) (messages_written n)"
    and rw: "reader_waits B ?s (Some (pc, io))" and ww: "writer_waits B ?s (writer n)"
    and ph: "phaser_held ?s \<longleftrightarrow> flushing_reader (reader n) \<or> flushing_writer (writer n)"
    and one: "\<not> (flushing_reader (reader n) \<and> flushing_writer (writer n))"
    and emp: "phaser_held ?s \<or> db_data B (write_buffer ?s) = []"
    using inv r unfolding stream_session_inv_def by auto
  have exchange: ?thesis if "read_resume R B D pc c (?s, dest n) = read_exchange R B D fl (?s, dest n)"
    and "fl \<in> {RO_flush, RO_drain_flush}" and "io = Dispatch" and "len (sfp_packet ?s) = 0" for fl
  proof -
    have idle: "\<not> flushing_writer (writer n)" using c that(3) ph by simp
    have "stream_session_inv R B s0 (reader_at D (observe io c n) r)"
      if "read_after R B D s0 (octets_sent n) (octets_got n) (messages_read n) (messages_written n) (dest n) h h w r"
        and "h \<or> w = []" for h w r
      using that \<open>io = Dispatch\<close> idle writer_waits_idle [OF ww idle]
      by (intro reader_at_inv [of R B D s0 _ h h w]) simp_all
    with read_exchange_ok [OF D ok(1) that(4) e that(2), of "dest n"] show ?thesis
      unfolding that(1) by (blast intro: safe_mono)
  qed
  have flushed: ?thesis if "read_resume R B D pc c (?s, dest n) = read_flushed B D (c_ec c) (?s, dest n)"
    and "flush_waits B ?s io" and "flushing_reader (reader n)"
  proof -
    have idle: "\<not> flushing_writer (writer n)" using one that(3) by simp
    have io: "io = Write_all (db_data B (write_buffer ?s))" "c_ec c = No_error"
      using that(2) c by (auto simp: flush_waits_def)
    have "safe {LengthError} (read_flushed B D No_error (?s, dest n))
      (read_after R B D s0 (octets_sent n @ db_data B (write_buffer ?s)) (octets_got n) (messages_read n)
        (messages_written n) (dest n) False False [])"
      using that(2) by (intro read_flushed_ok [OF D ok _ e]) (simp add: flush_waits_def)
    moreover have "stream_session_inv R B s0 (reader_at D (observe io c n) r)"
      if "read_after R B D s0 (octets_sent n @ db_data B (write_buffer ?s)) (octets_got n) (messages_read n)
        (messages_written n) (dest n) False False [] r" for r
      using that io(1) idle writer_waits_idle [OF ww idle]
      by (intro reader_at_inv [of R B D s0 _ False False "[]"]) simp_all
    ultimately show ?thesis
      unfolding that(1) io(2) by (blast intro: safe_mono)
  qed
  show ?thesis
  proof (cases pc)
    case RO_drain
    with exchange [of RO_drain_flush] rw show ?thesis by simp
  next
    case RO_dispatch
    with exchange [of RO_flush] rw show ?thesis by simp
  next
    case RO_drain_flush
    with flushed rw r show ?thesis by simp
  next
    case RO_flush
    with flushed rw r show ?thesis by simp
  next
    case RO_read
    show ?thesis
    proof (cases "failed (c_ec c)")
      case True
      then show ?thesis
        using RO_read ok e ww ph one emp r rw
        by (simp add: reader_at_def stream_session_inv_def)
    next
      case False
      let ?s' = "?s\<lparr>read_buffer := db_commit B (read_buffer ?s) (c_data c)\<rparr>"
      have aw: "awaiting B (read_buffer ?s)" "io = Read_some 256" "len (sfp_packet ?s) = 0"
        using rw RO_read by simp_all
      then have "explained R B s0 ?s' (octets_sent n) (octets_got n @ c_data c) (messages_read n) (messages_written n)"
        using e c by (simp add: explained_def awaiting_def)
      moreover have "writer_waits B ?s' (writer n)" using ww by (rule writer_waits_cong [THEN iffD1, rotated]) simp
      ultimately show ?thesis
        using RO_read False ok ph one emp r aw
        by (simp add: reader_at_def stream_session_inv_def)
    qed
  qed
qed

lemma write_packet_safe:
  assumes ok: "stream_ok R B s" and "length bs \<le> SFP_CONFIG_MAX_PACKET_SIZE"
    and "length stack = SFP_CONFIG_MAX_PACKET_SIZE"
  shows "safe {LengthError} (with_sfp B (\<lambda>c. sfpWritePacket R c stack bs) s)
    (\<lambda>r. with_sfp B (\<lambda>c. sfpWritePacket R c stack bs) s = Inr r)"
proof -
  have inv: "sfp_inv R (sfp_context s)" using ok by (simp add: stream_ok_def)
  obtain c' k e fs where "sfpWritePacket R (sfp_context s) stack bs = Inr (c', k)" "sfp_inv R c'"
    "reacts R (sfp_context s) c' e fs []"
    using write_inv [OF inv assms(3,2)] by blast
  from with_sfp_ok [where f = "\<lambda>c. sfpWritePacket R c stack bs", OF ok this(1,3,2)] show ?thesis
    by (auto split: if_splits)
qed

lemma write_on_ok:
  assumes inv: "stream_session_inv R B s0 n" and w: "writer n = Some (pc, io, bs)"
    and c: "may_complete (strm n) io c" and stack: "length stack = SFP_CONFIG_MAX_PACKET_SIZE"
  shows "safe {LengthError} (write_resume R B stack bs pc c (strm n))
    (\<lambda>r. stream_session_inv R B s0
      (writer_at ((observe io c n)\<lparr>messages_written := messages_written n @ (if pc = WO_dispatch then [bs] else [])\<rparr>) bs r))"
proof -
  let ?s = "strm n"
  have ok: "stream_ok R B ?s" "packet_ok (sfp_packet ?s)"
    and e: "explained R B s0 ?s (octets_sent n) (octets_got n) (messages_read n) (messages_written n)"
    and rw: "reader_waits B ?s (reader n)" and ww: "writer_waits B ?s (Some (pc, io, bs))"
    and ph: "phaser_held ?s \<longleftrightarrow> flushing_reader (reader n) \<or> flushing_writer (writer n)"
    and one: "\<not> (flushing_reader (reader n) \<and> flushing_writer (writer n))"
    using inv w by (simp_all add: stream_session_inv_def)
  show ?thesis
  proof (cases pc)
    case WO_dispatch
    have io: "io = Dispatch" and len: "length bs \<le> SFP_CONFIG_MAX_PACKET_SIZE"
      using ww WO_dispatch by simp_all
    have idle: "\<not> flushing_reader (reader n)" using c io ph by simp
    let ?s1 = "?s\<lparr>phaser_held := True\<rparr>"
    have ok1: "stream_ok R B ?s1" using ok by simp
    have "stream_session_inv R B s0 (writer_at ((observe io c n)\<lparr>messages_written := messages_written n @ [bs]\<rparr>) bs
        (s', Suspend WO_flush (Write_all (db_data B (write_buffer s')))))"
      if run: "with_sfp B (\<lambda>c. sfpWritePacket R c stack bs) ?s1 = Inr (s', k)" for s' k
    proof -
      have "explained R B s0 s' (octets_sent n) (octets_got n) (messages_read n) (messages_written n @ [bs])
        \<and> stream_ok R B s' \<and> phaser_held s' \<and> read_buffer s' = read_buffer ?s \<and> sfp_packet s' = sfp_packet ?s"
        using write_explained [OF ok1 len stack run, of s0] e by simp
      then show ?thesis
        using io idle ok rw reader_waits_cong [of s' ?s "reader n" B]
        by (simp add: writer_at_def stream_session_inv_def)
    qed
    with WO_dispatch show ?thesis
      by (auto intro!: safe_bind [OF write_packet_safe [OF ok1 len stack]])
  next
    case WO_flush
    have idle: "\<not> flushing_reader (reader n)" using one w WO_flush by simp
    let ?s1 = "?s\<lparr>write_buffer := consume_all B (write_buffer ?s), phaser_held := False\<rparr>"
    have laws: "dynbuf_laws B buffer_limit" using ok by (simp add: stream_ok_def)
    have io: "io = Write_all (db_data B (write_buffer ?s))" "c_ec c = No_error" using ww c WO_flush by auto
    have "explained R B s0 ?s1 (octets_sent n @ db_data B (write_buffer ?s)) (octets_got n) (messages_read n) (messages_written n)"
      using e laws by (simp add: explained_def)
    then show ?thesis
      using WO_flush io idle ok rw laws reader_waits_cong [of ?s1 ?s "reader n" B]
      by (simp add: writer_at_def stream_session_inv_def)
  qed
qed

lemma session_step_inv:
  assumes D: "dynbuf_laws D limit" and "session_step R B D n n'" and inv: "stream_session_inv R B s0 n"
  shows "stream_session_inv R B s0 n'"
  using assms(2)
proof cases
  case (start_read d r)
  then have "sfpIsConnected (sfp_context (strm n))" by (simp add: read_start_def assertR_def split: if_splits)
  from safeD [OF start_read_ok [OF D inv start_read(2) this] start_read(3)] start_read(1) show ?thesis by simp
next
  case (start_write bs r)
  then have "r = (strm n, Suspend WO_dispatch Dispatch)"
    by (auto simp: write_start_def assertR_def split: if_splits)
  then show ?thesis
    using start_write inv by (auto simp: writer_at_def stream_session_inv_def)
next
  case (read_on pc io c r)
  from safeD [OF read_on_ok [OF D inv read_on(2,3)] read_on(4)] read_on(1) show ?thesis by simp
next
  case (write_on pc io bs c stack r)
  from safeD [OF write_on_ok [OF inv write_on(2,3,4)] write_on(5)] write_on(1) show ?thesis by simp
qed

text \<open>
  A session at its start: an idle stream, with an empty write buffer; a message and octets
  may be left from the handshake.
\<close>

definition session_start ::
  "('h, 'z) ringbuffer_scheme \<Rightarrow> ('b, 'y) dynbuf_scheme \<Rightarrow> ('h, 'b, 'd) session \<Rightarrow> bool" where
  "session_start R B n \<longleftrightarrow> stream_ok R B (strm n) \<and> packet_ok (sfp_packet (strm n))
     \<and> db_data B (write_buffer (strm n)) = [] \<and> \<not> phaser_held (strm n)
     \<and> reader n = None \<and> writer n = None \<and> octets_sent n = [] \<and> octets_got n = db_data B (read_buffer (strm n))
     \<and> messages_read n = [] \<and> messages_written n = []"

lemma session_start_inv: "session_start R B n \<Longrightarrow> stream_session_inv R B (strm n) n"
  by (auto simp: session_start_def stream_session_inv_def explained_def wire_def frames_octets_def
      intro!: exI [of _ "[]"])

lemma session_reach_inv:
  assumes "session_reach R B D n n'" and "session_start R B n" and "dynbuf_laws D limit"
  shows "stream_session_inv R B (strm n) n'"
  using assms
proof (induction rule: session_reach.induct)
  case (refl n)
  then show ?case by (simp add: session_start_inv)
next
  case (step n n' n'')
  then show ?case using session_step_inv by blast
qed

text \<open>
  C30. A stream refines the library: for every interleaving of reads and writes there are
  library calls, with the octets that the next layer has provided and the messages that
  were written, such that the octets sent (with those still in the write buffer) are the
  frames of the specification, and the messages read (with the one not yet fetched) are
  its non-empty deliveries, in their order, none lost and none twice.
\<close>

theorem stream_refines_library:
  assumes "session_start R B n" and "session_reach R B D n n'" and "dynbuf_laws D limit"
  shows "\<exists>calls fs ds. (\<forall>call \<in> set calls. call_ok call)
    \<and> run_spec on_call (abs_sfp R (sfp_context (strm n))) calls = (abs_sfp R (sfp_context (strm n')), fs, ds)
    \<and> concat (map call_octets calls) @ db_data B (read_buffer (strm n')) = octets_got n'
    \<and> concat (map call_packets calls) = messages_written n'
    \<and> octets_sent n' @ db_data B (write_buffer (strm n')) = wire fs
    \<and> messages_read n' @ pending_message (strm n') = pending_message (strm n) @ filter (\<lambda>d. d \<noteq> []) ds"
  using session_reach_inv [OF assms(2,1,3)] unfolding stream_session_inv_def explained_def by blast


end
