(* ===== verification/Sfp_StreamFaults.thy ===== *)
theory Sfp_StreamFaults
  imports Sfp_StreamSession
begin

text \<open>
  Examples of a connected \<^verbatim>\<open>sfp::stream\<close>, and two ways in which its peer can bring it
  down: by a request for more packets than its write buffer can hold, and by starting a new
  handshake.
\<close>

section \<open>A connected stream\<close>

text \<open>A stream over the connected context with a history, its callbacks set by the handshake.\<close>

definition example_linked :: "u8 list list \<Rightarrow> u8 \<Rightarrow> u8 \<Rightarrow> u8 list \<Rightarrow> (SFPpacket list, u8 list) stream" where
  "example_linked bss t r input =
     example_stream\<lparr>read_buffer := input, sfp_packet := raw_packet, sfp_context :=
       sfpSetUnlockCallback (sfpSetLockCallback (sfpSetDeliverCallback (sfpSetWriteCallback
         (example_session bss t r) (Some addr_on_sfp_write) (Some 100)) None None) None None) None None\<rparr>"

abbreviation example_dynbuf :: "u8 list dynbuf" where
  "example_dynbuf \<equiv> list_dynbuf buffer_limit"

lemma linked_simps [simp]:
  "connectState (sfp_context (example_linked bss t r input)) = SFP_CONNECT_STATE_CONNECTED"
  "rx_seq (rx (sfp_context (example_linked bss t r input))) = r"
  "tx_seq (tx (sfp_context (example_linked bss t r input))) = t"
  "history_list list_ringbuffer (sfp_context (example_linked bss t r input)) = map example_packet bss"
  "db_data example_dynbuf (read_buffer (example_linked bss t r input)) = input"
  "db_data example_dynbuf (write_buffer (example_linked bss t r input)) = []"
  "phaser_held (example_linked bss t r input) = False" "sfp_packet (example_linked bss t r input) = raw_packet"
  "abs_receiver (sfp_context (example_linked bss t r input)) = idle"
proof -
  have "abs_receiver (sfp_context (example_linked bss t r input)) = abs_receiver (example_session bss t r)"
    by (rule abs_receiver_cong) (simp_all add: example_linked_def setup_defs)
  then show "abs_receiver (sfp_context (example_linked bss t r input)) = idle" by simp
  have "history (tx (sfp_context (example_linked bss t r input))) = history (tx (example_session bss t r))"
    by (simp add: example_linked_def setup_defs)
  then show "history_list list_ringbuffer (sfp_context (example_linked bss t r input)) = map example_packet bss"
    using session_simps(6) [of bss t r] by (simp add: history_list_def)
qed (simp_all add: example_linked_def setup_defs example_stream_def list_dynbuf_def)

lemma linked_ok:
  assumes "\<forall>bs \<in> set bss. length bs \<le> SFP_CONFIG_MAX_PACKET_SIZE"
    and "length bss \<le> SFP_CONFIG_HISTORY_CAPACITY" and "seq_ok t" and "seq_ok r"
  shows "stream_ok list_ringbuffer example_dynbuf (example_linked bss t r input)"
proof -
  have "sfp_inv list_ringbuffer (sfp_context (example_linked bss t r input))"
    unfolding example_linked_def
    by (simp add: setters_inv [OF setters_inv(3) [OF setters_inv(2) [OF setters_inv(1) [OF session_inv [OF assms]]]]])
  moreover have "callbacks (sfp_context (example_linked bss t r input)) = stream_callbacks (address (example_linked bss t r input))"
    by (simp add: example_linked_def setup_defs callbacks_def stream_callbacks_def example_stream_def)
  ultimately show ?thesis by (simp add: stream_ok_def raw_packet_def)
qed

definition example_start :: "(SFPpacket list, u8 list, u8 list) session" where
  "example_start =
     \<lparr>strm = example_linked [] 0 0 [], dest = [], reader = None, writer = None, octets_sent = [],
      octets_got = [], messages_read = [], messages_written = []\<rparr>"

lemma example_start_ok: "session_start list_ringbuffer example_dynbuf example_start"
  using linked_ok [of "[]" 0 0 "[]"]
  by (simp add: session_start_def example_start_def seq_ok_unat packet_ok_def raw_packet_def)

text \<open>A session in which a reader and then a writer have started.\<close>

lemma example_reach:
  "\<exists>n. session_reach list_ringbuffer example_dynbuf example_dynbuf example_start n
     \<and> reader n = Some (RO_read, Read_some 256) \<and> writer n = Some (WO_dispatch, Dispatch, [1, 2])"
proof -
  let ?s = "strm example_start"
  have s: "?s = example_linked [] 0 0 []" "sfpIsConnected (sfp_context ?s)"
    by (simp_all add: example_start_def sfpIsConnected_def)
  obtain b where "start_reading example_dynbuf RO_read ?s = Inr (?s\<lparr>read_buffer := b\<rparr>, Suspend RO_read (Read_some 256))"
    using start_reading_ok [OF list_dynbuf_laws, of RO_read ?s] by blast
  then have r: "read_start example_dynbuf example_dynbuf (?s, []) = Inr ((?s\<lparr>read_buffer := b\<rparr>, []), Suspend RO_read (Read_some 256))"
    using s(2) by (simp add: read_start_def read_loop_def) (simp add: s(1) raw_packet_def)
  have none: "reader example_start = None" "writer example_start = None" by (simp_all add: example_start_def)
  note step1 = session_reach.step [OF session_reach.refl session_step.start_read [OF none(1) r, of list_ringbuffer]]
  let ?n = "reader_at example_dynbuf (example_start\<lparr>dest := []\<rparr>) ((?s\<lparr>read_buffer := b\<rparr>, []), Suspend RO_read (Read_some 256))"
  have n: "reader ?n = Some (RO_read, Read_some 256)" "writer ?n = None" "strm ?n = ?s\<lparr>read_buffer := b\<rparr>"
    using none by (simp_all add: reader_at_def)
  have w: "write_start (strm ?n) = Inr (strm ?n, Suspend WO_dispatch Dispatch)" using s(2) n(3) by (simp add: write_start_def)
  have len: "length [1, 2 :: u8] \<le> SFP_CONFIG_MAX_PACKET_SIZE" by (simp add: sfp_consts)
  note step2 = session_reach.step [OF step1 session_step.start_write [OF n(2) len w]]
  have "reader (writer_at ?n [1, 2] (strm ?n, Suspend WO_dispatch Dispatch)) = Some (RO_read, Read_some 256)"
    "writer (writer_at ?n [1, 2] (strm ?n, Suspend WO_dispatch Dispatch)) = Some (WO_dispatch, Dispatch, [1, 2])"
    using n(1) by (simp_all add: writer_at_def)
  then show ?thesis by (intro exI conjI) (rule step2, assumption+)
qed

theorem stream_refines_library_witness:
  "\<exists>n :: (SFPpacket list, u8 list, u8 list) session. writer n = Some (WO_dispatch, Dispatch, [1, 2]) \<and>
    (\<exists>calls fs ds. run_spec on_call (abs_sfp list_ringbuffer (sfp_context (strm example_start))) calls
      = (abs_sfp list_ringbuffer (sfp_context (strm n)), fs, ds) \<and> concat (map call_packets calls) = messages_written n)"
proof -
  obtain n where n: "session_reach list_ringbuffer example_dynbuf example_dynbuf example_start n"
    "writer n = Some (WO_dispatch, Dispatch, [1, 2])" using example_reach by blast
  have "\<exists>calls fs ds. run_spec on_call (abs_sfp list_ringbuffer (sfp_context (strm example_start))) calls
      = (abs_sfp list_ringbuffer (sfp_context (strm n)), fs, ds) \<and> concat (map call_packets calls) = messages_written n"
    using stream_refines_library [OF example_start_ok n(1) list_dynbuf_laws]
    by (elim exE conjE) (intro exI conjI, assumption+)
  with n(2) show ?thesis by (intro exI [of _ n] conjI)
qed


section \<open>A retransmission overflows the write buffer\<close>

lemma length_wire_rtx: "sum_list (map (\<lambda>bs. length bs + 5) bss) \<le> length (wire (rtx s bss))"
proof (induction bss arbitrary: s)
  case (Cons bs bss)
  show ?case
    using Cons [of "nextSeq s"] length_frame_octets [where bs = bs and hdr = "makeHeader SFP_FRAME_RTX s"] by simp
qed simp

text \<open>
  C35. A request for retransmission can overflow the write buffer: when a connected stream
  reads a request for the packets of its history from the \<open>i\<close>-th on, and these take more
  than the 1024 octets of the buffer (eight packets of 124 octets do), the buffer throws out
  of the write callback, through the library, and the operation is lost.
\<close>

theorem retransmission_overflows:
  assumes "stream_ok R B s" and "abs_receiver (sfp_context s) = idle" and "sfpIsConnected (sfp_context s)"
    and "seq_ok q" and "i < length (history_list R (sfp_context s))"
    and "tx_seq (tx (sfp_context s)) = (nextSeq ^^ length (history_list R (sfp_context s))) q"
    and "db_data B (read_buffer s) = wire [NAK ((nextSeq ^^ i) q)]"
    and "buffer_limit < sum_list (map (\<lambda>p. length (payload p) + 5) (drop i (history_list R (sfp_context s))))"
  shows "deliver_input_sequence R B s = Inl LengthError"
proof -
  let ?c = "sfp_context s" and ?q = "(nextSeq ^^ i) q"
  let ?e = "abs_endpoint R ?c" and ?h = "history_list R (sfp_context s)"
  let ?fs = "rtx ?q (map payload (drop i ?h))"
  have inv: "sfp_inv R ?c" using assms(1) by (simp add: stream_ok_def)
  have h: "length ?h \<le> SFP_CONFIG_HISTORY_CAPACITY"
    using inv by (simp add: sfp_inv_def sfp_ok_def history_ok_def)
  have "?q \<noteq> tx_seq (tx ?c)"
    using assms(5,6) h funpow_nextSeq_inject [OF assms(4), of "length ?h" i] by (simp add: sfp_consts)
  moreover have "resend ?e ?q = (?e\<lparr>hist := drop i (hist ?e)\<rparr>, rtx ?q (drop i (hist ?e)))"
    using assms(5,6) h by (intro resend_window [OF assms(4)]) (simp_all add: endpoint_simps)
  ultimately have nak: "on_inputs ?e [Some (NAK ?q)] = (?e\<lparr>hist := drop i (hist ?e)\<rparr>, ?fs, [])"
    using assms(3) by (simp add: on_input_def on_nak_def endpoint_simps sfpIsConnected_def drop_map)
  have "seq_ok ?q" using assms(4) by (cases i) simp_all
  then have "deframe idle (wire [NAK ?q]) = (idle, [Some (NAK ?q)])"
    by (subst deframe_wire) simp_all
  then have "on_octets (abs_sfp R ?c) (wire [NAK ?q]) = ((?e\<lparr>hist := drop i (hist ?e)\<rparr>, idle), ?fs, [])"
    using nak assms(2) by (simp add: abs_sfp_def on_octets_deframe del: wire_simps)
  then have t: "take_message (abs_sfp R ?c) (db_data B (read_buffer s)) = ((?e\<lparr>hist := drop i (hist ?e)\<rparr>, idle), ?fs, [], [])"
    unfolding assms(7) by (rule take_message_none)
  have "\<not> fits B s ?fs"
    using assms(8) length_wire_rtx [of "map payload (drop i ?h)" ?q] by (simp add: fits_def comp_def)
  with deliver_input_sequence_ok [OF assms(1) t] show ?thesis by simp
qed

theorem retransmission_overflows_witness:
  "deliver_input_sequence list_ringbuffer example_dynbuf (example_linked (replicate 8 (replicate 124 0)) 8 0 (wire [NAK 0]))
    = Inl LengthError"
proof -
  let ?s = "example_linked (replicate 8 (replicate 124 0)) 8 0 (wire [NAK 0])"
  have ok: "stream_ok list_ringbuffer example_dynbuf ?s"
    by (intro linked_ok) (simp_all add: sfp_consts seq_ok_unat)
  have "(nextSeq ^^ 8) 0 = 8" by (simp add: nextSeq_def sfp_consts numeral_eq_Suc)
  moreover have "buffer_limit < sum_list (map (\<lambda>p. length (payload p) + 5) (map example_packet (replicate 8 (replicate 124 0))))"
    by (simp add: sum_list_replicate buffer_limit_def)
  ultimately show ?thesis
    using retransmission_overflows [OF ok, of 0 0] by (simp add: seq_ok_unat sfpIsConnected_def)
qed

section \<open>A new handshake of the peer\<close>

text \<open>
  A peer that starts a new handshake breaks the next operation: when a connected stream
  has processed the peer's SYN0, it has answered SYN1 and is not connected any more, and the
  assertion at the beginning of the client's next \<^verbatim>\<open>async_read\<close> or \<^verbatim>\<open>async_write\<close> fails.
\<close>

lemma reconnecting_peer_breaks_stream:
  assumes "stream_ok R B s" and "abs_receiver (sfp_context s) = idle"
    and "db_data B (read_buffer s) = wire [SYN SFP_SEQ_SYN0]" and "db_data B (write_buffer s) = []"
  shows "\<exists>s'. deliver_input_sequence R B s = Inr s' \<and> db_data B (write_buffer s') = wire [SYN SFP_SEQ_SYN1]
    \<and> connectState (sfp_context s') = SFP_CONNECT_STATE_SENT_SYN1
    \<and> read_start B D (s', d) = Inl AssertFailed \<and> write_start s' = Inl AssertFailed"
proof -
  let ?c = "sfp_context s"
  have "deframe idle (wire [SYN SFP_SEQ_SYN0]) = (idle, [Some (SYN SFP_SEQ_SYN0)])"
    by (subst deframe_wire) (simp_all add: seq_ok_def sfp_consts)
  then have "on_octets (abs_sfp R ?c) (wire [SYN SFP_SEQ_SYN0])
      = ((fst (on_syn (abs_endpoint R ?c) SFP_SEQ_SYN0), idle), [SYN SFP_SEQ_SYN1], [])"
    using assms(2) by (simp add: abs_sfp_def on_octets_deframe on_input_def on_syn_def del: wire_simps)
  then have t: "take_message (abs_sfp R ?c) (db_data B (read_buffer s))
      = ((fst (on_syn (abs_endpoint R ?c) SFP_SEQ_SYN0), idle), [SYN SFP_SEQ_SYN1], [], [])"
    unfolding assms(3) by (rule take_message_none)
  have "fits B s [SYN SFP_SEQ_SYN1]"
    using wire_syn_fits [of SFP_SEQ_SYN1] assms(4) by (simp add: fits_def sfp_consts)
  then obtain s' where s': "deliver_input_sequence R B s = Inr s'" "db_data B (write_buffer s') = wire [SYN SFP_SEQ_SYN1]"
    "abs_sfp R (sfp_context s') = (fst (on_syn (abs_endpoint R ?c) SFP_SEQ_SYN0), idle)"
    using deliver_input_sequence_ok [OF assms(1) t] assms(4) by (auto simp del: wire_simps)
  have "connectState (sfp_context s') = SFP_CONNECT_STATE_SENT_SYN1"
    using arg_cong [OF s'(3), of "\<lambda>a. conn (fst a)"] by (simp add: abs_sfp_def on_syn_def endpoint_simps)
  with s'(1,2) show ?thesis
    by (simp add: read_start_def write_start_def sfpIsConnected_def)
qed

lemma reconnecting_peer_breaks_stream_witness:
  "\<exists>s'. deliver_input_sequence list_ringbuffer example_dynbuf (example_linked [] 0 0 (wire [SYN SFP_SEQ_SYN0])) = Inr s'
     \<and> write_start s' = Inl AssertFailed"
proof -
  have "stream_ok list_ringbuffer example_dynbuf (example_linked [] 0 0 (wire [SYN SFP_SEQ_SYN0]))"
    by (intro linked_ok) (simp_all add: seq_ok_unat)
  from reconnecting_peer_breaks_stream [OF this, of example_dynbuf "[]"] show ?thesis by auto
qed

end
