(* ===== verification/Sfp_Queue.thy ===== *)
theory Sfp_Queue
  imports Sfp_Calls Sfp_Error
begin

text \<open>
  The message queue over Asio (\<^verbatim>\<open>src/include/sfp/asio/messagequeue.hpp\<close>): the read pump,
  the outbox with its write pump, the queue of received messages, the handshake and the
  keepalive operation. Completions of the stream and of the timer are inputs; handlers of
  the client are recorded when they are called.
\<close>

section \<open>What the queue builds on\<close>

text \<open>
  A consumer of the receive queue: the lambda of \<^verbatim>\<open>asyncReceive\<close>, with the size of the
  destination and the client's handler, or the one of \<^verbatim>\<open>voidReceives\<close>, which discards.
\<close>

datatype consumer = Receive nat nat | Discard

text \<open>
  \<^verbatim>\<open>util::ProducerConsumerQueue\<close> of \<^verbatim>\<open>cxx-util\<close> is a parameter: its depth, and what its
  operations hand to whom. A producer may meet a waiting consumer, a consumer a waiting
  item.
\<close>

type_synonym item = "error_code \<times> u8 list"

record 'q pcqueue =
  pq_items :: "'q \<Rightarrow> item list"
  pq_consumers :: "'q \<Rightarrow> consumer list"
  pq_depth :: "'q \<Rightarrow> int"
  pq_produce :: "'q \<Rightarrow> item \<Rightarrow> 'q \<times> consumer option"
  pq_consume :: "'q \<Rightarrow> consumer \<Rightarrow> 'q \<times> item option"

text \<open>
  The contract of such a queue: it holds items or consumers, in their order; the depth
  counts the items, or the consumers as a negative number.
\<close>

definition pcqueue_laws :: "('q, 'z) pcqueue_scheme \<Rightarrow> bool" where
  "pcqueue_laws Q \<longleftrightarrow>
     (\<forall>q. pq_depth Q q = int (length (pq_items Q q)) - int (length (pq_consumers Q q))) \<and>
     (\<forall>q. pq_items Q q = [] \<or> pq_consumers Q q = []) \<and>
     (\<forall>q i. case pq_produce Q q i of (q', c) \<Rightarrow>
        (case pq_consumers Q q of
           [] \<Rightarrow> c = None \<and> pq_items Q q' = pq_items Q q @ [i] \<and> pq_consumers Q q' = []
         | k # ks \<Rightarrow> c = Some k \<and> pq_items Q q' = [] \<and> pq_consumers Q q' = ks)) \<and>
     (\<forall>q k. case pq_consume Q q k of (q', i) \<Rightarrow>
        (case pq_items Q q of
           [] \<Rightarrow> i = None \<and> pq_items Q q' = [] \<and> pq_consumers Q q' = pq_consumers Q q @ [k]
         | j # js \<Rightarrow> i = Some j \<and> pq_items Q q' = js \<and> pq_consumers Q q' = []))"

text \<open>The stream under the queue: whether it is open, and how it is shut down and closed.\<close>

record 's stream_ops =
  st_is_open :: "'s \<Rightarrow> bool"
  st_shutdown :: "'s \<Rightarrow> 's \<times> error_code"
  st_close :: "'s \<Rightarrow> 's \<times> error_code"

definition stream_laws :: "('s, 'z) stream_ops_scheme \<Rightarrow> bool" where
  "stream_laws S \<longleftrightarrow> (\<forall>s. \<not> st_is_open S (fst (st_close S s)))"

text \<open>\<^verbatim>\<open>StreamWrapper::close\<close>, for any stream and for a socket.\<close>

definition wrapper_close :: "('s, 'z) stream_ops_scheme \<Rightarrow> 's \<Rightarrow> 's \<times> error_code" where
  "wrapper_close S s = st_close S s"

definition wrapper_close_socket :: "('s, 'z) stream_ops_scheme \<Rightarrow> 's \<Rightarrow> 's \<times> error_code" where
  "wrapper_close_socket S s =
     (let ec = No_error;
          (s, lEc) = st_shutdown S s;
          ec = (if failed lEc then lEc else ec);
          (s, lEc) = st_close S s;
          ec = (if failed lEc then lEc else ec)
      in (s, ec))"

section \<open>The object\<close>

definition kSfpMaxHandshakeAttempts :: nat where
  "kSfpMaxHandshakeAttempts = 50"

text \<open>The state of a handshake operation between its stretches, with the client's handler.\<close>

record HandshakeOperation =
  nTries :: nat
  rc :: error_code
  hs_handler :: nat

text \<open>
  What is called when a buffer of the outbox has been written: a handler of the client, the
  continuation of the read pump, a handshake or a keepalive operation; and what waits for
  the timer.
\<close>

datatype send_handler =
    User_send nat
  | Pump_flushed
  | Handshake_flushed HandshakeOperation
  | Keepalive_sent nat

datatype timer_handler =
    Handshake_connecting HandshakeOperation
  | Handshake_settling HandshakeOperation
  | Keepalive_waiting nat

text \<open>Calls of the client's handlers.\<close>

datatype report =
    Sent nat error_code
  | Received nat error_code "u8 list"
  | Handshaken nat error_code
  | Keepalive_ended nat error_code

text \<open>
  The members of \<^verbatim>\<open>MessageQueueImpl\<close>; then the asynchronous operations under way - reads,
  writes with their buffers, waits on the timer with whether they were cancelled - and the
  reports to the client.
\<close>

record ('h, 'q, 's) mq =
  mReceiveQueue :: 'q
  mWriteBuffer :: "u8 list"
  mOutbox :: "(u8 list \<times> send_handler) list"
  mReadPumpRunning :: bool
  mReadPumpError :: error_code
  mStream :: 's
  mqContext :: "'h sfp"
  mHandshakeComplete :: bool
  mq_address :: nat
  pending_reads :: nat
  pending_writes :: "u8 list list"
  pending_waits :: "(timer_handler \<times> bool) list"
  reports :: "report list"

text \<open>The parameters: the ring buffer, the receive queue, the stream, and the wrapper's close.\<close>

record ('h, 'q, 's) env =
  eR :: "'h ringbuffer"
  eQ :: "'q pcqueue"
  eS :: "'s stream_ops"
  eClose :: "'s \<Rightarrow> 's \<times> error_code"

definition env_ok :: "('h, 'q, 's) env \<Rightarrow> bool" where
  "env_ok E \<longleftrightarrow> ringbuffer_laws (eR E) \<and> pcqueue_laws (eQ E) \<and> stream_laws (eS E)
     \<and> eClose E \<in> {wrapper_close (eS E), wrapper_close_socket (eS E)}"

definition is_open :: "('h, 'q, 's) env \<Rightarrow> ('h, 'q, 's) mq \<Rightarrow> bool" where
  "is_open E q = st_is_open (eS E) (mStream q)"

section \<open>The timer, closing, errors of the read pump\<close>

text \<open>
  \<^verbatim>\<open>expires_from_now\<close> and \<^verbatim>\<open>cancel\<close> cancel the waits under way: they will complete with
  \<^verbatim>\<open>operation_aborted\<close>.
\<close>

definition timer_cancel :: "('h, 'q, 's) mq \<Rightarrow> ('h, 'q, 's) mq" where
  "timer_cancel q = q\<lparr>pending_waits := map (\<lambda>(t, c). (t, True)) (pending_waits q)\<rparr>"

definition timer_wait :: "timer_handler \<Rightarrow> ('h, 'q, 's) mq \<Rightarrow> ('h, 'q, 's) mq" where
  "timer_wait t q = (let q = timer_cancel q in q\<lparr>pending_waits := pending_waits q @ [(t, False)]\<rparr>)"

definition report_to :: "report \<Rightarrow> ('h, 'q, 's) mq \<Rightarrow> ('h, 'q, 's) mq" where
  "report_to r q = q\<lparr>reports := reports q @ [r]\<rparr>"

definition mq_close :: "('h, 'q, 's) env \<Rightarrow> ('h, 'q, 's) mq \<Rightarrow> ('h, 'q, 's) mq" where
  "mq_close E q =
     (let q = timer_cancel q;
          q = q\<lparr>mStream := fst (eClose E (mStream q))\<rparr>
      in q\<lparr>mReadPumpError := Asio Operation_aborted\<rparr>)"

definition getReadPumpError :: "('h, 'q, 's) env \<Rightarrow> ('h, 'q, 's) mq \<Rightarrow> ('h, 'q, 's) mq \<times> error_code" where
  "getReadPumpError E q =
     (let ec = mReadPumpError q;
          q = q\<lparr>mReadPumpError := No_error\<rparr>
      in (q, if \<not> failed ec \<and> \<not> is_open E q then Asio Network_down else ec))"

section \<open>The receive queue\<close>

text \<open>
  The lambda of \<^verbatim>\<open>asyncReceive\<close>: it copies what fits into the destination and reports
  \<^verbatim>\<open>message_size\<close> if that is not all.
\<close>

fun run_consumer :: "consumer \<Rightarrow> item \<Rightarrow> ('h, 'q, 's) mq \<Rightarrow> ('h, 'q, 's) mq" where
  "run_consumer (Receive room h) (ec, source) q =
     (if \<not> failed ec then
        (let copied = take room source;
             ec = (if length copied = length source then No_error else Asio Message_size)
         in report_to (Received h ec copied) q)
      else report_to (Received h ec []) q)"
| "run_consumer Discard i q = q"

definition produce :: "('h, 'q, 's) env \<Rightarrow> item \<Rightarrow> ('h, 'q, 's) mq \<Rightarrow> ('h, 'q, 's) mq" where
  "produce E i q =
     (let (rq, c) = pq_produce (eQ E) (mReceiveQueue q) i;
          q = q\<lparr>mReceiveQueue := rq\<rparr>
      in case c of None \<Rightarrow> q | Some k \<Rightarrow> run_consumer k i q)"

definition mq_consume :: "('h, 'q, 's) env \<Rightarrow> consumer \<Rightarrow> ('h, 'q, 's) mq \<Rightarrow> ('h, 'q, 's) mq" where
  "mq_consume E k q =
     (let (rq, i) = pq_consume (eQ E) (mReceiveQueue q) k;
          q = q\<lparr>mReceiveQueue := rq\<rparr>
      in case i of None \<Rightarrow> q | Some i \<Rightarrow> run_consumer k i q)"

definition depth :: "('h, 'q, 's) env \<Rightarrow> ('h, 'q, 's) mq \<Rightarrow> int" where
  "depth E q = pq_depth (eQ E) (mReceiveQueue q)"

text \<open>Two loops, which need not end for an arbitrary queue.\<close>

definition loopR :: "('a \<Rightarrow> bool) \<Rightarrow> ('a \<Rightarrow> 'a) \<Rightarrow> 'a \<Rightarrow> 'a res" where
  "loopR going f x = (case while_option going f x of None \<Rightarrow> Inl Diverged | Some y \<Rightarrow> Inr y)"

definition voidReceives :: "('h, 'q, 's) env \<Rightarrow> error_code \<Rightarrow> ('h, 'q, 's) mq \<Rightarrow> ('h, 'q, 's) mq res" where
  "voidReceives E ec q =
     bindR (loopR (\<lambda>q. depth E q < 0) (produce E (ec, [])) q)
           (loopR (\<lambda>q. 0 < depth E q) (mq_consume E Discard))"

section \<open>The read pump\<close>

definition readPump :: "('h, 'q, 's) env \<Rightarrow> ('h, 'q, 's) mq \<Rightarrow> ('h, 'q, 's) mq res" where
  "readPump E q =
     (if is_open E q then Inr (q\<lparr>pending_reads := Suc (pending_reads q)\<rparr>)
      else bindR (voidReceives E (Asio Network_down) q)
             (\<lambda>q. Inr (q\<lparr>mReadPumpRunning := False, mReadPumpError := Asio Network_down\<rparr>)))"

definition startReadPump :: "('h, 'q, 's) env \<Rightarrow> ('h, 'q, 's) mq \<Rightarrow> ('h, 'q, 's) mq res" where
  "startReadPump E q =
     (if mReadPumpRunning q then Inr q
      else readPump E (q\<lparr>mReadPumpRunning := True, mReadPumpError := No_error\<rparr>))"

text \<open>The local lambda of \<^verbatim>\<open>handleRead\<close>.\<close>

definition stopReadPump :: "('h, 'q, 's) env \<Rightarrow> error_code \<Rightarrow> ('h, 'q, 's) mq \<Rightarrow> ('h, 'q, 's) mq res" where
  "stopReadPump E ec q =
     bindR (voidReceives E ec q)
     (\<lambda>q. let q = (if ec \<noteq> Asio Operation_aborted then mq_close E q else q)
          in Inr (q\<lparr>mReadPumpRunning := False, mReadPumpError := ec\<rparr>))"

section \<open>Resuming operations\<close>

text \<open>
  Both operations first replace success and cancellation by the read pump's error, and go
  on if there is none. An operation completes with its \<open>rc\<close>, which is
  \<^verbatim>\<open>operation_aborted\<close> unless it was set.
\<close>

definition resume_code :: "('h, 'q, 's) env \<Rightarrow> error_code \<Rightarrow> ('h, 'q, 's) mq \<Rightarrow> ('h, 'q, 's) mq \<times> error_code" where
  "resume_code E ec q =
     (if \<not> failed ec \<or> ec = Asio Operation_aborted then getReadPumpError E q else (q, ec))"

definition complete_handshake :: "HandshakeOperation \<Rightarrow> ('h, 'q, 's) mq \<Rightarrow> ('h, 'q, 's) mq" where
  "complete_handshake op q = report_to (Handshaken (hs_handler op) (rc op)) q"

definition handshake_operation ::
  "('h, 'q, 's) env \<Rightarrow> (HandshakeOperation \<Rightarrow> ('h, 'q, 's) mq \<Rightarrow> ('h, 'q, 's) mq res)
    \<Rightarrow> HandshakeOperation \<Rightarrow> error_code \<Rightarrow> ('h, 'q, 's) mq \<Rightarrow> ('h, 'q, 's) mq res" where
  "handshake_operation E stretch op ec q =
     (let (q, ec) = resume_code E ec q
      in if \<not> failed ec then stretch op q
         else if ec \<noteq> Asio Operation_aborted
           then Inr (complete_handshake (op\<lparr>rc := ec\<rparr>) (mq_close E q))
         else Inr (complete_handshake op q))"

text \<open>After the flush of SYN0: wait for the connection, or at once for it to settle.\<close>

definition handshake_flushed :: "HandshakeOperation \<Rightarrow> ('h, 'q, 's) mq \<Rightarrow> ('h, 'q, 's) mq res" where
  "handshake_flushed op q =
     (if \<not> sfpIsConnected (mqContext q) then Inr (timer_wait (Handshake_connecting op) q)
      else Inr (timer_wait (Handshake_settling op) q))"

definition keepalive_operation ::
  "('h, 'q, 's) env \<Rightarrow> (nat \<Rightarrow> ('h, 'q, 's) mq \<Rightarrow> ('h, 'q, 's) mq res)
    \<Rightarrow> nat \<Rightarrow> error_code \<Rightarrow> ('h, 'q, 's) mq \<Rightarrow> ('h, 'q, 's) mq res" where
  "keepalive_operation E stretch h ec q =
     (let (q, ec) = resume_code E ec q
      in if \<not> failed ec then stretch h q
         else Inr (report_to (Keepalive_ended h ec) q))"

definition keepalive_loop :: "nat \<Rightarrow> ('h, 'q, 's) mq \<Rightarrow> ('h, 'q, 's) mq res" where
  "keepalive_loop h q = Inr (timer_wait (Keepalive_waiting h) q)"

fun call_handler ::
  "('h, 'q, 's) env \<Rightarrow> send_handler \<Rightarrow> error_code \<Rightarrow> ('h, 'q, 's) mq \<Rightarrow> ('h, 'q, 's) mq res" where
  "call_handler E (User_send h) ec q = Inr (report_to (Sent h ec) q)"
| "call_handler E Pump_flushed ec q = (if \<not> failed ec then readPump E q else stopReadPump E ec q)"
| "call_handler E (Handshake_flushed op) ec q = handshake_operation E handshake_flushed op ec q"
| "call_handler E (Keepalive_sent h) ec q = keepalive_operation E keepalive_loop h ec q"

section \<open>The write pump\<close>

text \<open>One round of \<^verbatim>\<open>voidOutbox\<close>; a fault ends the loop.\<close>

definition void_front :: "('h, 'q, 's) env \<Rightarrow> error_code \<Rightarrow> ('h, 'q, 's) mq \<Rightarrow> ('h, 'q, 's) mq res" where
  "void_front E ec q =
     (case mOutbox q of
        [] \<Rightarrow> Inr q
      | (b, h) # rest \<Rightarrow> call_handler E h ec (q\<lparr>mOutbox := rest\<rparr>))"

definition voidOutbox :: "('h, 'q, 's) env \<Rightarrow> error_code \<Rightarrow> ('h, 'q, 's) mq \<Rightarrow> ('h, 'q, 's) mq res" where
  "voidOutbox E ec q =
     bindR (loopR (\<lambda>r. case r of Inl e \<Rightarrow> False | Inr q \<Rightarrow> mOutbox q \<noteq> [])
             (\<lambda>r. bindR r (void_front E ec)) (Inr q)) id"

definition writePump :: "('h, 'q, 's) env \<Rightarrow> ('h, 'q, 's) mq \<Rightarrow> ('h, 'q, 's) mq res" where
  "writePump E q =
     (case mOutbox q of
        [] \<Rightarrow> Inr q
      | (b, h) # rest \<Rightarrow>
          if is_open E q then Inr (q\<lparr>pending_writes := pending_writes q @ [b]\<rparr>)
          else voidOutbox E (Asio Network_down) q)"

definition flushWriteBuffer ::
  "('h, 'q, 's) env \<Rightarrow> send_handler \<Rightarrow> ('h, 'q, 's) mq \<Rightarrow> ('h, 'q, 's) mq res" where
  "flushWriteBuffer E h q =
     (if length (mWriteBuffer q) = 0 then call_handler E h No_error q
      else
        (let q = q\<lparr>mOutbox := mOutbox q @ [(mWriteBuffer q, h)], mWriteBuffer := []\<rparr>
         in if length (mOutbox q) = 1 then writePump E q else Inr q))"

text \<open>The first part of the good case of \<^verbatim>\<open>handleWrite\<close>, up to the call of the handler.\<close>

definition handleWrite_done ::
  "('h, 'q, 's) env \<Rightarrow> error_code \<Rightarrow> nat \<Rightarrow> ('h, 'q, 's) mq \<Rightarrow> ('h, 'q, 's) mq res" where
  "handleWrite_done E ec nWritten q =
     (case mOutbox q of
        [] \<Rightarrow> Inl OutOfBounds
      | (b, h) # rest \<Rightarrow>
          assertR (length b = nWritten) (call_handler E h ec (q\<lparr>mOutbox := rest\<rparr>)))"

definition handleWrite ::
  "('h, 'q, 's) env \<Rightarrow> error_code \<Rightarrow> nat \<Rightarrow> ('h, 'q, 's) mq \<Rightarrow> ('h, 'q, 's) mq res" where
  "handleWrite E ec nWritten q =
     (if \<not> failed ec then bindR (handleWrite_done E ec nWritten q) (writePump E)
      else bindR (voidOutbox E ec q)
             (\<lambda>q. Inr (if ec \<noteq> Asio Operation_aborted then mq_close E q else q)))"

section \<open>Calls of the library\<close>

definition addr_writeCallback :: nat where "addr_writeCallback = 6"
definition addr_deliverCallback :: nat where "addr_deliverCallback = 7"

definition writeCallback :: "u8 list \<Rightarrow> ('h, 'q, 's) mq \<Rightarrow> ('h, 'q, 's) mq" where
  "writeCallback octets q = q\<lparr>mWriteBuffer := mWriteBuffer q @ octets\<rparr>"

definition deliverCallback :: "('h, 'q, 's) env \<Rightarrow> u8 list \<Rightarrow> ('h, 'q, 's) mq \<Rightarrow> ('h, 'q, 's) mq" where
  "deliverCallback E bs q = produce E (No_error, bs) q"

text \<open>
  The callbacks of a call of the library, run in their order when it returns: they do not
  touch the library's context.
\<close>

fun mq_callback :: "('h, 'q, 's) env \<Rightarrow> ('h, 'q, 's) mq \<Rightarrow> event \<Rightarrow> ('h, 'q, 's) mq res" where
  "mq_callback E q (Write_call f octets d) =
     (if f = addr_writeCallback \<and> d = Some (mq_address q) then Inr (writeCallback octets q) else Inl NullDeref)"
| "mq_callback E q (Deliver_call f bs d) =
     (if f = addr_deliverCallback \<and> d = Some (mq_address q) then Inr (deliverCallback E bs q) else Inl NullDeref)"
| "mq_callback E q _ = Inl NullDeref"

definition mq_library ::
  "('h, 'q, 's) env \<Rightarrow> ('h sfp \<Rightarrow> 'h sfp res) \<Rightarrow> ('h, 'q, 's) mq \<Rightarrow> ('h, 'q, 's) mq res" where
  "mq_library E f q =
     bindR (f (mqContext q))
     (\<lambda>c. foldR (mq_callback E) (drop (length (trace (mqContext q))) (trace c)) (q\<lparr>mqContext := c\<rparr>))"

definition mq_deliver :: "('h, 'q, 's) env \<Rightarrow> ('h, 'q, 's) mq \<Rightarrow> u8 \<Rightarrow> ('h, 'q, 's) mq res" where
  "mq_deliver E q octet = mq_library E (\<lambda>c. deliver_octet (eR E) c octet) q"

definition handleRead ::
  "('h, 'q, 's) env \<Rightarrow> error_code \<Rightarrow> u8 list \<Rightarrow> ('h, 'q, 's) mq \<Rightarrow> ('h, 'q, 's) mq res" where
  "handleRead E ec octets q =
     (if \<not> failed ec
      then bindR (foldR (mq_deliver E) octets q) (flushWriteBuffer E Pump_flushed)
      else stopReadPump E ec q)"

section \<open>Sending, receiving, keeping alive\<close>

definition asyncSend ::
  "('h, 'q, 's) env \<Rightarrow> u8 list \<Rightarrow> u8 list \<Rightarrow> send_handler \<Rightarrow> ('h, 'q, 's) mq \<Rightarrow> ('h, 'q, 's) mq res" where
  "asyncSend E stack bs h q =
     assertR (mHandshakeComplete q)
     (let (q, ec) = getReadPumpError E q
      in if failed ec then call_handler E h ec q
         else bindR (mq_library E (\<lambda>c. bindR (sfpWritePacket (eR E) c stack bs) (\<lambda>(c, outlen). Inr c)) q)
                (flushWriteBuffer E h))"

definition asyncReceive :: "('h, 'q, 's) env \<Rightarrow> nat \<Rightarrow> nat \<Rightarrow> ('h, 'q, 's) mq \<Rightarrow> ('h, 'q, 's) mq res" where
  "asyncReceive E room h q =
     assertR (mHandshakeComplete q)
     (let (q, ec) = getReadPumpError E q
      in if failed ec then Inr (report_to (Received h ec []) q)
         else Inr (mq_consume E (Receive room h) q))"

definition asyncKeepalive :: "('h, 'q, 's) env \<Rightarrow> nat \<Rightarrow> ('h, 'q, 's) mq \<Rightarrow> ('h, 'q, 's) mq res" where
  "asyncKeepalive E h q =
     assertR (mHandshakeComplete q) (keepalive_operation E keepalive_loop h No_error q)"

definition keepalive_waited ::
  "('h, 'q, 's) env \<Rightarrow> u8 list \<Rightarrow> nat \<Rightarrow> ('h, 'q, 's) mq \<Rightarrow> ('h, 'q, 's) mq res" where
  "keepalive_waited E stack h q = asyncSend E stack [] (Keepalive_sent h) q"

section \<open>The handshake\<close>

text \<open>One round of its loop: give up, or send SYN0 and go on when it has been written.\<close>

definition handshake_attempt ::
  "('h, 'q, 's) env \<Rightarrow> HandshakeOperation \<Rightarrow> ('h, 'q, 's) mq \<Rightarrow> ('h, 'q, 's) mq res" where
  "handshake_attempt E op q =
     (if kSfpMaxHandshakeAttempts \<noteq> 0 \<and> nTries op > kSfpMaxHandshakeAttempts
      then Inr (complete_handshake (op\<lparr>rc := make_error_code HANDSHAKE_FAILED\<rparr>) q)
      else bindR (mq_library E (sfpConnect (eR E)) q)
             (flushWriteBuffer E (Handshake_flushed (op\<lparr>nTries := Suc (nTries op)\<rparr>))))"

definition handshake_begin ::
  "('h, 'q, 's) env \<Rightarrow> HandshakeOperation \<Rightarrow> ('h, 'q, 's) mq \<Rightarrow> ('h, 'q, 's) mq res" where
  "handshake_begin E op q =
     (let q = q\<lparr>mHandshakeComplete := False\<rparr>
      in bindR (voidReceives E (Asio Operation_aborted) q)
         (\<lambda>q. let q = q\<lparr>mWriteBuffer := []\<rparr>;
                  c = sfpInit (mqContext q);
                  c = sfpSetWriteCallback c (Some addr_writeCallback) (Some (mq_address q));
                  c = sfpSetDeliverCallback c (Some addr_deliverCallback) (Some (mq_address q))
              in bindR (startReadPump E (q\<lparr>mqContext := c\<rparr>)) (handshake_attempt E op)))"

definition asyncHandshake :: "('h, 'q, 's) env \<Rightarrow> nat \<Rightarrow> ('h, 'q, 's) mq \<Rightarrow> ('h, 'q, 's) mq res" where
  "asyncHandshake E h q =
     handshake_operation E (handshake_begin E)
       \<lparr>nTries = 0, rc = Asio Operation_aborted, hs_handler = h\<rparr> No_error q"

text \<open>After the wait for the connection, and after the wait for it to settle.\<close>

definition handshake_waited ::
  "('h, 'q, 's) env \<Rightarrow> HandshakeOperation \<Rightarrow> ('h, 'q, 's) mq \<Rightarrow> ('h, 'q, 's) mq res" where
  "handshake_waited E op q =
     (if sfpIsConnected (mqContext q) then Inr (timer_wait (Handshake_settling op) q)
      else handshake_attempt E op q)"

definition handshake_settle ::
  "('h, 'q, 's) env \<Rightarrow> HandshakeOperation \<Rightarrow> ('h, 'q, 's) mq \<Rightarrow> ('h, 'q, 's) mq res" where
  "handshake_settle E op q =
     (if sfpIsConnected (mqContext q)
      then Inr (complete_handshake (op\<lparr>rc := No_error\<rparr>) (q\<lparr>mHandshakeComplete := True\<rparr>))
      else handshake_attempt E op q)"

fun call_timer ::
  "('h, 'q, 's) env \<Rightarrow> u8 list \<Rightarrow> timer_handler \<Rightarrow> error_code \<Rightarrow> ('h, 'q, 's) mq \<Rightarrow> ('h, 'q, 's) mq res" where
  "call_timer E stack (Handshake_connecting op) ec q = handshake_operation E (handshake_waited E) op ec q"
| "call_timer E stack (Handshake_settling op) ec q = handshake_operation E (handshake_settle E) op ec q"
| "call_timer E stack (Keepalive_waiting h) ec q = keepalive_operation E (keepalive_waited E stack) h ec q"

end
