(* ===== verification/Sfp_QueueSafe.thy ===== *)
theory Sfp_QueueSafe
  imports Sfp_Queue "HOL-Library.Multiset"
begin

text \<open>
  The message queue as a machine: calls of the client and completions in any order. In
  every reachable state nothing can go wrong, at most one read and one write are under way,
  and every handler that was handed in is called once or still waiting to be called.
\<close>

section \<open>Handlers as tickets\<close>

datatype ticket = For_send nat | For_receive nat | For_handshake nat | For_keepalive nat

fun send_ticket :: "send_handler \<Rightarrow> ticket multiset" where
  "send_ticket (User_send h) = {#For_send h#}"
| "send_ticket Pump_flushed = {#}"
| "send_ticket (Handshake_flushed op) = {#For_handshake (hs_handler op)#}"
| "send_ticket (Keepalive_sent h) = {#For_keepalive h#}"

fun timer_ticket :: "timer_handler \<Rightarrow> ticket multiset" where
  "timer_ticket (Handshake_connecting op) = {#For_handshake (hs_handler op)#}"
| "timer_ticket (Handshake_settling op) = {#For_handshake (hs_handler op)#}"
| "timer_ticket (Keepalive_waiting h) = {#For_keepalive h#}"

fun consumer_ticket :: "consumer \<Rightarrow> ticket multiset" where
  "consumer_ticket (Receive room h) = {#For_receive h#}"
| "consumer_ticket Discard = {#}"

fun report_ticket :: "report \<Rightarrow> ticket multiset" where
  "report_ticket (Sent h ec) = {#For_send h#}"
| "report_ticket (Received h ec bs) = {#For_receive h#}"
| "report_ticket (Handshaken h ec) = {#For_handshake h#}"
| "report_ticket (Keepalive_ended h ec) = {#For_keepalive h#}"

definition bag :: "('a \<Rightarrow> ticket multiset) \<Rightarrow> 'a list \<Rightarrow> ticket multiset" where
  "bag f xs = sum_list (map f xs)"

lemma bag_simps [simp]:
  "bag f [] = {#}" "bag f (x # xs) = f x + bag f xs" "bag f (xs @ ys) = bag f xs + bag f ys"
  "bag f (map g xs) = bag (f \<circ> g) xs"
  by (simp_all add: bag_def)

lemma bag_cong: "(\<And>x. x \<in> set xs \<Longrightarrow> f x = g x) \<Longrightarrow> bag f xs = bag g xs"
  by (induction xs) simp_all

text \<open>Handlers that are still to be called, and those that have been called.\<close>

definition waiting_handlers :: "('h, 'q, 's) env \<Rightarrow> ('h, 'q, 's) mq \<Rightarrow> ticket multiset" where
  "waiting_handlers E q = bag (send_ticket \<circ> snd) (mOutbox q) + bag (timer_ticket \<circ> fst) (pending_waits q)
     + bag consumer_ticket (pq_consumers (eQ E) (mReceiveQueue q))"

definition called_handlers :: "('h, 'q, 's) mq \<Rightarrow> ticket multiset" where
  "called_handlers q = bag report_ticket (reports q)"

definition tickets :: "('h, 'q, 's) env \<Rightarrow> ('h, 'q, 's) mq \<Rightarrow> ticket multiset" where
  "tickets E q = waiting_handlers E q + called_handlers q"

lemmas tickets_defs = tickets_def waiting_handlers_def called_handlers_def

section \<open>The invariant\<close>

definition mq_callbacks :: "nat \<Rightarrow> (funptr \<times> pointer) list" where
  "mq_callbacks a = [(Some addr_writeCallback, Some a), (None, None), (None, None), (Some addr_deliverCallback, Some a)]"

definition ready :: "('h, 'q, 's) env \<Rightarrow> ('h, 'q, 's) mq \<Rightarrow> bool" where
  "ready E q \<longleftrightarrow> sfp_inv (eR E) (mqContext q) \<and> callbacks (mqContext q) = mq_callbacks (mq_address q)"

text \<open>The read pump waits for a read, for the flush of the library's answers, or does not run.\<close>

definition pumping :: "('h, 'q, 's) mq \<Rightarrow> nat" where
  "pumping q = pending_reads q + length (filter (\<lambda>(b, h). h = Pump_flushed) (mOutbox q))"

definition pump_ok :: "nat \<Rightarrow> ('h, 'q, 's) mq \<Rightarrow> bool" where
  "pump_ok k q \<longleftrightarrow> pumping q + k = (if mReadPumpRunning q then 1 else 0)"

text \<open>A keepalive operation is under way.\<close>

fun is_keepalive_send :: "send_handler \<Rightarrow> bool" where
  "is_keepalive_send (Keepalive_sent h) \<longleftrightarrow> True"
| "is_keepalive_send _ \<longleftrightarrow> False"

fun is_keepalive_wait :: "timer_handler \<Rightarrow> bool" where
  "is_keepalive_wait (Keepalive_waiting h) \<longleftrightarrow> True"
| "is_keepalive_wait _ \<longleftrightarrow> False"

definition keeping :: "('h, 'q, 's) mq \<Rightarrow> bool" where
  "keeping q \<longleftrightarrow> (\<exists>x \<in> set (mOutbox q). is_keepalive_send (snd x)) \<or> (\<exists>x \<in> set (pending_waits q). is_keepalive_wait (fst x))"

definition keeping_ok :: "('h, 'q, 's) mq \<Rightarrow> bool" where
  "keeping_ok q \<longleftrightarrow> (keeping q \<longrightarrow> mHandshakeComplete q)"

text \<open>One write is under way if the outbox is not empty: the one of its front.\<close>

definition front_written :: "('h, 'q, 's) mq \<Rightarrow> bool" where
  "front_written q \<longleftrightarrow> pending_writes q = map fst (take 1 (mOutbox q))"

definition mq_idle :: "('h, 'q, 's) env \<Rightarrow> ('h, 'q, 's) mq \<Rightarrow> bool" where
  "mq_idle E q \<longleftrightarrow> memory_ok (eR E) (mqContext q) \<and> mOutbox q = [] \<and> pending_waits q = [] \<and> pending_writes q = []
     \<and> pending_reads q = 0 \<and> \<not> mReadPumpRunning q \<and> \<not> mHandshakeComplete q"

definition mq_inv :: "('h, 'q, 's) env \<Rightarrow> ('h, 'q, 's) mq \<Rightarrow> bool" where
  "mq_inv E q \<longleftrightarrow> ready E q \<and> pump_ok 0 q \<and> keeping_ok q \<and> front_written q"

text \<open>What the handlers leave alone.\<close>

definition kept :: "('h, 'q, 's) mq \<Rightarrow> ('h, 'q, 's) mq \<Rightarrow> bool" where
  "kept q q' \<longleftrightarrow> mWriteBuffer q' = mWriteBuffer q \<and> mqContext q' = mqContext q
     \<and> mq_address q' = mq_address q \<and> mHandshakeComplete q' = mHandshakeComplete q \<and> pending_writes q' = pending_writes q"

lemma kept_refl [simp]: "kept q q"
  by (simp add: kept_def)

lemma kept_trans: "kept q r \<Longrightarrow> kept r s \<Longrightarrow> kept q s"
  by (simp add: kept_def)

lemma ready_kept: "kept q q' \<Longrightarrow> ready E q' \<longleftrightarrow> ready E q"
  by (simp add: kept_def ready_def)

section \<open>The receive queue\<close>

text \<open>Only the receive queue and the reports change.\<close>

definition receives_only :: "('h, 'q, 's) mq \<Rightarrow> ('h, 'q, 's) mq \<Rightarrow> bool" where
  "receives_only q q' \<longleftrightarrow> q' = q\<lparr>mReceiveQueue := mReceiveQueue q', reports := reports q'\<rparr>"

lemma receives_only_simps:
  assumes "receives_only q q'"
  shows "kept q q'" "mOutbox q' = mOutbox q" "pending_waits q' = pending_waits q" "pending_reads q' = pending_reads q"
    "mReadPumpRunning q' = mReadPumpRunning q" "mReadPumpError q' = mReadPumpError q" "mStream q' = mStream q"
    "pump_ok k q' = pump_ok k q" "keeping q' = keeping q" "keeping_ok q' = keeping_ok q"
    "front_written q' = front_written q" "ready E q' = ready E q" "is_open E q' = is_open E q"
proof -
  obtain rq rs where q': "q' = q\<lparr>mReceiveQueue := rq, reports := rs\<rparr>"
    using assms unfolding receives_only_def by blast
  show "kept q q'" "mOutbox q' = mOutbox q" "pending_waits q' = pending_waits q" "pending_reads q' = pending_reads q"
    "mReadPumpRunning q' = mReadPumpRunning q" "mReadPumpError q' = mReadPumpError q" "mStream q' = mStream q"
    "pump_ok k q' = pump_ok k q" "keeping q' = keeping q" "keeping_ok q' = keeping_ok q"
    "front_written q' = front_written q" "ready E q' = ready E q" "is_open E q' = is_open E q"
    by (simp_all add: q' kept_def pump_ok_def pumping_def keeping_def keeping_ok_def front_written_def ready_def is_open_def)
qed

lemma receives_only_refl [simp]: "receives_only q q"
  by (simp add: receives_only_def)

lemma receives_only_trans: "receives_only q r \<Longrightarrow> receives_only r s \<Longrightarrow> receives_only q s"
  by (cases q; cases r; cases s) (simp add: receives_only_def)

lemma run_consumer_ok:
  "receives_only q (run_consumer k i q) \<and> mReceiveQueue (run_consumer k i q) = mReceiveQueue q
   \<and> called_handlers (run_consumer k i q) = called_handlers q + consumer_ticket k"
  by (cases "(k, i, q)" rule: run_consumer.cases)
    (auto simp: receives_only_def report_to_def called_handlers_def Let_def)

lemma pcqueue_produce:
  assumes "pcqueue_laws Q" and "pq_produce Q q i = (q', c)"
  shows "case pq_consumers Q q of
      [] \<Rightarrow> c = None \<and> pq_items Q q' = pq_items Q q @ [i] \<and> pq_consumers Q q' = []
    | k # ks \<Rightarrow> c = Some k \<and> pq_items Q q' = [] \<and> pq_consumers Q q' = ks"
  using assms unfolding pcqueue_laws_def by (metis (mono_tags, lifting) old.prod.case)

lemma pcqueue_consume:
  assumes "pcqueue_laws Q" and "pq_consume Q q k = (q', i)"
  shows "case pq_items Q q of
      [] \<Rightarrow> i = None \<and> pq_items Q q' = [] \<and> pq_consumers Q q' = pq_consumers Q q @ [k]
    | j # js \<Rightarrow> i = Some j \<and> pq_items Q q' = js \<and> pq_consumers Q q' = []"
  using assms unfolding pcqueue_laws_def by (metis (mono_tags, lifting) old.prod.case)

lemma pcqueue_depth:
  assumes "pcqueue_laws Q"
  shows "pq_depth Q q = int (length (pq_items Q q)) - int (length (pq_consumers Q q))"
    and "pq_items Q q = [] \<or> pq_consumers Q q = []"
  using assms by (simp_all add: pcqueue_laws_def)

abbreviation items :: "('h, 'q, 's) env \<Rightarrow> ('h, 'q, 's) mq \<Rightarrow> item list" where
  "items E q \<equiv> pq_items (eQ E) (mReceiveQueue q)"

abbreviation consumers :: "('h, 'q, 's) env \<Rightarrow> ('h, 'q, 's) mq \<Rightarrow> consumer list" where
  "consumers E q \<equiv> pq_consumers (eQ E) (mReceiveQueue q)"

lemma produce_ok:
  assumes "pcqueue_laws (eQ E)"
  shows "receives_only q (produce E i q) \<and> tickets E (produce E i q) = tickets E q
    \<and> length (consumers E (produce E i q)) = length (consumers E q) - 1
    \<and> (consumers E q \<noteq> [] \<longrightarrow> items E (produce E i q) = [])"
proof -
  obtain rq c where p: "pq_produce (eQ E) (mReceiveQueue q) i = (rq, c)" by (metis surj_pair)
  note law = pcqueue_produce [OF assms p]
  show ?thesis
  proof (cases "consumers E q")
    case Nil
    with law p show ?thesis
      by (simp add: produce_def receives_only_def tickets_defs)
  next
    case (Cons k ks)
    let ?q = "q\<lparr>mReceiveQueue := rq\<rparr>"
    have "produce E i q = run_consumer k i ?q" using law p Cons by (simp add: produce_def)
    moreover note r = run_consumer_ok [of ?q k i]
    moreover have "receives_only q ?q" by (simp add: receives_only_def)
    ultimately have "receives_only q (produce E i q)" using receives_only_trans by metis
    moreover have "tickets E (produce E i q) = tickets E q"
      using r law Cons p receives_only_simps(2,3) [of ?q "run_consumer k i ?q"]
      by (simp add: produce_def tickets_defs)
    ultimately show ?thesis using r law Cons p by (simp add: produce_def)
  qed
qed

lemma consume_ok:
  assumes "pcqueue_laws (eQ E)"
  shows "receives_only q (mq_consume E k q) \<and> tickets E (mq_consume E k q) = tickets E q + consumer_ticket k
    \<and> (items E q \<noteq> [] \<longrightarrow> length (items E (mq_consume E k q)) = length (items E q) - 1 \<and> consumers E (mq_consume E k q) = [])"
proof -
  obtain rq i where p: "pq_consume (eQ E) (mReceiveQueue q) k = (rq, i)" by (metis surj_pair)
  note law = pcqueue_consume [OF assms p]
  show ?thesis
  proof (cases "items E q")
    case Nil
    with law p show ?thesis
      by (simp add: mq_consume_def receives_only_def tickets_defs)
  next
    case (Cons j js)
    let ?q = "q\<lparr>mReceiveQueue := rq\<rparr>"
    have none: "consumers E q = []" using pcqueue_depth(2) [OF assms, of "mReceiveQueue q"] Cons by simp
    have "mq_consume E k q = run_consumer k j ?q" using law p Cons by (simp add: mq_consume_def)
    moreover note r = run_consumer_ok [of ?q k j]
    moreover have "receives_only q ?q" by (simp add: receives_only_def)
    ultimately have "receives_only q (mq_consume E k q)" using receives_only_trans by metis
    moreover have "tickets E (mq_consume E k q) = tickets E q + consumer_ticket k"
      using r law Cons p none receives_only_simps(2,3) [of ?q "run_consumer k j ?q"]
      by (simp add: mq_consume_def tickets_defs)
    ultimately show ?thesis using r law Cons p by (simp add: mq_consume_def)
  qed
qed

lemma loopR_ok:
  fixes m :: "'a \<Rightarrow> nat"
  assumes "P x" and "\<And>x. P x \<Longrightarrow> going x \<Longrightarrow> P (f x) \<and> m (f x) < m x"
  shows "\<exists>y. loopR going f x = Inr y \<and> P y \<and> \<not> going y"
proof -
  have "\<exists>y. while_option going f x = Some y"
    by (rule measure_while_option_Some [where P = P and f = m]) (use assms in auto)
  then obtain y where y: "while_option going f x = Some y" ..
  have "P y" by (rule while_option_rule [where P = P, OF _ y]) (use assms in auto)
  with y while_option_stop [OF y] show ?thesis by (simp add: loopR_def)
qed

lemma voidReceives_ok:
  assumes "pcqueue_laws (eQ E)"
  shows "\<exists>q'. voidReceives E ec q = Inr q' \<and> receives_only q q' \<and> tickets E q' = tickets E q
    \<and> items E q' = [] \<and> consumers E q' = []"
proof -
  have d: "depth E r = int (length (items E r)) - int (length (consumers E r))" for r
    by (simp add: depth_def pcqueue_depth(1) [OF assms])
  have e: "items E r = [] \<or> consumers E r = []" for r
    using pcqueue_depth(2) [OF assms] .
  let ?P = "\<lambda>r. receives_only q r \<and> tickets E r = tickets E q"
  have "\<exists>r. loopR (\<lambda>q. depth E q < 0) (produce E (ec, [])) q = Inr r \<and> ?P r \<and> \<not> depth E r < 0"
  proof (rule loopR_ok [where m = "\<lambda>r. length (consumers E r)"])
    fix r assume "?P r" and neg: "depth E r < 0"
    moreover have "consumers E r \<noteq> []" using neg d [of r] e [of r] by auto
    ultimately show "?P (produce E (ec, []) r) \<and> length (consumers E (produce E (ec, []) r)) < length (consumers E r)"
      using produce_ok [OF assms, of r "(ec, [])"] receives_only_trans by (auto simp: diff_Suc_less)
  qed simp
  then obtain r where r: "loopR (\<lambda>q. depth E q < 0) (produce E (ec, [])) q = Inr r" "?P r" "\<not> depth E r < 0" by blast
  let ?P' = "\<lambda>s. ?P s \<and> consumers E s = []"
  have "consumers E r = []" using r(3) d [of r] e [of r] by auto
  then have "\<exists>s. loopR (\<lambda>q. 0 < depth E q) (mq_consume E Discard) r = Inr s \<and> ?P' s \<and> \<not> 0 < depth E s"
    using r(2)
  proof (intro loopR_ok [where m = "\<lambda>s. length (items E s)"])
    fix s assume P: "?P' s" and pos: "0 < depth E s"
    moreover have "items E s \<noteq> []" using pos d [of s] by auto
    ultimately show "?P' (mq_consume E Discard s) \<and> length (items E (mq_consume E Discard s)) < length (items E s)"
      using consume_ok [OF assms, of s Discard] receives_only_trans by (auto simp: diff_Suc_less)
  qed simp
  then obtain s where s: "loopR (\<lambda>q. 0 < depth E q) (mq_consume E Discard) r = Inr s" "?P' s" "\<not> 0 < depth E s" by blast
  moreover have "items E s = []" using s(3) d [of s] s(2) by simp
  ultimately show ?thesis using r(1) by (auto simp: voidReceives_def)
qed

section \<open>Timer, pumps and operations\<close>

text \<open>
  What a called handler does: nothing goes wrong; the outbox and the rest of \<open>kept\<close> stay;
  the pump is consistent again; a keepalive operation goes on only if one was under way.
\<close>

definition handled :: "('h, 'q, 's) env \<Rightarrow> ticket multiset \<Rightarrow> ('h, 'q, 's) mq \<Rightarrow> ('h, 'q, 's) mq \<Rightarrow> bool" where
  "handled E t q q' \<longleftrightarrow> kept q q' \<and> mOutbox q' = mOutbox q \<and> pump_ok 0 q' \<and> keeping_ok q'
     \<and> tickets E q' = tickets E q + t"

lemma comp_fst_flag [simp]:
  "timer_ticket \<circ> fst \<circ> (\<lambda>(t, c). (t, True)) = timer_ticket \<circ> fst"
  "fst (case x of (t, c) \<Rightarrow> (t, True)) = fst x"
  by (auto simp: fun_eq_iff split: prod.split)

lemma timer_cancel_simps [simp]:
  "kept q (timer_cancel q)" "mOutbox (timer_cancel q) = mOutbox q" "pump_ok k (timer_cancel q) = pump_ok k q"
  "keeping (timer_cancel q) = keeping q" "tickets E (timer_cancel q) = tickets E q"
  "mHandshakeComplete (timer_cancel q) = mHandshakeComplete q"
  by (simp_all add: timer_cancel_def kept_def pump_ok_def pumping_def keeping_def tickets_defs)

lemma timer_wait_ok:
  assumes "pump_ok 0 q" and "keeping_ok q" and "is_keepalive_wait t \<Longrightarrow> mHandshakeComplete q"
  shows "handled E (timer_ticket t) q (timer_wait t q)"
proof -
  have "keeping (timer_wait t q) \<Longrightarrow> keeping q \<or> is_keepalive_wait t"
    by (force simp: timer_wait_def timer_cancel_def keeping_def Let_def)
  with assms show ?thesis
    by (auto simp: handled_def timer_wait_def Let_def timer_cancel_def kept_def pump_ok_def pumping_def
        keeping_ok_def tickets_defs)
qed

lemma mq_close_simps [simp]:
  "kept q (mq_close E q)" "mOutbox (mq_close E q) = mOutbox q" "pump_ok k (mq_close E q) = pump_ok k q"
  "keeping (mq_close E q) = keeping q" "tickets E (mq_close E q) = tickets E q"
  "mHandshakeComplete (mq_close E q) = mHandshakeComplete q"
  by (simp_all add: mq_close_def Let_def timer_cancel_def kept_def pump_ok_def pumping_def keeping_def tickets_defs)

lemma getReadPumpError_eq: "fst (getReadPumpError E q) = q\<lparr>mReadPumpError := No_error\<rparr>"
  by (simp add: getReadPumpError_def Let_def)

lemma pump_error_simps [simp]:
  "kept q (q\<lparr>mReadPumpError := e\<rparr>)" "pump_ok k (q\<lparr>mReadPumpError := e\<rparr>) = pump_ok k q"
  "keeping (q\<lparr>mReadPumpError := e\<rparr>) = keeping q" "tickets E (q\<lparr>mReadPumpError := e\<rparr>) = tickets E q"
  "front_written (q\<lparr>mReadPumpError := e\<rparr>) = front_written q" "ready E (q\<lparr>mReadPumpError := e\<rparr>) = ready E q"
  by (simp_all add: kept_def pump_ok_def pumping_def keeping_def tickets_defs front_written_def ready_def)

lemma report_to_simps [simp]:
  "kept q (report_to r q)" "mOutbox (report_to r q) = mOutbox q" "pump_ok k (report_to r q) = pump_ok k q"
  "keeping (report_to r q) = keeping q" "tickets E (report_to r q) = tickets E q + report_ticket r"
  "mHandshakeComplete (report_to r q) = mHandshakeComplete q"
  by (simp_all add: report_to_def kept_def pump_ok_def pumping_def keeping_def tickets_defs)

lemma handled_report:
  "pump_ok 0 q \<Longrightarrow> keeping_ok q \<Longrightarrow> handled E (report_ticket r) q (report_to r q)"
  by (auto simp: handled_def keeping_ok_def)

lemma handled_after:
  "kept q r \<Longrightarrow> mOutbox r = mOutbox q \<Longrightarrow> tickets E r = tickets E q \<Longrightarrow> handled E t r s \<Longrightarrow> handled E t q s"
  by (auto simp: handled_def intro: kept_trans)

lemma stopReadPump_ok:
  assumes "pcqueue_laws (eQ E)" and "pumping q = 0" and "keeping_ok q"
  shows "\<exists>q'. stopReadPump E ec q = Inr q' \<and> handled E {#} q q'"
proof -
  obtain q1 where q1: "voidReceives E ec q = Inr q1" "receives_only q q1" "tickets E q1 = tickets E q"
    using voidReceives_ok [OF assms(1)] by blast
  let ?q2 = "if ec \<noteq> Asio Operation_aborted then mq_close E q1 else q1"
  let ?q' = "?q2\<lparr>mReadPumpRunning := False, mReadPumpError := ec\<rparr>"
  have "stopReadPump E ec q = Inr ?q'" by (simp add: stopReadPump_def q1(1) Let_def)
  moreover have "kept q ?q'" "mOutbox ?q' = mOutbox q" "keeping ?q' = keeping q" "mHandshakeComplete ?q' = mHandshakeComplete q"
    "tickets E ?q' = tickets E q"
    using receives_only_simps(1,2,9) [OF q1(2)] q1(3)
    by (simp_all add: kept_def mq_close_def Let_def timer_cancel_def keeping_def tickets_defs)
  moreover have "pumping ?q' = pumping q"
    using receives_only_simps(2,4) [OF q1(2)] by (simp add: pumping_def mq_close_def Let_def timer_cancel_def)
  ultimately show ?thesis
    using assms(2,3) by (auto simp: handled_def pump_ok_def keeping_ok_def)
qed

lemma readPump_ok:
  assumes "pcqueue_laws (eQ E)" and "pumping q = 0" and "mReadPumpRunning q" and "keeping_ok q"
  shows "\<exists>q'. readPump E q = Inr q' \<and> handled E {#} q q'"
proof (cases "is_open E q")
  case True
  then show ?thesis
    using assms(2-4)
    by (auto simp: readPump_def handled_def kept_def pump_ok_def pumping_def keeping_ok_def keeping_def tickets_defs)
next
  case False
  obtain q1 where q1: "voidReceives E (Asio Network_down) q = Inr q1" "receives_only q q1" "tickets E q1 = tickets E q"
    using voidReceives_ok [OF assms(1)] by blast
  let ?q' = "q1\<lparr>mReadPumpRunning := False, mReadPumpError := Asio Network_down\<rparr>"
  have "kept q ?q'" "mOutbox ?q' = mOutbox q" "keeping ?q' = keeping q" "mHandshakeComplete ?q' = mHandshakeComplete q"
    "tickets E ?q' = tickets E q" "pumping ?q' = pumping q"
    using receives_only_simps(1,2,4,9) [OF q1(2)] q1(3)
    by (simp_all add: kept_def keeping_def tickets_defs pumping_def)
  with False assms(2,4) q1(1) show ?thesis
    by (auto simp: readPump_def handled_def pump_ok_def keeping_ok_def)
qed

text \<open>An operation goes on with its stretch, or completes.\<close>

lemma resume_code_cases:
  "resume_code E ec q = (r, ec') \<Longrightarrow> r = q \<or> r = q\<lparr>mReadPumpError := No_error\<rparr>"
  by (auto simp: resume_code_def getReadPumpError_def Let_def split: if_splits)

lemma handled_resumed:
  "r = q \<or> r = q\<lparr>mReadPumpError := No_error\<rparr> \<Longrightarrow> handled E t r s \<Longrightarrow> handled E t q s"
  by (auto elim: handled_after [rotated -1])

lemma resumed_ok:
  "r = q \<or> r = q\<lparr>mReadPumpError := No_error\<rparr> \<Longrightarrow> pump_ok k q \<Longrightarrow> keeping_ok q \<Longrightarrow> pump_ok k r \<and> keeping_ok r"
  by (auto simp: keeping_ok_def)

text \<open>Neither the outbox nor the waits change, but for cancellation.\<close>

definition same_waits :: "('h, 'q, 's) mq \<Rightarrow> ('h, 'q, 's) mq \<Rightarrow> bool" where
  "same_waits q q' \<longleftrightarrow> mOutbox q' = mOutbox q \<and> map fst (pending_waits q') = map fst (pending_waits q)"

lemma same_waits_refl [simp]: "same_waits q q"
  by (simp add: same_waits_def)

lemma same_waits_trans: "same_waits q r \<Longrightarrow> same_waits r s \<Longrightarrow> same_waits q s"
  by (simp add: same_waits_def)

lemma fst_cancelled [simp]: "fst \<circ> (\<lambda>(t, c). (t, True)) = fst"
  by (simp add: fun_eq_iff)

lemma same_waits_simps [simp]:
  "same_waits q (timer_cancel r) = same_waits q r" "same_waits q (mq_close E r) = same_waits q r"
  "same_waits q (report_to p r) = same_waits q r" "same_waits q (r\<lparr>mReadPumpError := e\<rparr>) = same_waits q r"
  "same_waits q (r\<lparr>mReadPumpRunning := b, mReadPumpError := e\<rparr>) = same_waits q r"
  "same_waits q (r\<lparr>mReadPumpRunning := b\<rparr>) = same_waits q r"
  "same_waits q (r\<lparr>pending_reads := n\<rparr>) = same_waits q r" "same_waits q (r\<lparr>pending_writes := ws\<rparr>) = same_waits q r"
  "same_waits q (r\<lparr>mqContext := c\<rparr>) = same_waits q r" "same_waits q (r\<lparr>mHandshakeComplete := b\<rparr>) = same_waits q r"
  "same_waits q (r\<lparr>mWriteBuffer := xs, mqContext := c\<rparr>) = same_waits q r"
  "same_waits q (r\<lparr>mReceiveQueue := rq\<rparr>) = same_waits q r" "same_waits q (r\<lparr>mWriteBuffer := xs\<rparr>) = same_waits q r"
  by (auto simp: same_waits_def timer_cancel_def mq_close_def Let_def report_to_def)

text \<open>
  What the handshake and the keepalive operation have in common: when they are resumed they
  go on with the next stretch, or complete, which calls the client's handler.
\<close>

locale resumed_operation =
  fixes operation :: "('h, 'q, 's) env \<Rightarrow> ('op \<Rightarrow> ('h, 'q, 's) mq \<Rightarrow> ('h, 'q, 's) mq res)
      \<Rightarrow> 'op \<Rightarrow> error_code \<Rightarrow> ('h, 'q, 's) mq \<Rightarrow> ('h, 'q, 's) mq res"
    and ticket :: "'op \<Rightarrow> ticket multiset"
  assumes goes_on: "resume_code E ec q = (r, ec') \<Longrightarrow> \<not> failed ec' \<Longrightarrow> operation E stretch op ec q = stretch op r"
    and completes: "resume_code E ec q = (r, ec') \<Longrightarrow> failed ec' \<Longrightarrow>
      \<exists>s. operation E stretch op ec q = Inr s \<and> same_waits r s
        \<and> (pump_ok 0 r \<and> keeping_ok r \<longrightarrow> handled E (ticket op) r s)"
begin

lemma operation_ok:
  assumes "pump_ok 0 q" and "keeping_ok q"
    and stretch: "\<And>r. r = q \<or> r = q\<lparr>mReadPumpError := No_error\<rparr> \<Longrightarrow> \<exists>s. stretch op r = Inr s \<and> P s"
    and fin: "\<And>s. handled E (ticket op) q s \<Longrightarrow> P s"
  shows "\<exists>s. operation E stretch op ec q = Inr s \<and> P s"
proof -
  obtain r ec' where r: "resume_code E ec q = (r, ec')" by (metis surj_pair)
  have r_eq: "r = q \<or> r = q\<lparr>mReadPumpError := No_error\<rparr>"
    using r by (rule resume_code_cases)
  show ?thesis
  proof (cases "failed ec'")
    case False
    with stretch [OF r_eq] goes_on [OF r] show ?thesis by simp
  next
    case True
    from completes [OF r True, of stretch op] resumed_ok [OF r_eq assms(1,2)] obtain s where
      "operation E stretch op ec q = Inr s" "handled E (ticket op) r s" by blast
    with fin handled_resumed [OF r_eq] show ?thesis by blast
  qed
qed

end

interpretation hs: resumed_operation handshake_operation "\<lambda>op. {#For_handshake (hs_handler op)#}"
proof
  fix E :: "('h, 'q, 's) env" and ec ec' stretch op and q r :: "('h, 'q, 's) mq"
  assume r: "resume_code E ec q = (r, ec')"
  show "handshake_operation E stretch op ec q = stretch op r" if "\<not> failed ec'"
    using r that by (simp add: handshake_operation_def)
  assume f: "failed ec'"
  let ?s = "if ec' \<noteq> Asio Operation_aborted then complete_handshake (op\<lparr>rc := ec'\<rparr>) (mq_close E r) else complete_handshake op r"
  have "handshake_operation E stretch op ec q = Inr ?s"
    using r f by (simp add: handshake_operation_def)
  moreover have "same_waits r ?s" by (simp add: complete_handshake_def)
  moreover have "handled E {#For_handshake (hs_handler op)#} r ?s" if "pump_ok 0 r \<and> keeping_ok r"
    using that by (auto simp: complete_handshake_def handled_def keeping_ok_def
        intro: kept_trans [OF mq_close_simps(1) report_to_simps(1)])
  ultimately show "\<exists>s. handshake_operation E stretch op ec q = Inr s \<and> same_waits r s
      \<and> (pump_ok 0 r \<and> keeping_ok r \<longrightarrow> handled E {#For_handshake (hs_handler op)#} r s)" by blast
qed

interpretation ka: resumed_operation keepalive_operation "\<lambda>h. {#For_keepalive h#}"
proof
  fix E :: "('h, 'q, 's) env" and ec ec' stretch h and q r :: "('h, 'q, 's) mq"
  assume r: "resume_code E ec q = (r, ec')"
  show "keepalive_operation E stretch h ec q = stretch h r" if "\<not> failed ec'"
    using r that by (simp add: keepalive_operation_def)
  show "\<exists>s. keepalive_operation E stretch h ec q = Inr s \<and> same_waits r s
      \<and> (pump_ok 0 r \<and> keeping_ok r \<longrightarrow> handled E {#For_keepalive h#} r s)" if "failed ec'"
    using r that handled_report [of r E "Keepalive_ended h ec'"] by (simp add: keepalive_operation_def)
qed

section \<open>Calling a handler\<close>

lemma call_handler_ok:
  assumes laws: "pcqueue_laws (eQ E)" and "pump_ok (if h = Pump_flushed then 1 else 0) q" and "keeping_ok q"
    and "is_keepalive_send h \<Longrightarrow> mHandshakeComplete q"
  shows "\<exists>q'. call_handler E h ec q = Inr q' \<and> handled E (send_ticket h) q q'"
proof (cases h)
  case (User_send n)
  with assms handled_report [of q E "Sent n ec"] show ?thesis by simp
next
  case Pump_flushed
  then have "pumping q = 0" "mReadPumpRunning q"
    using assms(2) by (auto simp: pump_ok_def split: if_splits)
  with Pump_flushed stopReadPump_ok [OF laws] readPump_ok [OF laws] assms(3) show ?thesis by simp
next
  case (Handshake_flushed op)
  have ok: "pump_ok 0 q" using assms(2) Handshake_flushed by simp
  have "\<exists>s. handshake_flushed op r = Inr s \<and> handled E {#For_handshake (hs_handler op)#} q s"
    if r: "r = q \<or> r = q\<lparr>mReadPumpError := No_error\<rparr>" for r
    using resumed_ok [OF r ok assms(3)] handled_resumed [OF r] timer_wait_ok [of r "Handshake_connecting op" E]
      timer_wait_ok [of r "Handshake_settling op" E]
    by (simp add: handshake_flushed_def)
  with hs.operation_ok [where P = "handled E {#For_handshake (hs_handler op)#} q" and stretch = handshake_flushed,
      OF ok assms(3) this] Handshake_flushed show ?thesis by simp
next
  case (Keepalive_sent n)
  have ok: "pump_ok 0 q" "mHandshakeComplete q" using assms(2,4) Keepalive_sent by simp_all
  have "\<exists>s. keepalive_loop n r = Inr s \<and> handled E {#For_keepalive n#} q s"
    if r: "r = q \<or> r = q\<lparr>mReadPumpError := No_error\<rparr>" for r
  proof -
    have "mHandshakeComplete r" using r ok(2) by auto
    with resumed_ok [OF r ok(1) assms(3)] handled_resumed [OF r] timer_wait_ok [of r "Keepalive_waiting n" E]
    show ?thesis by (simp add: keepalive_loop_def)
  qed
  with ka.operation_ok [where P = "handled E {#For_keepalive n#} q" and stretch = keepalive_loop,
      OF ok(1) assms(3) this] Keepalive_sent show ?thesis by simp
qed

section \<open>The outbox\<close>

lemma tickets_outbox:
  "mOutbox q = xs @ ys \<Longrightarrow> tickets E q = tickets E (q\<lparr>mOutbox := ys\<rparr>) + bag (send_ticket \<circ> snd) xs"
  by (simp add: tickets_defs)

lemma pump_front:
  assumes "mOutbox q = (b, h) # rest"
  shows "pump_ok (if h = Pump_flushed then 1 else 0) (q\<lparr>mOutbox := rest\<rparr>) = pump_ok 0 q"
  using assms by (auto simp: pump_ok_def pumping_def)

lemma keeping_front:
  assumes "mOutbox q = (b, h) # rest" and "keeping_ok q"
  shows "keeping_ok (q\<lparr>mOutbox := rest\<rparr>)" and "is_keepalive_send h \<Longrightarrow> mHandshakeComplete q"
  using assms by (auto simp: keeping_ok_def keeping_def)

lemma front_handled:
  assumes "pcqueue_laws (eQ E)" and "mOutbox q = (b, h) # rest" and "pump_ok 0 q" and "keeping_ok q"
  shows "\<exists>q'. call_handler E h ec (q\<lparr>mOutbox := rest\<rparr>) = Inr q' \<and> kept q q' \<and> mOutbox q' = rest
    \<and> pump_ok 0 q' \<and> keeping_ok q' \<and> tickets E q' = tickets E q"
proof -
  have "kept q (q\<lparr>mOutbox := rest\<rparr>)" by (simp add: kept_def)
  with call_handler_ok [OF assms(1), of h "q\<lparr>mOutbox := rest\<rparr>" ec]
    pump_front [OF assms(2)] keeping_front [OF assms(2,4)] assms(2,3) tickets_outbox [of q "[(b, h)]" rest E]
  show ?thesis by (auto simp: handled_def intro: kept_trans)
qed

lemma voidOutbox_ok:
  fixes E :: "('h, 'q, 's) env" and q :: "('h, 'q, 's) mq"
  assumes "pcqueue_laws (eQ E)" and "pump_ok 0 q" and "keeping_ok q"
  shows "\<exists>q'. voidOutbox E ec q = Inr q' \<and> kept q q' \<and> mOutbox q' = [] \<and> pump_ok 0 q' \<and> keeping_ok q'
    \<and> tickets E q' = tickets E q"
proof -
  let ?P = "\<lambda>r. \<exists>s. r = Inr s \<and> kept q s \<and> pump_ok 0 s \<and> keeping_ok s \<and> tickets E s = tickets E q"
  let ?going = "\<lambda>r :: ('h, 'q, 's) mq res. case r of Inl e \<Rightarrow> False | Inr q \<Rightarrow> mOutbox q \<noteq> []"
  have "\<exists>r. loopR ?going (\<lambda>r. bindR r (void_front E ec)) (Inr q) = Inr r \<and> ?P r \<and> \<not> ?going r"
  proof (rule loopR_ok [where m = "\<lambda>r. case r of Inl e \<Rightarrow> 0 | Inr s \<Rightarrow> length (mOutbox s)"])
    show "?P (Inr q)" using assms by auto
    fix r :: "('h, 'q, 's) mq res" assume "?P r" and "?going r"
    then obtain s b h rest where s: "r = Inr s" "kept q s" "pump_ok 0 s" "keeping_ok s" "tickets E s = tickets E q"
      "mOutbox s = (b, h) # rest" by (auto simp: neq_Nil_conv)
    obtain s' where s': "call_handler E h ec (s\<lparr>mOutbox := rest\<rparr>) = Inr s'" "kept s s'" "mOutbox s' = rest"
      "pump_ok 0 s'" "keeping_ok s'" "tickets E s' = tickets E s"
      using front_handled [OF assms(1) s(6,3,4)] by blast
    then show "?P (bindR r (void_front E ec)) \<and> (case bindR r (void_front E ec) of Inl e \<Rightarrow> 0 | Inr s \<Rightarrow> length (mOutbox s))
        < (case r of Inl e \<Rightarrow> 0 | Inr s \<Rightarrow> length (mOutbox s))"
      using s kept_trans [OF s(2) s'(2)] by (simp add: void_front_def)
  qed
  then show ?thesis by (auto simp: voidOutbox_def)
qed

lemma kept_writes: "kept q q' \<Longrightarrow> pending_writes q' = pending_writes q"
  by (simp add: kept_def)

text \<open>The invariant but for the readiness of the context, which nothing below touches.\<close>

definition pumps_ok :: "('h, 'q, 's) mq \<Rightarrow> bool" where
  "pumps_ok q \<longleftrightarrow> pump_ok 0 q \<and> keeping_ok q \<and> front_written q"

definition same_context :: "('h, 'q, 's) mq \<Rightarrow> ('h, 'q, 's) mq \<Rightarrow> bool" where
  "same_context q q' \<longleftrightarrow> mqContext q' = mqContext q \<and> mq_address q' = mq_address q
     \<and> mHandshakeComplete q' = mHandshakeComplete q"

lemma kept_context: "kept q q' \<Longrightarrow> same_context q q'"
  by (simp add: kept_def same_context_def)

lemma writePump_ok:
  assumes "pcqueue_laws (eQ E)" and "pump_ok 0 q" and "keeping_ok q" and "pending_writes q = []"
  shows "\<exists>q'. writePump E q = Inr q' \<and> same_context q q' \<and> mWriteBuffer q' = mWriteBuffer q \<and> pumps_ok q'
    \<and> tickets E q' = tickets E q"
proof (cases "mOutbox q")
  case Nil
  with assms show ?thesis by (simp add: writePump_def pumps_ok_def front_written_def same_context_def)
next
  case (Cons x rest)
  obtain b h where x: "x = (b, h)" by (cases x)
  show ?thesis
  proof (cases "is_open E q")
    case True
    then show ?thesis
      using assms Cons x
      by (auto simp: writePump_def pumps_ok_def front_written_def pump_ok_def pumping_def keeping_ok_def keeping_def
          tickets_defs same_context_def)
  next
    case False
    from voidOutbox_ok [OF assms(1-3)] obtain q' where q': "voidOutbox E (Asio Network_down) q = Inr q'" "kept q q'"
      "mOutbox q' = []" "pump_ok 0 q'" "keeping_ok q'" "tickets E q' = tickets E q" by blast
    have "mWriteBuffer q' = mWriteBuffer q" using q'(2) by (simp add: kept_def)
    with False Cons x q' assms(4) kept_writes [OF q'(2)] kept_context [OF q'(2)] show ?thesis
      by (simp add: writePump_def pumps_ok_def front_written_def)
  qed
qed

lemma flushWriteBuffer_ok:
  assumes laws: "pcqueue_laws (eQ E)" and "pump_ok (if h = Pump_flushed then 1 else 0) q" and "keeping_ok q"
    and "front_written q" and "is_keepalive_send h \<Longrightarrow> mHandshakeComplete q"
  shows "\<exists>q'. flushWriteBuffer E h q = Inr q' \<and> same_context q q' \<and> pumps_ok q' \<and> tickets E q' = tickets E q + send_ticket h"
proof (cases "mWriteBuffer q = []")
  case True
  from call_handler_ok [OF laws assms(2,3,5), of No_error]
  obtain q' where q': "call_handler E h No_error q = Inr q'" "handled E (send_ticket h) q q'" by blast
  then have "front_written q'" using assms(4) kept_writes [of q q'] by (simp add: handled_def front_written_def)
  with True q' kept_context show ?thesis by (auto simp: flushWriteBuffer_def handled_def pumps_ok_def)
next
  case False
  let ?q = "q\<lparr>mOutbox := mOutbox q @ [(mWriteBuffer q, h)], mWriteBuffer := []\<rparr>"
  have ok: "pump_ok 0 ?q" "keeping_ok ?q" "tickets E ?q = tickets E q + send_ticket h" "same_context q ?q"
    using assms(2,3,5)
    by (auto simp: pump_ok_def pumping_def keeping_ok_def keeping_def tickets_defs same_context_def split: if_splits)
  show ?thesis
  proof (cases "mOutbox q = []")
    case True
    then have "pending_writes ?q = []" using assms(4) by (simp add: front_written_def)
    with writePump_ok [OF laws ok(1,2)] ok(3,4) False True show ?thesis
      by (auto simp: flushWriteBuffer_def same_context_def)
  next
    case nonempty: False
    then have "front_written ?q" using assms(4) by (cases "mOutbox q") (simp_all add: front_written_def)
    with False nonempty ok show ?thesis by (auto simp: flushWriteBuffer_def pumps_ok_def)
  qed
qed

section \<open>Calls of the library\<close>

definition only_library :: "('h, 'q, 's) env \<Rightarrow> ('h, 'q, 's) mq \<Rightarrow> ('h, 'q, 's) mq \<Rightarrow> bool" where
  "only_library E q q' \<longleftrightarrow>
     q' = q\<lparr>mReceiveQueue := mReceiveQueue q', reports := reports q', mWriteBuffer := mWriteBuffer q', mqContext := mqContext q'\<rparr>
     \<and> tickets E q' = tickets E q"

lemma only_library_refl [simp]: "only_library E q q"
  by (simp add: only_library_def)

lemma only_library_trans: "only_library E q r \<Longrightarrow> only_library E r s \<Longrightarrow> only_library E q s"
  by (cases q; cases r; cases s) (simp add: only_library_def)

lemma only_library_simps:
  assumes "only_library E q q'"
  shows "mq_address q' = mq_address q" "mHandshakeComplete q' = mHandshakeComplete q" "tickets E q' = tickets E q"
    "pump_ok k q' = pump_ok k q" "keeping_ok q' = keeping_ok q" "front_written q' = front_written q"
    "mOutbox q' = mOutbox q" "pending_writes q' = pending_writes q" "is_open E q' = is_open E q"
proof -
  obtain a b c d where q': "q' = q\<lparr>mReceiveQueue := a, reports := b, mWriteBuffer := c, mqContext := d\<rparr>"
    using assms unfolding only_library_def by blast
  show "mq_address q' = mq_address q" "mHandshakeComplete q' = mHandshakeComplete q" "tickets E q' = tickets E q"
    "pump_ok k q' = pump_ok k q" "keeping_ok q' = keeping_ok q" "front_written q' = front_written q"
    "mOutbox q' = mOutbox q" "pending_writes q' = pending_writes q" "is_open E q' = is_open E q"
    using assms unfolding only_library_def
    by (simp_all add: q' pump_ok_def pumping_def keeping_ok_def keeping_def front_written_def is_open_def)
qed

lemma produce_library:
  assumes "pcqueue_laws (eQ E)"
  shows "only_library E q (produce E i q) \<and> mWriteBuffer (produce E i q) = mWriteBuffer q
    \<and> mqContext (produce E i q) = mqContext q"
proof -
  have "receives_only q (produce E i q)" "tickets E (produce E i q) = tickets E q"
    using produce_ok [OF assms] by blast+
  then show ?thesis by (cases "produce E i q"; cases q) (simp add: receives_only_def only_library_def)
qed

lemma callbacks_library:
  assumes "pcqueue_laws (eQ E)" and "callbacks c = mq_callbacks (mq_address q)" and "\<forall>ev \<in> set es. own_call c ev"
  shows "\<exists>q'. foldR (mq_callback E) es q = Inr q' \<and> only_library E q q' \<and> mqContext q' = mqContext q
    \<and> mWriteBuffer q' = mWriteBuffer q @ out_octets es"
  using assms(2,3)
proof (induction es arbitrary: q)
  case (Cons ev es)
  obtain q1 where q1: "mq_callback E q ev = Inr q1" "only_library E q q1" "mqContext q1 = mqContext q"
    "mWriteBuffer q1 = mWriteBuffer q @ event_octets ev"
  proof (cases ev)
    case (Write_call f bs d)
    with Cons.prems show ?thesis
      by (intro that [of "writeCallback bs q"])
        (auto simp: callbacks_def mq_callbacks_def writeCallback_def only_library_def tickets_defs)
  next
    case (Deliver_call f bs d)
    with Cons.prems produce_library [OF assms(1), of q "(No_error, bs)"] show ?thesis
      by (intro that [of "deliverCallback E bs q"])
        (auto simp: callbacks_def mq_callbacks_def deliverCallback_def)
  qed (use Cons.prems in \<open>auto simp: callbacks_def mq_callbacks_def sfpIsTransmitterLockable_def\<close>)
  from Cons.IH [of q1] Cons.prems only_library_simps(1) [OF q1(2)] obtain q' where
    "foldR (mq_callback E) es q1 = Inr q'" "only_library E q1 q'" "mqContext q' = mqContext q1"
    "mWriteBuffer q' = mWriteBuffer q1 @ out_octets es" by auto
  with q1 only_library_trans [OF q1(2)] show ?case by auto
qed simp

lemma mq_library_ok:
  assumes "pcqueue_laws (eQ E)" and "ready E q" and "f (mqContext q) = Inr c'"
    and r: "reacts (eR E) (mqContext q) c' e fs ds" and "sfp_inv (eR E) c'"
  shows "\<exists>q'. mq_library E f q = Inr q' \<and> only_library E q q' \<and> ready E q' \<and> mqContext q' = c'
    \<and> mWriteBuffer q' = mWriteBuffer q @ wire fs"
proof -
  obtain es where es: "trace c' = trace (mqContext q) @ es" "\<forall>ev \<in> set es. own_call (mqContext q) ev"
    "out_octets es = wire fs" using reacts_trace [OF r] by blast
  have cb: "callbacks (mqContext q) = mq_callbacks (mq_address q)" using assms(2) by (simp add: ready_def)
  obtain q' where q': "foldR (mq_callback E) es (q\<lparr>mqContext := c'\<rparr>) = Inr q'"
    "only_library E (q\<lparr>mqContext := c'\<rparr>) q'" "mqContext q' = c'" "mWriteBuffer q' = mWriteBuffer q @ wire fs"
    using callbacks_library [OF assms(1), of "mqContext q" "q\<lparr>mqContext := c'\<rparr>" es] cb es(2,3) by auto
  have "only_library E q (q\<lparr>mqContext := c'\<rparr>)" by (simp add: only_library_def tickets_defs)
  then have l: "only_library E q q'" using only_library_trans q'(2) by blast
  have "ready E q'"
    using q'(3) assms(5) cb reacts_seen(4) [OF r] only_library_simps(1) [OF l] by (simp add: ready_def)
  with q' l es(1) assms(3) show ?thesis by (auto simp: mq_library_def)
qed

lemma mq_deliver_ok:
  assumes "pcqueue_laws (eQ E)" and "ready E q"
  shows "\<exists>q'. mq_deliver E q x = Inr q' \<and> only_library E q q' \<and> ready E q'"
proof -
  have inv: "sfp_inv (eR E) (mqContext q)" using assms(2) by (simp add: ready_def)
  obtain a fs ds where o: "on_octet (abs_sfp (eR E) (mqContext q)) x = (a, fs, ds)" by (metis prod_cases3)
  obtain c' where "deliver_octet (eR E) (mqContext q) x = Inr c'" "sfp_inv (eR E) c'"
    "reacts (eR E) (mqContext q) c' (abs_endpoint (eR E) c') fs ds"
    using octets.step_ok [OF inv _ o] by blast
  from mq_library_ok [where f = "\<lambda>c. deliver_octet (eR E) c x", OF assms this(1,3,2)] show ?thesis
    by (auto simp: mq_deliver_def)
qed

lemma mq_delivers_ok:
  assumes "pcqueue_laws (eQ E)" and "ready E q"
  shows "\<exists>q'. foldR (mq_deliver E) xs q = Inr q' \<and> only_library E q q' \<and> ready E q'"
proof -
  have "\<exists>q'. foldR (mq_deliver E) xs q = Inr q' \<and> (only_library E q q' \<and> ready E q')"
  proof (rule foldR_total [where P = "\<lambda>s. only_library E q s \<and> ready E s"])
    fix s x assume "only_library E q s \<and> ready E s"
    with mq_deliver_ok [OF assms(1), of s x] only_library_trans
    show "\<exists>s'. mq_deliver E s x = Inr s' \<and> only_library E q s' \<and> ready E s'" by blast
  qed (use assms(2) in simp)
  then show ?thesis by blast
qed

section \<open>Completions and calls\<close>

text \<open>The invariant after a step that started some handlers.\<close>

definition step_ok :: "('h, 'q, 's) env \<Rightarrow> ticket multiset \<Rightarrow> ('h, 'q, 's) mq \<Rightarrow> ('h, 'q, 's) mq \<Rightarrow> bool" where
  "step_ok E t q q' \<longleftrightarrow> mq_inv E q' \<and> tickets E q' = tickets E q + t"

lemma mq_inv_pumps: "mq_inv E q \<longleftrightarrow> ready E q \<and> pumps_ok q"
  by (auto simp: mq_inv_def pumps_ok_def)

lemma ready_same: "same_context q q' \<Longrightarrow> ready E q' \<longleftrightarrow> ready E q"
  by (simp add: same_context_def ready_def)

lemma handleRead_ok:
  assumes laws: "pcqueue_laws (eQ E)" and inv: "mq_inv E q" and r: "pending_reads q = Suc k"
  shows "\<exists>q'. handleRead E ec xs (q\<lparr>pending_reads := k\<rparr>) = Inr q' \<and> step_ok E {#} q q'"
proof -
  let ?q = "q\<lparr>pending_reads := k\<rparr>"
  have k: "pump_ok 1 ?q" "pumping ?q = 0" "keeping_ok ?q" "front_written ?q" "ready E ?q" "tickets E ?q = tickets E q"
    using inv r
    by (auto simp: mq_inv_def pump_ok_def pumping_def keeping_ok_def keeping_def front_written_def ready_def tickets_defs split: if_splits)
  show ?thesis
  proof (cases "failed ec")
    case True
    from stopReadPump_ok [OF laws k(2,3), of ec] obtain q' where q': "stopReadPump E ec ?q = Inr q'" "handled E {#} ?q q'" by blast
    then have "mq_inv E q'"
      using k(4,5) ready_kept [of ?q q' E] kept_writes [of ?q q'] by (simp add: mq_inv_def handled_def front_written_def)
    with True q' k(6) show ?thesis by (auto simp: handleRead_def step_ok_def handled_def)
  next
    case False
    obtain q1 where q1: "foldR (mq_deliver E) xs ?q = Inr q1" "only_library E ?q q1" "ready E q1"
      using mq_delivers_ok [OF laws k(5)] by blast
    have "pump_ok 1 q1" "keeping_ok q1" "front_written q1" "tickets E q1 = tickets E q"
      using only_library_simps [OF q1(2)] k by simp_all
    with flushWriteBuffer_ok [OF laws, of Pump_flushed q1] q1(1,3) False show ?thesis
      by (auto simp: handleRead_def step_ok_def mq_inv_pumps ready_same)
  qed
qed

lemma handleWrite_ok:
  assumes laws: "pcqueue_laws (eQ E)" and inv: "mq_inv E q" and w: "pending_writes q = w # ws"
    and n: "failed ec \<or> n = length w"
  shows "\<exists>q'. handleWrite E ec n (q\<lparr>pending_writes := ws\<rparr>) = Inr q' \<and> step_ok E {#} q q'"
proof -
  let ?q = "q\<lparr>pending_writes := ws\<rparr>"
  obtain h rest where o: "mOutbox q = (w, h) # rest" and ws: "ws = []"
    using inv w by (cases "mOutbox q") (auto simp: mq_inv_def front_written_def)
  have k: "pump_ok 0 ?q" "keeping_ok ?q" "ready E ?q" "tickets E ?q = tickets E q"
    using inv by (auto simp: mq_inv_def pump_ok_def pumping_def keeping_ok_def keeping_def ready_def tickets_defs)
  show ?thesis
  proof (cases "failed ec")
    case True
    from voidOutbox_ok [OF laws k(1,2), of ec] obtain q1 where q1: "voidOutbox E ec ?q = Inr q1" "kept ?q q1"
      "mOutbox q1 = []" "pump_ok 0 q1" "keeping_ok q1" "tickets E q1 = tickets E q" using k(4) by auto
    have "mq_inv E q1" using q1 k(3) ready_kept [OF q1(2), of E] kept_writes [OF q1(2)] ws
      by (simp add: mq_inv_def front_written_def)
    moreover from this have "mq_inv E (mq_close E q1)"
      using ready_kept [of q1 "mq_close E q1" E] kept_writes [of q1 "mq_close E q1"]
      by (simp add: mq_inv_def front_written_def keeping_ok_def)
    ultimately show ?thesis using True q1(1,6) by (simp add: handleWrite_def step_ok_def)
  next
    case False
    have "length w = n" using n False by simp
    moreover obtain q1 where q1: "call_handler E h ec (?q\<lparr>mOutbox := rest\<rparr>) = Inr q1" "kept ?q q1"
      "mOutbox q1 = rest" "pump_ok 0 q1" "keeping_ok q1" "tickets E q1 = tickets E q"
      using front_handled [OF laws, of ?q w h rest ec] o k by auto
    moreover obtain q2 where "writePump E q1 = Inr q2" "same_context q1 q2" "pumps_ok q2" "tickets E q2 = tickets E q1"
      using writePump_ok [OF laws q1(4,5)] kept_writes [OF q1(2)] ws by auto
    ultimately show ?thesis
      using False o k(3) ready_kept [OF q1(2), of E] ready_same [of q1 q2 E]
      by (simp add: handleWrite_def handleWrite_done_def step_ok_def mq_inv_pumps)
  qed
qed

end
