(* ===== verification/Sfp_QueueRun.thy ===== *)
theory Sfp_QueueRun
  imports Sfp_QueueSafe
begin

text \<open>
  Runs of the message queue: the calls of a client and the completions of Asio as actions
  of one machine, its safety, and what becomes of the handlers.
\<close>

section \<open>Calls of the client and of the timer\<close>

lemma mq_invD: "mq_inv E q \<Longrightarrow> ready E q \<and> pump_ok 0 q \<and> keeping_ok q \<and> front_written q"
  by (simp add: mq_inv_def)

lemma getReadPumpError_inv:
  assumes "getReadPumpError E q = (r, ec)"
  shows "pumps_ok r = pumps_ok q" "ready E r = ready E q" "tickets E r = tickets E q"
    "mHandshakeComplete r = mHandshakeComplete q" "kept q r"
proof -
  have "r = q\<lparr>mReadPumpError := No_error\<rparr>"
    using assms by (simp add: getReadPumpError_def Let_def)
  then show "pumps_ok r = pumps_ok q" "ready E r = ready E q" "tickets E r = tickets E q"
    "mHandshakeComplete r = mHandshakeComplete q" "kept q r"
    by (simp_all add: pumps_ok_def keeping_ok_def)
qed

lemma handled_inv:
  assumes "handled E t q q'" and "ready E q" and "pumps_ok q"
  shows "step_ok E t q q'"
  using assms ready_kept [of q q' E] kept_writes [of q q']
  by (simp add: step_ok_def mq_inv_def handled_def pumps_ok_def front_written_def)

lemma asyncSend_ok:
  assumes laws: "pcqueue_laws (eQ E)" and inv: "ready E q" "pumps_ok q" and complete: "mHandshakeComplete q"
    and "length bs \<le> SFP_CONFIG_MAX_PACKET_SIZE" and "length stack = SFP_CONFIG_MAX_PACKET_SIZE"
    and h: "h \<noteq> Pump_flushed"
  shows "\<exists>q'. asyncSend E stack bs h q = Inr q' \<and> step_ok E (send_ticket h) q q'"
proof -
  obtain r ec where r: "getReadPumpError E q = (r, ec)" by (metis surj_pair)
  note eq = getReadPumpError_inv [OF r]
  have k: "ready E r" "pump_ok 0 r" "keeping_ok r" "front_written r" "mHandshakeComplete r"
    using eq inv complete by (simp_all add: pumps_ok_def)
  show ?thesis
  proof (cases "failed ec")
    case True
    from call_handler_ok [OF laws, of h r ec] k h obtain q' where q': "call_handler E h ec r = Inr q'"
      "handled E (send_ticket h) r q'" by auto
    then have "step_ok E (send_ticket h) r q'" using k(1) eq(1) inv(2) by (blast intro: handled_inv)
    with True q' r complete eq(3) show ?thesis by (auto simp: asyncSend_def step_ok_def)
  next
    case False
    have si: "sfp_inv (eR E) (mqContext r)" using k(1) by (simp add: ready_def)
    obtain c' n e fs where c': "sfpWritePacket (eR E) (mqContext r) stack bs = Inr (c', n)" "sfp_inv (eR E) c'"
      "reacts (eR E) (mqContext r) c' e fs []"
      using write_inv [OF si assms(6,5)] by blast
    let ?f = "\<lambda>c. bindR (sfpWritePacket (eR E) c stack bs) (\<lambda>(c, outlen). Inr c)"
    have "?f (mqContext r) = Inr c'" by (simp add: c'(1))
    from mq_library_ok [where f = ?f, OF laws k(1) this c'(3,2)] obtain q1 where q1: "mq_library E ?f r = Inr q1"
      "only_library E r q1" "ready E q1" by blast
    have "pump_ok 0 q1" "keeping_ok q1" "front_written q1" "mHandshakeComplete q1" "tickets E q1 = tickets E q"
      using only_library_simps [OF q1(2)] k eq(3) by simp_all
    with flushWriteBuffer_ok [OF laws, of h q1] h q1(1,3) False r complete show ?thesis
      by (auto simp: asyncSend_def step_ok_def mq_inv_pumps ready_same)
  qed
qed

lemma receives_inv:
  "receives_only q q' \<Longrightarrow> tickets E q' = tickets E q + t \<Longrightarrow> mq_inv E q \<Longrightarrow> step_ok E t q q'"
  using receives_only_simps [of q q'] by (simp add: step_ok_def mq_inv_def)

lemma asyncReceive_ok:
  assumes laws: "pcqueue_laws (eQ E)" and inv: "mq_inv E q" and complete: "mHandshakeComplete q"
  shows "\<exists>q'. asyncReceive E room h q = Inr q' \<and> step_ok E {#For_receive h#} q q'"
proof -
  obtain r ec where r: "getReadPumpError E q = (r, ec)" by (metis surj_pair)
  note eq = getReadPumpError_inv [OF r]
  have k: "mq_inv E r" using eq inv by (simp add: mq_inv_pumps)
  have "step_ok E {#For_receive h#} r (report_to (Received h ec []) r)"
    using mq_invD [OF k] handled_report [of r E "Received h ec []"] by (auto intro!: handled_inv simp: pumps_ok_def)
  moreover have "step_ok E {#For_receive h#} r (mq_consume E (Receive room h) r)"
    using consume_ok [OF laws, of r "Receive room h"] k by (auto intro: receives_inv)
  ultimately show ?thesis
    using r complete eq(3) by (auto simp: asyncReceive_def step_ok_def)
qed

lemma step_resumed:
  "r = q \<or> r = q\<lparr>mReadPumpError := No_error\<rparr> \<Longrightarrow> step_ok E t r s \<Longrightarrow> step_ok E t q s"
  by (auto simp: step_ok_def)

lemma resumed_inv:
  "r = q \<or> r = q\<lparr>mReadPumpError := No_error\<rparr> \<Longrightarrow> ready E q \<Longrightarrow> pumps_ok q \<Longrightarrow> ready E r \<and> pumps_ok r"
  by (auto simp: pumps_ok_def keeping_ok_def)

lemma pumps_okD: "pumps_ok q \<Longrightarrow> pump_ok 0 q \<and> keeping_ok q \<and> front_written q"
  by (simp add: pumps_ok_def)

lemma keepalive_loop_ok:
  assumes "ready E q" and "pumps_ok q" and "mHandshakeComplete q"
  shows "\<exists>q'. keepalive_loop h q = Inr q' \<and> step_ok E {#For_keepalive h#} q q'"
  using timer_wait_ok [of q "Keepalive_waiting h" E] assms pumps_okD [OF assms(2)]
  by (auto simp: keepalive_loop_def intro: handled_inv)

context resumed_operation
begin

lemma step:
  assumes "ready E q" and "pumps_ok q"
    and stretch: "\<And>r. r = q \<or> r = q\<lparr>mReadPumpError := No_error\<rparr> \<Longrightarrow>
      \<exists>s. stretch op r = Inr s \<and> step_ok E (ticket op) r s"
  shows "\<exists>q'. operation E stretch op ec q = Inr q' \<and> step_ok E (ticket op) q q'"
proof (rule operation_ok)
  show "pump_ok 0 q" "keeping_ok q" using pumps_okD [OF assms(2)] by simp_all
  show "\<exists>s. stretch op r = Inr s \<and> step_ok E (ticket op) q s"
    if "r = q \<or> r = q\<lparr>mReadPumpError := No_error\<rparr>" for r
    using stretch [OF that] step_resumed [OF that] by blast
  show "step_ok E (ticket op) q s" if "handled E (ticket op) q s" for s
    using handled_inv [OF that assms(1,2)] .
qed

end

lemma handshake_attempt_ok:
  assumes laws: "pcqueue_laws (eQ E)" and inv: "ready E q" "pumps_ok q"
  shows "\<exists>q'. handshake_attempt E op q = Inr q' \<and> step_ok E {#For_handshake (hs_handler op)#} q q'"
proof (cases "nTries op > kSfpMaxHandshakeAttempts")
  case True
  have "handled E {#For_handshake (hs_handler op)#} q (complete_handshake (op\<lparr>rc := make_error_code HANDSHAKE_FAILED\<rparr>) q)"
    using handled_report [of q E "Handshaken (hs_handler op) (make_error_code HANDSHAKE_FAILED)"] pumps_okD [OF inv(2)]
    by (simp add: complete_handshake_def)
  with True handled_inv [OF _ inv] show ?thesis
    by (simp add: handshake_attempt_def kSfpMaxHandshakeAttempts_def)
next
  case False
  have si: "sfp_inv (eR E) (mqContext q)" using inv(1) by (simp add: ready_def)
  obtain c' e fs where c': "sfpConnect (eR E) (mqContext q) = Inr c'" "sfp_inv (eR E) c'" "reacts (eR E) (mqContext q) c' e fs []"
    using connect_inv [OF si] by blast
  from mq_library_ok [where f = "sfpConnect (eR E)", OF laws inv(1) c'(1,3,2)] obtain q1 where q1: "mq_library E (sfpConnect (eR E)) q = Inr q1"
    "only_library E q q1" "ready E q1" by blast
  have "pump_ok 0 q1" "keeping_ok q1" "front_written q1" "tickets E q1 = tickets E q"
    using only_library_simps [OF q1(2)] pumps_okD [OF inv(2)] by simp_all
  with flushWriteBuffer_ok [OF laws, of "Handshake_flushed (op\<lparr>nTries := Suc (nTries op)\<rparr>)" q1] q1(1,3) False
  show ?thesis by (auto simp: handshake_attempt_def step_ok_def mq_inv_pumps ready_same)
qed

lemma sfp_inv_memory: "sfp_inv R c \<Longrightarrow> memory_ok R c"
  by (simp add: sfp_inv_def sfp_ok_def memory_ok_def tx_ok_def packet_ok_def)

lemma handshake_begin_ok:
  assumes laws: "pcqueue_laws (eQ E)" "ringbuffer_laws (eR E)" and mem: "memory_ok (eR E) (mqContext q)"
    and pumps: "pumps_ok q" and nk: "\<not> keeping q"
  shows "\<exists>q'. handshake_begin E op q = Inr q' \<and> step_ok E {#For_handshake (hs_handler op)#} q q'"
proof -
  let ?q = "q\<lparr>mHandshakeComplete := False\<rparr>"
  have k: "pumps_ok ?q" "tickets E ?q = tickets E q"
    using pumps nk by (auto simp: pumps_ok_def pump_ok_def pumping_def keeping_ok_def keeping_def front_written_def tickets_defs)
  obtain q1 where q1: "voidReceives E (Asio Operation_aborted) ?q = Inr q1" "receives_only ?q q1" "tickets E q1 = tickets E q"
    using voidReceives_ok [OF laws(1), of "Asio Operation_aborted" ?q] k(2) by auto
  let ?c = "sfpSetDeliverCallback (sfpSetWriteCallback (sfpInit (mqContext q1)) (Some addr_writeCallback) (Some (mq_address q1)))
      (Some addr_deliverCallback) (Some (mq_address q1))"
  let ?q2 = "q1\<lparr>mWriteBuffer := [], mqContext := ?c\<rparr>"
  have "mqContext q1 = mqContext q" using receives_only_simps(1) [OF q1(2)] by (simp add: kept_def)
  then have "sfp_inv (eR E) ?c" using setters_inv(2) [OF init_inv [OF laws(2) mem]] by simp
  moreover have "callbacks ?c = mq_callbacks (mq_address q1)"
    by (simp add: callbacks_def mq_callbacks_def setup_defs)
  ultimately have r2: "ready E ?q2" by (simp add: ready_def)
  have p1: "pumps_ok q1" using receives_only_simps [OF q1(2)] k(1) by (simp add: pumps_ok_def)
  then have p2: "pumps_ok ?q2" "tickets E ?q2 = tickets E q"
    using q1(3) by (simp_all add: pumps_ok_def pump_ok_def pumping_def keeping_ok_def keeping_def front_written_def tickets_defs)
  obtain q3 where q3: "startReadPump E ?q2 = Inr q3" "step_ok E {#} ?q2 q3"
  proof (cases "mReadPumpRunning ?q2")
    case True
    then show ?thesis
      using that [of ?q2] r2 p2 by (simp add: startReadPump_def step_ok_def mq_inv_pumps)
  next
    case False
    let ?q3 = "?q2\<lparr>mReadPumpRunning := True, mReadPumpError := No_error\<rparr>"
    have "pumping ?q3 = 0" using p2 False by (simp add: pumps_ok_def pump_ok_def pumping_def)
    moreover have "keeping_ok ?q3" using p2 by (simp add: pumps_ok_def keeping_ok_def keeping_def)
    ultimately obtain q4 where q4: "readPump E ?q3 = Inr q4" "handled E {#} ?q3 q4"
      using readPump_ok [OF laws(1), of ?q3] by auto
    have "ready E q4" "front_written q4"
      using q4(2) r2 p2(1) ready_kept [of ?q3 q4 E] kept_writes [of ?q3 q4]
      by (simp_all add: handled_def ready_def front_written_def pumps_ok_def)
    moreover have "tickets E q4 = tickets E ?q2"
    proof -
      have "tickets E ?q3 = tickets E ?q2" by (simp add: tickets_defs)
      then show ?thesis using q4(2) unfolding handled_def by simp
    qed
    ultimately have "step_ok E {#} ?q2 q4" using q4(2) by (simp add: step_ok_def mq_inv_def handled_def)
    with that [of q4] q4(1) False show ?thesis by (simp add: startReadPump_def)
  qed
  have inv3: "ready E q3" "pumps_ok q3" "tickets E q3 = tickets E q"
    using q3(2) p2(2) by (simp_all add: step_ok_def mq_inv_pumps)
  from handshake_attempt_ok [OF laws(1) inv3(1,2), of op] obtain q' where "handshake_attempt E op q3 = Inr q'"
    "step_ok E {#For_handshake (hs_handler op)#} q3 q'" by blast
  with q1(1) q3(1) inv3(3) show ?thesis
    by (auto simp: handshake_begin_def Let_def step_ok_def)
qed

lemma waits_removed:
  assumes "pending_waits q = ws @ (t, c) # ws'" and "mq_inv E q"
  shows "ready E (q\<lparr>pending_waits := ws @ ws'\<rparr>)" "pumps_ok (q\<lparr>pending_waits := ws @ ws'\<rparr>)"
    "tickets E q = tickets E (q\<lparr>pending_waits := ws @ ws'\<rparr>) + timer_ticket t"
    "is_keepalive_wait t \<Longrightarrow> mHandshakeComplete q"
  using assms
  by (auto simp: mq_inv_def pumps_ok_def pump_ok_def pumping_def keeping_ok_def keeping_def front_written_def
      ready_def tickets_defs)

lemma call_timer_ok:
  assumes laws: "pcqueue_laws (eQ E)" and w: "pending_waits q = ws @ (t, c) # ws'" and inv: "mq_inv E q"
    and stack: "length stack = SFP_CONFIG_MAX_PACKET_SIZE"
  shows "\<exists>q'. call_timer E stack t ec (q\<lparr>pending_waits := ws @ ws'\<rparr>) = Inr q' \<and> step_ok E {#} q q'"
proof -
  let ?q = "q\<lparr>pending_waits := ws @ ws'\<rparr>"
  note k = waits_removed [OF w inv]
  have "\<exists>q'. call_timer E stack t ec ?q = Inr q' \<and> step_ok E (timer_ticket t) ?q q'"
  proof (cases t)
    case (Handshake_connecting op)
    have "\<exists>s. handshake_waited E op r = Inr s \<and> step_ok E {#For_handshake (hs_handler op)#} r s"
      if r: "r = ?q \<or> r = ?q\<lparr>mReadPumpError := No_error\<rparr>" for r
    proof -
      have i: "ready E r" "pumps_ok r" using resumed_inv [OF r k(1,2)] by simp_all
      then have "step_ok E {#For_handshake (hs_handler op)#} r (timer_wait (Handshake_settling op) r)"
        using timer_wait_ok [of r "Handshake_settling op" E] pumps_okD [OF i(2)] by (auto intro: handled_inv)
      with handshake_attempt_ok [OF laws i] show ?thesis by (simp add: handshake_waited_def)
    qed
    with hs.step [OF k(1,2)] Handshake_connecting show ?thesis by simp
  next
    case (Handshake_settling op)
    have "\<exists>s. handshake_settle E op r = Inr s \<and> step_ok E {#For_handshake (hs_handler op)#} r s"
      if r: "r = ?q \<or> r = ?q\<lparr>mReadPumpError := No_error\<rparr>" for r
    proof -
      have i: "ready E r" "pumps_ok r" using resumed_inv [OF r k(1,2)] by simp_all
      let ?r = "r\<lparr>mHandshakeComplete := True\<rparr>"
      have c: "ready E ?r" "pumps_ok ?r" "tickets E ?r = tickets E r"
        using i by (simp_all add: ready_def pumps_ok_def pump_ok_def pumping_def keeping_ok_def front_written_def tickets_defs)
      have "step_ok E {#For_handshake (hs_handler op)#} ?r (complete_handshake (op\<lparr>rc := No_error\<rparr>) ?r)"
        using handled_report [of ?r E "Handshaken (hs_handler op) No_error"] pumps_okD [OF c(2)] c(1,2)
        by (auto simp: complete_handshake_def intro: handled_inv)
      with c(3) handshake_attempt_ok [OF laws i] show ?thesis by (auto simp: handshake_settle_def step_ok_def)
    qed
    with hs.step [OF k(1,2)] Handshake_settling show ?thesis by simp
  next
    case (Keepalive_waiting h)
    have "\<exists>s. keepalive_waited E stack h r = Inr s \<and> step_ok E {#For_keepalive h#} r s"
      if r: "r = ?q \<or> r = ?q\<lparr>mReadPumpError := No_error\<rparr>" for r
    proof -
      have i: "ready E r" "pumps_ok r" "mHandshakeComplete r"
        using resumed_inv [OF r k(1,2)] r k(4) Keepalive_waiting by auto
      from asyncSend_ok [OF laws i, of "[]" stack "Keepalive_sent h"] stack show ?thesis
        by (simp add: keepalive_waited_def)
    qed
    with ka.step [OF k(1,2)] Keepalive_waiting show ?thesis by simp
  qed
  with k(3) show ?thesis by (auto simp: step_ok_def)
qed

section \<open>The machine\<close>

text \<open>
  What can happen: a call of the client, with its handler, or a completion of Asio. \<open>stack\<close>
  is the uninitialised memory of \<^verbatim>\<open>sfpWritePacket\<close>.
\<close>

datatype action =
    Do_handshake nat
  | Do_keepalive nat
  | Do_send "u8 list" "u8 list" nat
  | Do_receive nat nat
  | Do_close
  | Read_done error_code "u8 list"
  | Write_done error_code nat
  | Timer_done nat error_code "u8 list"

text \<open>
  When it can happen. The client sends, receives and keeps alive when the handshake is
  complete, as the source asserts, and does not start a handshake while a keepalive
  operation is under way. A read or a write completes only if it is under way, a good write
  with its length; a wait on the timer completes when it expires, or is cancelled.
\<close>

fun enabled :: "('h, 'q, 's) mq \<Rightarrow> action \<Rightarrow> bool" where
  "enabled q (Do_handshake h) \<longleftrightarrow> \<not> keeping q"
| "enabled q (Do_keepalive h) \<longleftrightarrow> mHandshakeComplete q"
| "enabled q (Do_send stack bs h) \<longleftrightarrow> mHandshakeComplete q
     \<and> length stack = SFP_CONFIG_MAX_PACKET_SIZE \<and> length bs \<le> SFP_CONFIG_MAX_PACKET_SIZE"
| "enabled q (Do_receive room h) \<longleftrightarrow> mHandshakeComplete q"
| "enabled q Do_close \<longleftrightarrow> True"
| "enabled q (Read_done ec octets) \<longleftrightarrow> pending_reads q \<noteq> 0"
| "enabled q (Write_done ec n) \<longleftrightarrow> pending_writes q \<noteq> [] \<and> (failed ec \<or> n = length (hd (pending_writes q)))"
| "enabled q (Timer_done i ec stack) \<longleftrightarrow> i < length (pending_waits q) \<and> length stack = SFP_CONFIG_MAX_PACKET_SIZE
     \<and> (ec = No_error \<or> snd (pending_waits q ! i) \<and> ec = Asio Operation_aborted)"

fun perform :: "('h, 'q, 's) env \<Rightarrow> ('h, 'q, 's) mq \<Rightarrow> action \<Rightarrow> ('h, 'q, 's) mq res" where
  "perform E q (Do_handshake h) = asyncHandshake E h q"
| "perform E q (Do_keepalive h) = asyncKeepalive E h q"
| "perform E q (Do_send stack bs h) = asyncSend E stack bs (User_send h) q"
| "perform E q (Do_receive room h) = asyncReceive E room h q"
| "perform E q Do_close = Inr (mq_close E q)"
| "perform E q (Read_done ec octets) = handleRead E ec octets (q\<lparr>pending_reads := pending_reads q - 1\<rparr>)"
| "perform E q (Write_done ec n) = handleWrite E ec n (q\<lparr>pending_writes := tl (pending_writes q)\<rparr>)"
| "perform E q (Timer_done i ec stack) =
     call_timer E stack (fst (pending_waits q ! i)) ec
       (q\<lparr>pending_waits := take i (pending_waits q) @ drop (Suc i) (pending_waits q)\<rparr>)"

fun action_ticket :: "action \<Rightarrow> ticket multiset" where
  "action_ticket (Do_handshake h) = {#For_handshake h#}"
| "action_ticket (Do_keepalive h) = {#For_keepalive h#}"
| "action_ticket (Do_send stack bs h) = {#For_send h#}"
| "action_ticket (Do_receive room h) = {#For_receive h#}"
| "action_ticket _ = {#}"

definition mq_good :: "('h, 'q, 's) env \<Rightarrow> ('h, 'q, 's) mq \<Rightarrow> bool" where
  "mq_good E q \<longleftrightarrow> mq_inv E q \<or> mq_idle E q"

lemma idle_pumps: "mq_idle E q \<Longrightarrow> pumps_ok q \<and> \<not> keeping q"
  by (simp add: mq_idle_def pumps_ok_def pump_ok_def pumping_def keeping_ok_def keeping_def front_written_def)

lemma idle_completes:
  assumes "mq_idle E q" and "resume_code E ec q = (r, ec')"
  shows "mq_idle E (complete_handshake op r)" "mq_idle E (mq_close E q)" "mq_idle E (mq_close E r)"
    "mq_idle E (complete_handshake op (mq_close E r))"
    "tickets E (complete_handshake op r) = tickets E q + {#For_handshake (hs_handler op)#}"
    "tickets E (complete_handshake op (mq_close E r)) = tickets E q + {#For_handshake (hs_handler op)#}"
  using assms(1) resume_code_cases [OF assms(2)]
  by (auto simp: mq_idle_def complete_handshake_def report_to_def mq_close_def timer_cancel_def Let_def tickets_defs)

lemma asyncHandshake_ok:
  assumes env: "env_ok E" and good: "mq_good E q" and nk: "\<not> keeping q"
  shows "\<exists>q'. asyncHandshake E h q = Inr q' \<and> mq_good E q' \<and> tickets E q' = tickets E q + {#For_handshake h#}"
proof -
  let ?op = "\<lparr>nTries = 0, rc = Asio Operation_aborted, hs_handler = h\<rparr>"
  have laws: "pcqueue_laws (eQ E)" "ringbuffer_laws (eR E)" using env by (simp_all add: env_ok_def)
  have pumps: "pumps_ok q" and mem: "memory_ok (eR E) (mqContext q)"
    using good idle_pumps [of E q] sfp_inv_memory
    by (auto simp: mq_good_def mq_inv_pumps mq_idle_def ready_def)
  have begin_ok: "\<exists>s. handshake_begin E ?op r = Inr s \<and> step_ok E {#For_handshake h#} r s"
    if r: "r = q \<or> r = q\<lparr>mReadPumpError := No_error\<rparr>" for r
  proof -
    have "memory_ok (eR E) (mqContext r)" "pumps_ok r" "\<not> keeping r"
      using r mem pumps nk by (auto simp: pumps_ok_def keeping_ok_def)
    from handshake_begin_ok [OF laws this, of ?op] show ?thesis by simp
  qed
  show ?thesis
  proof (cases "mq_inv E q")
    case True
    then have "ready E q" by (simp add: mq_inv_def)
    from hs.step [where stretch = "handshake_begin E" and op = ?op and ec = No_error, OF this pumps] begin_ok
    show ?thesis
      by (auto simp: asyncHandshake_def step_ok_def mq_good_def)
  next
    case False
    then have idle: "mq_idle E q" using good by (simp add: mq_good_def)
    obtain r ec where r: "resume_code E No_error q = (r, ec)" by (metis surj_pair)
    note cases = resume_code_cases [OF r] idle_completes [OF idle r]
    show ?thesis
    proof (cases "failed ec")
      case True
      with cases(2-) r show ?thesis
        by (auto simp: asyncHandshake_def handshake_operation_def mq_good_def)
    next
      case False
      have t: "tickets E r = tickets E q" using cases(1) by auto
      obtain s where s: "handshake_begin E ?op r = Inr s" "step_ok E {#For_handshake h#} r s"
        using begin_ok [OF cases(1)] by blast
      with False r t show ?thesis
        by (auto simp: asyncHandshake_def handshake_operation_def mq_good_def step_ok_def)
    qed
  qed
qed

lemma asyncKeepalive_ok:
  assumes "mq_inv E q" and "mHandshakeComplete q"
  shows "\<exists>q'. asyncKeepalive E h q = Inr q' \<and> step_ok E {#For_keepalive h#} q q'"
proof -
  have i: "ready E q" "pumps_ok q" using assms(1) by (simp_all add: mq_inv_pumps)
  have "\<exists>s. keepalive_loop h r = Inr s \<and> step_ok E {#For_keepalive h#} r s"
    if r: "r = q \<or> r = q\<lparr>mReadPumpError := No_error\<rparr>" for r
    using keepalive_loop_ok [of E r h] resumed_inv [OF r i] r assms(2) by auto
  from ka.step [where stretch = keepalive_loop and op = h and ec = No_error, OF i this] assms(2)
  show ?thesis by (simp add: asyncKeepalive_def)
qed

lemma close_ok: "mq_good E q \<Longrightarrow> mq_good E (mq_close E q) \<and> tickets E (mq_close E q) = tickets E q"
proof -
  assume "mq_good E q"
  moreover have "mq_inv E (mq_close E q)" if "mq_inv E q"
    using that ready_kept [of q "mq_close E q" E] kept_writes [of q "mq_close E q"]
    by (simp add: mq_inv_def front_written_def keeping_ok_def)
  moreover have "mq_idle E (mq_close E q)" if "mq_idle E q"
    using idle_completes(2) [OF that] by (metis surj_pair)
  ultimately show ?thesis by (auto simp: mq_good_def)
qed

lemma perform_ok:
  assumes env: "env_ok E" and good: "mq_good E q" and en: "enabled q a"
  shows "\<exists>q'. perform E q a = Inr q' \<and> mq_good E q' \<and> tickets E q' = tickets E q + action_ticket a"
proof -
  have laws: "pcqueue_laws (eQ E)" using env by (simp add: env_ok_def)
  have inv: "mq_inv E q" if "mHandshakeComplete q \<or> pending_reads q \<noteq> 0 \<or> pending_writes q \<noteq> [] \<or> pending_waits q \<noteq> []"
    using good that by (auto simp: mq_good_def mq_idle_def)
  show ?thesis
  proof (cases a)
    case (Do_handshake h)
    with asyncHandshake_ok [OF env good] en show ?thesis by simp
  next
    case (Do_keepalive h)
    with asyncKeepalive_ok [OF inv] en show ?thesis by (auto simp: step_ok_def mq_good_def)
  next
    case (Do_send stack bs h)
    with en have "mHandshakeComplete q" "length bs \<le> SFP_CONFIG_MAX_PACKET_SIZE" "length stack = SFP_CONFIG_MAX_PACKET_SIZE"
      by simp_all
    with asyncSend_ok [where h = "User_send h", OF laws _ _ this] inv Do_send show ?thesis
      by (auto simp: step_ok_def mq_good_def mq_inv_pumps)
  next
    case (Do_receive room h)
    with asyncReceive_ok [OF laws inv] en show ?thesis by (auto simp: step_ok_def mq_good_def)
  next
    case Do_close
    with close_ok [OF good] show ?thesis by simp
  next
    case (Read_done ec octets)
    with en obtain k where k: "pending_reads q = Suc k" by (cases "pending_reads q") simp_all
    then have "mq_inv E q" by (intro inv) simp
    from handleRead_ok [where xs = octets and ec = ec, OF laws this k] k Read_done show ?thesis
      by (auto simp: step_ok_def mq_good_def)
  next
    case (Write_done ec n)
    with en obtain w ws where "pending_writes q = w # ws" by (cases "pending_writes q") simp_all
    with handleWrite_ok [OF laws inv, of w ws ec n] en Write_done show ?thesis by (auto simp: step_ok_def mq_good_def)
  next
    case (Timer_done i ec stack)
    then have i: "i < length (pending_waits q)" "length stack = SFP_CONFIG_MAX_PACKET_SIZE" using en by simp_all
    have "pending_waits q = take i (pending_waits q) @ (fst (pending_waits q ! i), snd (pending_waits q ! i)) # drop (Suc i) (pending_waits q)"
      using i(1) by (simp add: id_take_nth_drop [symmetric])
    moreover have "pending_waits q \<noteq> []" using i(1) by auto
    ultimately show ?thesis
      using call_timer_ok [OF laws _ inv i(2)] Timer_done by (fastforce simp: step_ok_def mq_good_def)
  qed
qed

end
