(* ===== verification/Sfp_QueueSession.thy ===== *)
theory Sfp_QueueSession
  imports Sfp_QueueRun
begin

text \<open>
  Runs of the message queue from its construction on: they are safe, and every handler of
  the client is called exactly once or still waits. A list queue and a flag for a stream
  are the instance for the examples.
\<close>

section \<open>Runs\<close>

inductive mq_run :: "('h, 'q, 's) env \<Rightarrow> ('h, 'q, 's) mq \<Rightarrow> action list \<Rightarrow> ('h, 'q, 's) mq \<Rightarrow> bool"
  for E :: "('h, 'q, 's) env" where
  nothing: "mq_run E q [] q"
| another: "enabled q a \<Longrightarrow> perform E q a = Inr r \<Longrightarrow> mq_run E r as s \<Longrightarrow> mq_run E q (a # as) s"

inductive_simps mq_run_simps [simp]:
  "mq_run E q [] s"
  "mq_run E q (a # as) s"

lemma mq_run_good:
  assumes "mq_run E q as s" and "env_ok E" and "mq_good E q"
  shows "mq_good E s \<and> tickets E s = tickets E q + bag action_ticket as"
  using assms
proof (induction rule: mq_run.induct)
  case (another q a r as s)
  obtain q' where "perform E q a = Inr q'" "mq_good E q'" "tickets E q' = tickets E q + action_ticket a"
    using perform_ok [OF another.prems another.hyps(1)] by blast
  with another show ?case by simp
qed simp

lemma good_pumps: "mq_good E q \<Longrightarrow> pumps_ok q"
  using idle_pumps [of E q] by (auto simp: mq_good_def mq_inv_pumps)

lemma pumping_reads:
  assumes "pumps_ok q"
  shows "pending_reads q \<le> 1" "mReadPumpRunning q \<longleftrightarrow> pending_reads q = 1 \<or> Pump_flushed \<in> set (map snd (mOutbox q))"
    "mReadPumpRunning q \<Longrightarrow> pending_reads q = 1 \<Longrightarrow> Pump_flushed \<notin> set (map snd (mOutbox q))"
proof -
  have eq: "pending_reads q + length (filter (\<lambda>(b, h). h = Pump_flushed) (mOutbox q)) = (if mReadPumpRunning q then 1 else 0)"
    using assms by (simp add: pumps_ok_def pump_ok_def pumping_def)
  moreover have "filter (\<lambda>(b, h). h = Pump_flushed) (mOutbox q) = [] \<longleftrightarrow> Pump_flushed \<notin> set (map snd (mOutbox q))"
    by (force simp: filter_empty_conv)
  ultimately show "pending_reads q \<le> 1"
    "mReadPumpRunning q \<longleftrightarrow> pending_reads q = 1 \<or> Pump_flushed \<in> set (map snd (mOutbox q))"
    "mReadPumpRunning q \<Longrightarrow> pending_reads q = 1 \<Longrightarrow> Pump_flushed \<notin> set (map snd (mOutbox q))"
    by (auto split: if_splits simp flip: length_greater_0_conv)
qed

section \<open>An instance\<close>

text \<open>A queue that holds items on the left or consumers on the right; an open stream is \<open>True\<close>.\<close>

definition list_pcqueue :: "(item list + consumer list) pcqueue" where
  "list_pcqueue =
     \<lparr>pq_items = case_sum id (\<lambda>ks. []),
      pq_consumers = case_sum (\<lambda>js. []) id,
      pq_depth = case_sum (int \<circ> length) (\<lambda>ks. - int (length ks)),
      pq_produce = (\<lambda>q i. case q of
          Inl js \<Rightarrow> (Inl (js @ [i]), None)
        | Inr [] \<Rightarrow> (Inl [i], None)
        | Inr (k # ks) \<Rightarrow> (Inr ks, Some k)),
      pq_consume = (\<lambda>q k. case q of
          Inr ks \<Rightarrow> (Inr (ks @ [k]), None)
        | Inl [] \<Rightarrow> (Inr [k], None)
        | Inl (j # js) \<Rightarrow> (Inl js, Some j))\<rparr>"

lemma list_pcqueue_laws [simp]: "pcqueue_laws list_pcqueue"
  by (auto simp: pcqueue_laws_def list_pcqueue_def split: sum.splits list.splits prod.splits)

definition flag_stream :: "bool stream_ops" where
  "flag_stream = \<lparr>st_is_open = id, st_shutdown = (\<lambda>s. (s, No_error)), st_close = (\<lambda>s. (False, No_error))\<rparr>"

definition example_env :: "(SFPpacket list, item list + consumer list, bool) env" where
  "example_env = \<lparr>eR = list_ringbuffer, eQ = list_pcqueue, eS = flag_stream, eClose = wrapper_close_socket flag_stream\<rparr>"

lemma example_env_ok: "env_ok example_env"
  by (simp add: env_ok_def example_env_def stream_laws_def flag_stream_def)

text \<open>A message queue as it is constructed, on an open stream.\<close>

definition new_queue :: "(SFPpacket list, item list + consumer list, bool) mq" where
  "new_queue =
     \<lparr>mReceiveQueue = Inl [], mWriteBuffer = [], mOutbox = [], mReadPumpRunning = False, mReadPumpError = No_error,
      mStream = True, mqContext = raw_context, mHandshakeComplete = False, mq_address = 17,
      pending_reads = 0, pending_writes = [], pending_waits = [], reports = []\<rparr>"

lemma new_queue_idle: "mq_idle example_env new_queue"
  by (simp add: mq_idle_def new_queue_def example_env_def raw_memory_ok)

section \<open>Safety\<close>

text \<open>
  C36. The message queue is safe for a client that keeps to three rules: it sends (messages of
  at most 256 octets), receives and keeps alive only when the handshake is complete, as the
  source asserts; it begins no
  handshake while a keepalive operation is under way, which the source does not assert, and
  without which an assertion fails later (\<open>handshake_breaks_keepalive\<close>); and its handlers do
  not call the queue themselves (C39 is what happens then). From the construction of the
  queue on, whatever such a client calls, handshakes during handshakes included, and in
  whatever order reads, writes and waits complete or fail, every further call and completion
  returns; at most one read is under way, which the read pump owns unless it waits for a
  flush; and at most one write, of the front of the outbox.
\<close>

theorem queue_safe:
  assumes "env_ok E" and "mq_idle E q" and "mq_run E q as s"
  shows "(\<forall>a. enabled s a \<longrightarrow> (\<exists>s'. perform E s a = Inr s'))
    \<and> pending_reads s \<le> 1
    \<and> (mReadPumpRunning s \<longleftrightarrow> pending_reads s = 1 \<or> Pump_flushed \<in> set (map snd (mOutbox s)))
    \<and> pending_writes s = map fst (take 1 (mOutbox s))"
proof -
  have good: "mq_good E s"
    using mq_run_good [OF assms(3,1)] assms(2) by (simp add: mq_good_def)
  note pumps = good_pumps [OF good]
  have "\<exists>s'. perform E s a = Inr s'" if "enabled s a" for a
    using perform_ok [OF assms(1) good that] by blast
  moreover have "pending_writes s = map fst (take 1 (mOutbox s))"
    using pumps by (simp add: pumps_ok_def front_written_def)
  ultimately show ?thesis using pumping_reads(1,2) [OF pumps] by blast
qed

section \<open>Handlers\<close>

text \<open>
  C37. No handler is lost and none is called twice: after any run with such a client, the handlers that were
  handed in, before and by the calls of the run, are those that have been called together
  with those that still wait for a write, the timer or a message. Once no write, no wait
  and no receive is under way, each of them has been called exactly once.
\<close>

theorem handlers_called_once:
  assumes "env_ok E" and "mq_idle E q" and "mq_run E q as s"
  shows "called_handlers s + waiting_handlers E s
      = called_handlers q + waiting_handlers E q + bag action_ticket as
    \<and> (pending_writes s = [] \<and> pending_waits s = [] \<and> pq_consumers (eQ E) (mReceiveQueue s) = [] \<longrightarrow>
        called_handlers s = called_handlers q + waiting_handlers E q + bag action_ticket as)"
proof -
  have good: "mq_good E s" and t: "tickets E s = tickets E q + bag action_ticket as"
    using mq_run_good [OF assms(3,1)] assms(2) by (simp_all add: mq_good_def)
  have "mOutbox s = []" if "pending_writes s = []"
    using good_pumps [OF good] that by (cases "mOutbox s") (simp_all add: pumps_ok_def front_written_def)
  then have "waiting_handlers E s = {#}"
    if "pending_writes s = []" "pending_waits s = []" "pq_consumers (eQ E) (mReceiveQueue s) = []"
    using that by (simp add: waiting_handlers_def)
  with t show ?thesis by (auto simp: tickets_def ac_simps)
qed

end
