(* ===== verification/Sfp_QueueHandshake.thy ===== *)
theory Sfp_QueueHandshake
  imports Sfp_QueueSession
begin

text \<open>
  Termination of the handshake of the message queue: a potential that every resumption of a
  handshake operation uses up, so that after boundedly many of them it has completed,
  whatever the peer, the stream and the timer do.
\<close>

section \<open>The potential\<close>

text \<open>
  Attempts that are left, three resumptions each: after the flush of SYN0, after the wait
  for the connection, after the wait for it to settle. Only operations with the handler \<open>h\<close>
  count.
\<close>

definition attempts_left :: "HandshakeOperation \<Rightarrow> nat" where
  "attempts_left op = Suc kSfpMaxHandshakeAttempts - nTries op"

fun send_fuel :: "nat \<Rightarrow> send_handler \<Rightarrow> nat" where
  "send_fuel h (Handshake_flushed op) = (if hs_handler op = h then 3 * attempts_left op + 3 else 0)"
| "send_fuel h _ = 0"

fun timer_fuel :: "nat \<Rightarrow> timer_handler \<Rightarrow> nat" where
  "timer_fuel h (Handshake_connecting op) = (if hs_handler op = h then 3 * attempts_left op + 2 else 0)"
| "timer_fuel h (Handshake_settling op) = (if hs_handler op = h then 3 * attempts_left op + 1 else 0)"
| "timer_fuel h (Keepalive_waiting n) = 0"

definition wait_fuel :: "nat \<Rightarrow> ('h, 'q, 's) mq \<Rightarrow> nat" where
  "wait_fuel h q = (\<Sum>(t, c) \<leftarrow> pending_waits q. timer_fuel h t)"

definition outbox_fuel :: "nat \<Rightarrow> ('h, 'q, 's) mq \<Rightarrow> nat" where
  "outbox_fuel h q = (\<Sum>(b, k) \<leftarrow> mOutbox q. send_fuel h k)"

definition hs_fuel :: "nat \<Rightarrow> ('h, 'q, 's) mq \<Rightarrow> nat" where
  "hs_fuel h q = wait_fuel h q + outbox_fuel h q"

lemmas fuel_defs = hs_fuel_def wait_fuel_def outbox_fuel_def

lemma wait_fuel_fst: "wait_fuel h q = sum_list (map (timer_fuel h) (map fst (pending_waits q)))"
  by (simp add: wait_fuel_def case_prod_unfold comp_def)

lemma waiting_fuel: "x \<in> set (pending_waits q) \<Longrightarrow> timer_fuel h (fst x) \<le> hs_fuel h q"
  unfolding hs_fuel_def wait_fuel_fst by (intro trans_le_add1 member_le_sum_list) simp_all

lemma same_waits_fuel:
  assumes "same_waits q q'"
  shows "wait_fuel h q' = wait_fuel h q" "outbox_fuel h q' = outbox_fuel h q" "hs_fuel h q' = hs_fuel h q"
    "mOutbox q' = mOutbox q"
  using assms unfolding hs_fuel_def wait_fuel_fst by (simp_all add: same_waits_def outbox_fuel_def)

lemma receives_same_waits: "receives_only q q' \<Longrightarrow> same_waits q q'"
  by (simp add: same_waits_def receives_only_simps)

lemma library_same_waits:
  assumes "only_library E q q'"
  shows "same_waits q q'"
proof -
  have "q' = q\<lparr>mReceiveQueue := mReceiveQueue q', reports := reports q', mWriteBuffer := mWriteBuffer q', mqContext := mqContext q'\<rparr>"
    using assms by (simp add: only_library_def)
  then show ?thesis by (cases q; cases q') (simp add: same_waits_def)
qed

section \<open>Calls that return\<close>

lemma foldR_keeps:
  assumes "foldR f xs s = Inr s'" and "P s" and "\<And>s x s'. P s \<Longrightarrow> f s x = Inr s' \<Longrightarrow> P s'"
  shows "P s'"
  using assms(1,2)
proof (induction xs arbitrary: s)
  case (Cons x xs)
  then obtain s1 where "f s x = Inr s1" "foldR f xs s1 = Inr s'" by (cases "f s x") auto
  with Cons assms(3) show ?case by blast
qed simp

lemma assertR_Inr: "assertR b x = Inr y \<longleftrightarrow> b \<and> x = Inr y"
  by (simp add: assertR_def)

lemma callback_same_waits:
  assumes "pcqueue_laws (eQ E)" and "mq_callback E q ev = Inr q'"
  shows "same_waits q q'"
proof (cases ev)
  case (Deliver_call f bs d)
  with assms produce_library [of E q "(No_error, bs)"] library_same_waits show ?thesis
    by (auto simp: deliverCallback_def split: if_splits)
qed (use assms(2) in \<open>auto simp: writeCallback_def split: if_splits\<close>)

lemma mq_library_same_waits:
  assumes "pcqueue_laws (eQ E)" and "mq_library E f q = Inr q'"
  shows "same_waits q q'"
proof -
  obtain c where "foldR (mq_callback E) (drop (length (trace (mqContext q))) (trace c)) (q\<lparr>mqContext := c\<rparr>) = Inr q'"
    using assms(2) by (auto simp: mq_library_def bindR_eq_Inr)
  then show ?thesis
    by (rule foldR_keeps [where P = "same_waits q"]) (auto intro: callback_same_waits [OF assms(1)] same_waits_trans)
qed

lemma voidReceives_same_waits:
  assumes "pcqueue_laws (eQ E)" and "voidReceives E ec q = Inr q'"
  shows "same_waits q q'"
  using voidReceives_ok [OF assms(1), of ec q] assms(2) receives_same_waits by auto

lemma pumps_same_waits:
  assumes "pcqueue_laws (eQ E)"
  shows "readPump E q = Inr q' \<Longrightarrow> same_waits q q'" "stopReadPump E ec q = Inr q' \<Longrightarrow> same_waits q q'"
    "startReadPump E q = Inr q' \<Longrightarrow> same_waits q q'"
proof -
  have v: "same_waits q r" if "voidReceives E e p = Inr r" "same_waits q p" for e p r
    using voidReceives_same_waits [OF assms that(1)] that(2) by (rule same_waits_trans [rotated])
  have r: "same_waits q r" if "readPump E p = Inr r" "same_waits q p" for p r
    using that v [of _ p] by (auto simp: readPump_def bindR_eq_Inr split: if_splits)
  show "same_waits q q'" if "readPump E q = Inr q'"
    using r [OF that] by simp
  show "same_waits q q'" if "stopReadPump E ec q = Inr q'"
    using that v [of _ q] by (auto simp: stopReadPump_def bindR_eq_Inr Let_def)
  show "same_waits q q'" if "startReadPump E q = Inr q'"
    using that r by (auto simp: startReadPump_def split: if_splits)
qed

text \<open>A wait is added.\<close>

lemma timer_wait_fuel: "mOutbox (timer_wait t q) = mOutbox q" "wait_fuel h (timer_wait t q) = wait_fuel h q + timer_fuel h t"
  by (simp_all add: timer_wait_def Let_def timer_cancel_def wait_fuel_fst comp_def case_prod_unfold)

lemma resume_same_waits: "resume_code E ec q = (r, ec') \<Longrightarrow> same_waits q r"
  using resume_code_cases by fastforce

text \<open>An operation uses no more than its stretch.\<close>

context resumed_operation
begin

lemma fuel:
  assumes "operation E stretch op ec q = Inr q'"
    and "\<And>r. same_waits q r \<Longrightarrow> stretch op r = Inr q' \<Longrightarrow> P q'" and "\<And>r. same_waits q r \<Longrightarrow> P r"
  shows "P q'"
proof -
  obtain r ec' where r: "resume_code E ec q = (r, ec')" by (metis surj_pair)
  have s: "same_waits q r" using resume_same_waits [OF r] .
  show ?thesis
  proof (cases "failed ec'")
    case True
    from completes [OF r True, of stretch op] assms(1) have "same_waits r q'" by auto
    then show ?thesis using assms(3) same_waits_trans [OF s] by blast
  next
    case False
    from goes_on [OF r False, of stretch op] assms(1,2) s show ?thesis by simp
  qed
qed

end

lemma call_handler_fuel:
  assumes laws: "pcqueue_laws (eQ E)" and "call_handler E k ec q = Inr q'"
  shows "mOutbox q' = mOutbox q \<and> wait_fuel h q' \<le> wait_fuel h q + (send_fuel h k - 1)"
proof (cases k)
  case (User_send n)
  then have "same_waits q q'" using assms(2) by auto
  from same_waits_fuel [OF this] show ?thesis by simp
next
  case Pump_flushed
  then have "same_waits q q'" using assms(2) pumps_same_waits [OF laws] by (auto split: if_splits)
  from same_waits_fuel [OF this] show ?thesis by simp
next
  case (Handshake_flushed op)
  show ?thesis
  proof (rule hs.fuel [of E handshake_flushed op ec q q'])
    show "handshake_operation E handshake_flushed op ec q = Inr q'" using assms(2) Handshake_flushed by simp
    show "mOutbox r = mOutbox q \<and> wait_fuel h r \<le> wait_fuel h q + (send_fuel h k - 1)" if "same_waits q r" for r
      using same_waits_fuel [OF that] by simp
    show "mOutbox q' = mOutbox q \<and> wait_fuel h q' \<le> wait_fuel h q + (send_fuel h k - 1)"
      if "same_waits q r" "handshake_flushed op r = Inr q'" for r
      using same_waits_fuel [OF that(1)] that(2) Handshake_flushed
      by (auto simp: handshake_flushed_def timer_wait_fuel split: if_splits)
  qed
next
  case (Keepalive_sent n)
  show ?thesis
  proof (rule ka.fuel [of E keepalive_loop n ec q q'])
    show "keepalive_operation E keepalive_loop n ec q = Inr q'" using assms(2) Keepalive_sent by simp
    show "mOutbox r = mOutbox q \<and> wait_fuel h r \<le> wait_fuel h q + (send_fuel h k - 1)" if "same_waits q r" for r
      using same_waits_fuel [OF that] by simp
    show "mOutbox q' = mOutbox q \<and> wait_fuel h q' \<le> wait_fuel h q + (send_fuel h k - 1)"
      if "same_waits q r" "keepalive_loop n r = Inr q'" for r
      using same_waits_fuel [OF that(1)] that(2)
      by (auto simp: keepalive_loop_def timer_wait_fuel)
  qed
qed

lemma call_handler_hs:
  assumes "pcqueue_laws (eQ E)" and "call_handler E k ec q = Inr q'"
  shows "hs_fuel h q' \<le> hs_fuel h q + send_fuel h k"
  using call_handler_fuel [OF assms, of h] by (auto simp: hs_fuel_def outbox_fuel_def)

section \<open>The outbox\<close>

text \<open>What is left in the outbox when each of its handlers has been called.\<close>

definition spent_fuel :: "nat \<Rightarrow> ('h, 'q, 's) mq \<Rightarrow> nat" where
  "spent_fuel h q = (\<Sum>(b, k) \<leftarrow> mOutbox q. send_fuel h k - 1)"

lemma spent_fuel_le: "spent_fuel h q \<le> outbox_fuel h q"
  unfolding spent_fuel_def outbox_fuel_def by (rule sum_list_mono) auto

lemma void_front_fuel:
  assumes "pcqueue_laws (eQ E)" and "void_front E ec q = Inr q'"
  shows "spent_fuel h q' + wait_fuel h q' \<le> spent_fuel h q + wait_fuel h q"
proof (cases "mOutbox q")
  case (Cons x rest)
  obtain b k where x: "x = (b, k)" by (cases x)
  with assms(2) Cons have "call_handler E k ec (q\<lparr>mOutbox := rest\<rparr>) = Inr q'" by (simp add: void_front_def)
  from call_handler_fuel [OF assms(1) this, of h] Cons x show ?thesis
    by (simp add: spent_fuel_def wait_fuel_def)
qed (use assms(2) in \<open>simp add: void_front_def\<close>)

lemma loopR_keeps:
  assumes "loopR going f x = Inr y" and "P x" and "\<And>x. P x \<Longrightarrow> going x \<Longrightarrow> P (f x)"
  shows "P y \<and> \<not> going y"
proof -
  have y: "while_option going f x = Some y" using assms(1) by (simp add: loopR_def split: option.splits)
  show ?thesis using while_option_rule [where P = P, OF _ y] while_option_stop [OF y] assms(2,3) by blast
qed

lemma voidOutbox_fuel:
  fixes q :: "('h, 'q, 's) mq"
  assumes "pcqueue_laws (eQ E)" and "voidOutbox E ec q = Inr q'"
  shows "hs_fuel h q' \<le> spent_fuel h q + wait_fuel h q"
proof -
  let ?P = "\<lambda>r :: ('h, 'q, 's) mq res. \<forall>s. r = Inr s \<longrightarrow> spent_fuel h s + wait_fuel h s \<le> spent_fuel h q + wait_fuel h q"
  let ?going = "\<lambda>r :: ('h, 'q, 's) mq res. case r of Inl e \<Rightarrow> False | Inr q \<Rightarrow> mOutbox q \<noteq> []"
  have "loopR ?going (\<lambda>r. bindR r (void_front E ec)) (Inr q) = Inr (Inr q')"
    using assms(2) by (auto simp: voidOutbox_def bindR_eq_Inr)
  then have "?P (Inr q') \<and> \<not> ?going (Inr q')"
    by (rule loopR_keeps [where P = ?P])
      (auto simp: bindR_eq_Inr dest: void_front_fuel [OF assms(1), where h = h] order_trans)
  then show ?thesis by (simp add: hs_fuel_def outbox_fuel_def)
qed

lemma writePump_fuel:
  assumes "pcqueue_laws (eQ E)" and "writePump E q = Inr q'"
  shows "hs_fuel h q' \<le> hs_fuel h q"
proof (cases "mOutbox q = [] \<or> is_open E q")
  case True
  then have "same_waits q q'" using assms(2) by (auto simp: writePump_def split: list.splits if_splits)
  from same_waits_fuel [OF this] show ?thesis by simp
next
  case False
  then have "voidOutbox E (Asio Network_down) q = Inr q'" using assms(2) by (auto simp: writePump_def split: list.splits)
  from voidOutbox_fuel [OF assms(1) this, of h] spent_fuel_le [of h q] show ?thesis by (simp add: hs_fuel_def)
qed

lemma flushWriteBuffer_fuel:
  assumes "pcqueue_laws (eQ E)" and "flushWriteBuffer E k q = Inr q'"
  shows "hs_fuel h q' \<le> hs_fuel h q + send_fuel h k"
proof (cases "mWriteBuffer q = []")
  case True
  with assms(2) have "call_handler E k No_error q = Inr q'" by (simp add: flushWriteBuffer_def)
  from call_handler_hs [OF assms(1) this] show ?thesis .
next
  case False
  let ?q = "q\<lparr>mOutbox := mOutbox q @ [(mWriteBuffer q, k)], mWriteBuffer := []\<rparr>"
  have "hs_fuel h q' \<le> hs_fuel h ?q"
    using False assms(2) writePump_fuel [OF assms(1), of ?q q' h]
    by (auto simp: flushWriteBuffer_def Let_def split: if_splits)
  then show ?thesis by (simp add: fuel_defs)
qed

section \<open>Calls and completions\<close>

lemma handshake_attempt_fuel:
  assumes "pcqueue_laws (eQ E)" and "handshake_attempt E op q = Inr q'"
  shows "hs_fuel h q' \<le> hs_fuel h q + (if hs_handler op = h then 3 * attempts_left op else 0)"
proof (cases "nTries op > kSfpMaxHandshakeAttempts")
  case True
  then have "same_waits q q'"
    using assms(2) by (auto simp: handshake_attempt_def kSfpMaxHandshakeAttempts_def complete_handshake_def)
  from same_waits_fuel [OF this] show ?thesis by simp
next
  case False
  then obtain q1 where q1: "mq_library E (sfpConnect (eR E)) q = Inr q1"
    "flushWriteBuffer E (Handshake_flushed (op\<lparr>nTries := Suc (nTries op)\<rparr>)) q1 = Inr q'"
    using assms(2) by (auto simp: handshake_attempt_def bindR_eq_Inr)
  have "attempts_left op = Suc (attempts_left (op\<lparr>nTries := Suc (nTries op)\<rparr>))"
    using False by (simp add: attempts_left_def Suc_diff_le)
  with flushWriteBuffer_fuel [OF assms(1) q1(2), of h] same_waits_fuel [OF mq_library_same_waits [OF assms(1) q1(1)]]
  show ?thesis by (auto split: if_splits)
qed

lemma handshake_begin_fuel:
  assumes laws: "pcqueue_laws (eQ E)" and "handshake_begin E op q = Inr q'"
  shows "hs_fuel h q' \<le> hs_fuel h q + (if hs_handler op = h then 3 * attempts_left op else 0)"
proof -
  obtain q1 c q2 where q: "voidReceives E (Asio Operation_aborted) (q\<lparr>mHandshakeComplete := False\<rparr>) = Inr q1"
    "startReadPump E (q1\<lparr>mWriteBuffer := [], mqContext := c\<rparr>) = Inr q2" "handshake_attempt E op q2 = Inr q'"
    using assms(2) by (auto simp: handshake_begin_def Let_def bindR_eq_Inr)
  have "same_waits q q1" using same_waits_trans [OF _ voidReceives_same_waits [OF laws q(1)], of q] by simp
  then have "same_waits q q2" using same_waits_trans [OF _ pumps_same_waits(3) [OF laws q(2)], of q] by simp
  from same_waits_fuel [OF this] handshake_attempt_fuel [OF laws q(3), of h] show ?thesis by simp
qed

lemma asyncSend_fuel:
  assumes laws: "pcqueue_laws (eQ E)" and "asyncSend E stack bs k q = Inr q'"
  shows "hs_fuel h q' \<le> hs_fuel h q + send_fuel h k"
proof -
  obtain r ec where r: "getReadPumpError E q = (r, ec)" by (metis surj_pair)
  then have s: "same_waits q r" by (auto simp: getReadPumpError_def Let_def)
  show ?thesis
  proof (cases "failed ec")
    case True
    then have "call_handler E k ec r = Inr q'" using assms(2) r by (simp add: asyncSend_def assertR_Inr)
    from call_handler_hs [OF laws this, of h] same_waits_fuel [OF s] show ?thesis by simp
  next
    case False
    then obtain f q1 where q1: "mq_library E f r = Inr q1" "flushWriteBuffer E k q1 = Inr q'"
      using assms(2) r by (auto simp: asyncSend_def assertR_Inr bindR_eq_Inr)
    from flushWriteBuffer_fuel [OF laws q1(2), of h] same_waits_fuel [OF mq_library_same_waits [OF laws q1(1)]]
      same_waits_fuel [OF s] show ?thesis by simp
  qed
qed

lemma call_timer_fuel:
  assumes laws: "pcqueue_laws (eQ E)" and "call_timer E stack t ec q = Inr q'"
  shows "hs_fuel h q' \<le> hs_fuel h q + (timer_fuel h t - 1)"
proof (cases t)
  case (Handshake_connecting op)
  show ?thesis
  proof (rule hs.fuel [of E "handshake_waited E" op ec q q'])
    show "handshake_operation E (handshake_waited E) op ec q = Inr q'" using assms(2) Handshake_connecting by simp
    show "hs_fuel h r \<le> hs_fuel h q + (timer_fuel h t - 1)" if "same_waits q r" for r
      using same_waits_fuel [OF that] by simp
    show "hs_fuel h q' \<le> hs_fuel h q + (timer_fuel h t - 1)" if "same_waits q r" "handshake_waited E op r = Inr q'" for r
      using same_waits_fuel [OF that(1)] that(2) Handshake_connecting handshake_attempt_fuel [OF laws, of op r q' h]
        timer_wait_fuel [where t = "Handshake_settling op" and q = r]
      by (auto simp: handshake_waited_def hs_fuel_def outbox_fuel_def split: if_splits)
  qed
next
  case (Handshake_settling op)
  show ?thesis
  proof (rule hs.fuel [of E "handshake_settle E" op ec q q'])
    show "handshake_operation E (handshake_settle E) op ec q = Inr q'" using assms(2) Handshake_settling by simp
    show "hs_fuel h r \<le> hs_fuel h q + (timer_fuel h t - 1)" if "same_waits q r" for r
      using same_waits_fuel [OF that] by simp
    show "hs_fuel h q' \<le> hs_fuel h q + (timer_fuel h t - 1)" if r: "same_waits q r" "handshake_settle E op r = Inr q'" for r
    proof (cases "sfpIsConnected (mqContext r)")
      case True
      then have "same_waits q q'" using r by (auto simp: handshake_settle_def complete_handshake_def)
      from same_waits_fuel [OF this] show ?thesis by simp
    next
      case False
      then have "handshake_attempt E op r = Inr q'" using r by (simp add: handshake_settle_def)
      from handshake_attempt_fuel [OF laws this, of h] same_waits_fuel [OF r(1)] Handshake_settling show ?thesis by auto
    qed
  qed
next
  case (Keepalive_waiting n)
  show ?thesis
  proof (rule ka.fuel [of E "keepalive_waited E stack" n ec q q'])
    show "keepalive_operation E (keepalive_waited E stack) n ec q = Inr q'" using assms(2) Keepalive_waiting by simp
    show "hs_fuel h r \<le> hs_fuel h q + (timer_fuel h t - 1)" if "same_waits q r" for r
      using same_waits_fuel [OF that] by simp
    show "hs_fuel h q' \<le> hs_fuel h q + (timer_fuel h t - 1)" if "same_waits q r" "keepalive_waited E stack n r = Inr q'" for r
      using same_waits_fuel [OF that(1)] asyncSend_fuel [OF laws, of stack "[]" "Keepalive_sent n" r q' h] that(2)
      by (simp add: keepalive_waited_def)
  qed
qed

lemma handleRead_fuel:
  assumes laws: "pcqueue_laws (eQ E)" and "handleRead E ec octets q = Inr q'"
  shows "hs_fuel h q' \<le> hs_fuel h q"
proof (cases "failed ec")
  case True
  then have "stopReadPump E ec q = Inr q'" using assms(2) by (simp add: handleRead_def)
  from same_waits_fuel [OF pumps_same_waits(2) [OF laws this]] show ?thesis by simp
next
  case False
  then obtain q1 where q1: "foldR (mq_deliver E) octets q = Inr q1" "flushWriteBuffer E Pump_flushed q1 = Inr q'"
    using assms(2) by (auto simp: handleRead_def bindR_eq_Inr)
  have "same_waits q q1"
    by (rule foldR_keeps [where P = "same_waits q", OF q1(1)])
      (auto simp: mq_deliver_def intro: mq_library_same_waits [OF laws] same_waits_trans)
  from same_waits_fuel [OF this] flushWriteBuffer_fuel [OF laws q1(2), of h] show ?thesis by simp
qed

lemma handleWrite_fuel:
  assumes laws: "pcqueue_laws (eQ E)" and "handleWrite E ec n q = Inr q'" and o: "mOutbox q = (b, k) # rest"
  shows "hs_fuel h q' + (if send_fuel h k = 0 then 0 else 1) \<le> hs_fuel h q"
proof (cases "failed ec")
  case True
  then obtain q1 where q1: "voidOutbox E ec q = Inr q1" "same_waits q1 q'"
    using assms(2) by (auto simp: handleWrite_def bindR_eq_Inr)
  have "hs_fuel h q' \<le> spent_fuel h q + wait_fuel h q"
    using voidOutbox_fuel [OF laws q1(1), of h] same_waits_fuel(3) [OF q1(2)] by simp
  moreover have "spent_fuel h q + (if send_fuel h k = 0 then 0 else 1) \<le> outbox_fuel h q"
    using spent_fuel_le [of h "q\<lparr>mOutbox := rest\<rparr>"] o by (simp add: spent_fuel_def outbox_fuel_def)
  ultimately show ?thesis by (simp add: hs_fuel_def)
next
  case False
  then obtain q1 where q1: "call_handler E k ec (q\<lparr>mOutbox := rest\<rparr>) = Inr q1" "writePump E q1 = Inr q'"
    using assms(2) o by (auto simp: handleWrite_def handleWrite_done_def bindR_eq_Inr assertR_Inr)
  from call_handler_fuel [OF laws q1(1), of h] writePump_fuel [OF laws q1(2), of h] o show ?thesis
    by (auto simp: hs_fuel_def outbox_fuel_def wait_fuel_def)
qed

text \<open>The completion resumes the handshake with the handler \<open>h\<close>.\<close>

fun resumes :: "nat \<Rightarrow> ('h, 'q, 's) mq \<Rightarrow> action \<Rightarrow> bool" where
  "resumes h q (Write_done ec n) \<longleftrightarrow> mOutbox q \<noteq> [] \<and> For_handshake h \<in># send_ticket (snd (hd (mOutbox q)))"
| "resumes h q (Timer_done i ec stack) \<longleftrightarrow> For_handshake h \<in># timer_ticket (fst (pending_waits q ! i))"
| "resumes h q _ \<longleftrightarrow> False"

primrec resumptions :: "('h, 'q, 's) env \<Rightarrow> nat \<Rightarrow> ('h, 'q, 's) mq \<Rightarrow> action list \<Rightarrow> nat" where
  "resumptions E h q [] = 0"
| "resumptions E h q (a # as) =
     (if resumes h q a then 1 else 0) + (case perform E q a of Inl e \<Rightarrow> 0 | Inr r \<Rightarrow> resumptions E h r as)"

lemma fuel_ticket:
  "send_fuel h k = 0 \<longleftrightarrow> For_handshake h \<notin># send_ticket k" "timer_fuel h t = 0 \<longleftrightarrow> For_handshake h \<notin># timer_ticket t"
  by (cases k; auto) (cases t; auto)

lemma perform_fuel:
  assumes laws: "pcqueue_laws (eQ E)" and "enabled q a" and p: "perform E q a = Inr q'"
  shows "hs_fuel h q' + (if resumes h q a then 1 else 0)
    \<le> hs_fuel h q + (if a = Do_handshake h then 3 * Suc kSfpMaxHandshakeAttempts else 0)"
proof (cases a)
  case (Do_handshake n)
  show ?thesis
  proof (rule hs.fuel [of E "handshake_begin E" "\<lparr>nTries = 0, rc = Asio Operation_aborted, hs_handler = n\<rparr>" No_error q q'])
    show "handshake_operation E (handshake_begin E) \<lparr>nTries = 0, rc = Asio Operation_aborted, hs_handler = n\<rparr> No_error q = Inr q'"
      using p Do_handshake by (simp add: asyncHandshake_def)
    show "hs_fuel h r + (if resumes h q a then 1 else 0)
        \<le> hs_fuel h q + (if a = Do_handshake h then 3 * Suc kSfpMaxHandshakeAttempts else 0)" if "same_waits q r" for r
      using same_waits_fuel [OF that] Do_handshake by simp
    show "hs_fuel h q' + (if resumes h q a then 1 else 0)
        \<le> hs_fuel h q + (if a = Do_handshake h then 3 * Suc kSfpMaxHandshakeAttempts else 0)"
      if "same_waits q r" "handshake_begin E \<lparr>nTries = 0, rc = Asio Operation_aborted, hs_handler = n\<rparr> r = Inr q'" for r
      using same_waits_fuel [OF that(1)] handshake_begin_fuel [OF laws that(2), of h] Do_handshake
      by (auto simp: attempts_left_def split: if_splits)
  qed
next
  case (Do_keepalive n)
  show ?thesis
  proof (rule ka.fuel [of E keepalive_loop n No_error q q'])
    show "keepalive_operation E keepalive_loop n No_error q = Inr q'"
      using p Do_keepalive by (simp add: asyncKeepalive_def assertR_Inr)
    show "hs_fuel h r + (if resumes h q a then 1 else 0)
        \<le> hs_fuel h q + (if a = Do_handshake h then 3 * Suc kSfpMaxHandshakeAttempts else 0)" if "same_waits q r" for r
      using same_waits_fuel [OF that] Do_keepalive by simp
    show "hs_fuel h q' + (if resumes h q a then 1 else 0)
        \<le> hs_fuel h q + (if a = Do_handshake h then 3 * Suc kSfpMaxHandshakeAttempts else 0)"
      if "same_waits q r" "keepalive_loop n r = Inr q'" for r
      using same_waits_fuel [OF that(1)] that(2) Do_keepalive
      by (auto simp: keepalive_loop_def timer_wait_fuel hs_fuel_def outbox_fuel_def)
  qed
next
  case (Do_send stack bs n)
  with asyncSend_fuel [OF laws, of stack bs "User_send n" q q' h] p show ?thesis by simp
next
  case (Do_receive room n)
  obtain r ec where r: "getReadPumpError E q = (r, ec)" by (metis surj_pair)
  then have "same_waits q r" by (auto simp: getReadPumpError_def Let_def)
  moreover have "same_waits r (mq_consume E (Receive room n) r)"
    using consume_ok [OF laws, of r "Receive room n"] receives_same_waits by blast
  ultimately have "same_waits q q'"
    using p r Do_receive same_waits_trans by (auto simp: asyncReceive_def assertR_Inr split: if_splits)
  from same_waits_fuel [OF this] Do_receive show ?thesis by simp
next
  case Do_close
  then have "same_waits q q'" using p by auto
  from same_waits_fuel [OF this] Do_close show ?thesis by simp
next
  case (Read_done ec octets)
  with p handleRead_fuel [OF laws, of ec octets "q\<lparr>pending_reads := pending_reads q - 1\<rparr>" q' h]
    same_waits_fuel(3) [of q "q\<lparr>pending_reads := pending_reads q - 1\<rparr>"]
  show ?thesis by simp
next
  case (Write_done ec n)
  let ?q = "q\<lparr>pending_writes := tl (pending_writes q)\<rparr>"
  have eq: "hs_fuel h ?q = hs_fuel h q" by (rule same_waits_fuel(3)) simp
  show ?thesis
  proof (cases "mOutbox q")
    case Nil
    then have "failed ec" "same_waits q q'"
      using p Write_done
      by (auto simp: handleWrite_def handleWrite_done_def bindR_eq_Inr voidOutbox_def loopR_def while_option_unfold split: if_splits)
    from same_waits_fuel [OF this(2)] Nil Write_done show ?thesis by simp
  next
    case (Cons x rest)
    obtain b k where x: "x = (b, k)" by (cases x)
    from handleWrite_fuel [OF laws, of ec n ?q q' b k rest h] Cons x p Write_done eq show ?thesis
      by (auto simp: fuel_ticket split: if_splits)
  qed
next
  case (Timer_done i ec stack)
  let ?q = "q\<lparr>pending_waits := take i (pending_waits q) @ drop (Suc i) (pending_waits q)\<rparr>"
  let ?t = "fst (pending_waits q ! i)"
  have "i < length (pending_waits q)" using assms(2) Timer_done by simp
  from id_take_nth_drop [OF this] have w: "pending_waits q = take i (pending_waits q) @ pending_waits q ! i # drop (Suc i) (pending_waits q)" .
  have "wait_fuel h q = wait_fuel h ?q + timer_fuel h ?t"
    by (simp add: wait_fuel_fst) (subst w, simp)
  then have "hs_fuel h q = hs_fuel h ?q + timer_fuel h ?t"
    by (simp add: hs_fuel_def outbox_fuel_def)
  with call_timer_fuel [OF laws, of stack ?t ec ?q q' h] p Timer_done fuel_ticket(2) [of h ?t] show ?thesis
    by (auto split: if_splits)
qed

section \<open>Termination\<close>

lemma mq_run_fuel:
  assumes "mq_run E q as s" and "pcqueue_laws (eQ E)"
  shows "hs_fuel h s + resumptions E h q as
    \<le> hs_fuel h q + 3 * Suc kSfpMaxHandshakeAttempts * count_list as (Do_handshake h)"
  using assms(1)
proof (induction rule: mq_run.induct)
  case (another q a r as s)
  with perform_fuel [OF assms(2) another.hyps(1,2), of h] show ?case by (auto split: if_splits)
qed simp

lemma idle_fuel: "mq_idle E q \<Longrightarrow> hs_fuel h q = 0"
  by (simp add: mq_idle_def fuel_defs)

lemma in_bag: "x \<in># bag f xs \<longleftrightarrow> (\<exists>y \<in> set xs. x \<in># f y)"
  by (induction xs) auto

lemma consumer_no_handshake: "For_handshake h \<notin># bag consumer_ticket ks"
proof -
  have "For_handshake h \<notin># consumer_ticket k" for k by (cases k) simp_all
  then show ?thesis by (simp add: in_bag)
qed

lemma waiting_handshake:
  assumes "For_handshake h \<in># waiting_handlers E q"
  shows "hs_fuel h q \<noteq> 0" and "mOutbox q \<noteq> [] \<or> pending_waits q \<noteq> []"
proof -
  have "(\<exists>x \<in> set (mOutbox q). For_handshake h \<in># send_ticket (snd x))
      \<or> (\<exists>x \<in> set (pending_waits q). For_handshake h \<in># timer_ticket (fst x))"
    using assms consumer_no_handshake by (auto simp: waiting_handlers_def in_bag)
  then have "(\<exists>x \<in> set (mOutbox q). send_fuel h (snd x) \<noteq> 0) \<or> (\<exists>x \<in> set (pending_waits q). timer_fuel h (fst x) \<noteq> 0)"
    by (simp add: fuel_ticket)
  then show "hs_fuel h q \<noteq> 0" "mOutbox q \<noteq> [] \<or> pending_waits q \<noteq> []"
    unfolding fuel_defs case_prod_unfold by auto
qed

text \<open>
  C38. The handshake of the message queue terminates, whatever the peer sends and whatever
  the stream and the timer report: in any run, the operations of a handler are resumed at
  most 153 times for each time one was started - at most 51 attempts with three suspensions
  -; after that many resumptions all of them have completed; and as long as one waits, it waits for a write or
  for the timer, so that a completion will resume it.
\<close>

theorem handshake_terminates:
  assumes "env_ok E" and "mq_idle E q" and "mq_run E q as s"
  shows "resumptions E h q as \<le> 3 * Suc kSfpMaxHandshakeAttempts * count_list as (Do_handshake h)
    \<and> (resumptions E h q as = 3 * Suc kSfpMaxHandshakeAttempts * count_list as (Do_handshake h)
        \<longrightarrow> For_handshake h \<notin># waiting_handlers E s)
    \<and> (For_handshake h \<in># waiting_handlers E s \<longrightarrow> pending_writes s \<noteq> [] \<or> pending_waits s \<noteq> [])"
proof -
  have fuel: "hs_fuel h s + resumptions E h q as \<le> 3 * Suc kSfpMaxHandshakeAttempts * count_list as (Do_handshake h)"
    using mq_run_fuel [OF assms(3), of h] idle_fuel [OF assms(2), of h] assms(1) by (simp add: env_ok_def)
  have "mq_good E s" using mq_run_good [OF assms(3,1)] assms(2) by (simp add: mq_good_def)
  then have "mOutbox s \<noteq> [] \<Longrightarrow> pending_writes s \<noteq> []"
    using good_pumps [of E s] by (cases "mOutbox s") (auto simp: pumps_ok_def front_written_def)
  with fuel waiting_handshake [of h E s] show ?thesis by auto
qed

end
