(* ===== verification/Sfp_QueueFaults.thy ===== *)
theory Sfp_QueueFaults
  imports Sfp_QueueHandshake
begin

text \<open>
  The handshake of the message queue with a peer that never answers, two ways for a client
  to break the queue, and the examples of its properties.
\<close>

section \<open>An attempt\<close>

definition syn0_octets :: "u8 list" where
  "syn0_octets = wire [SYN SFP_SEQ_SYN0]"

lemma frame_octets_nonempty [simp]: "frame_octets hdr bs \<noteq> []"
  using length_frame_octets [of bs hdr] by auto

lemma wire_empty [simp]: "wire fs = [] \<longleftrightarrow> fs = []"
  by (cases fs) auto

lemma syn0_nonempty [simp]: "syn0_octets \<noteq> []"
  by (simp add: syn0_octets_def del: wire_simps)

lemma only_library_more:
  assumes "only_library E q q'"
  shows "pending_waits q' = pending_waits q" "mReadPumpError q' = mReadPumpError q" "mStream q' = mStream q"
    "mReadPumpRunning q' = mReadPumpRunning q" "pending_reads q' = pending_reads q"
proof -
  have q': "q' = q\<lparr>mReceiveQueue := mReceiveQueue q', reports := reports q', mWriteBuffer := mWriteBuffer q', mqContext := mqContext q'\<rparr>"
    using assms by (simp add: only_library_def)
  show "pending_waits q' = pending_waits q" "mReadPumpError q' = mReadPumpError q" "mStream q' = mStream q"
    "mReadPumpRunning q' = mReadPumpRunning q" "pending_reads q' = pending_reads q"
    by (subst q', simp)+
qed

lemma attempt_sends:
  assumes laws: "pcqueue_laws (eQ E)" and "ready E q" and "mOutbox q = []" and "mWriteBuffer q = []" and "is_open E q"
    and "nTries op \<le> kSfpMaxHandshakeAttempts"
  obtains q1 where
    "handshake_attempt E op q = Inr (q1\<lparr>mOutbox := [(syn0_octets, Handshake_flushed (op\<lparr>nTries := Suc (nTries op)\<rparr>))],
       mWriteBuffer := [], pending_writes := pending_writes q @ [syn0_octets]\<rparr>)"
    "only_library E q q1" "ready E q1" "\<not> sfpIsConnected (mqContext q1)"
proof -
  have si: "sfp_inv (eR E) (mqContext q)" using assms(2) by (simp add: ready_def)
  obtain c' where c': "sfpConnect (eR E) (mqContext q) = Inr c'" "sfp_inv (eR E) c'"
    "reacts (eR E) (mqContext q) c' (fst (on_connect (abs_endpoint (eR E) (mqContext q)))) [SYN SFP_SEQ_SYN0] []"
    using connect_inv [OF si] by (auto simp: on_connect_def)
  from mq_library_ok [where f = "sfpConnect (eR E)", OF laws assms(2) c'(1,3,2)] obtain q1 where
    q1: "mq_library E (sfpConnect (eR E)) q = Inr q1" "only_library E q q1" "ready E q1" "mqContext q1 = c'"
      "mWriteBuffer q1 = mWriteBuffer q @ syn0_octets"
    unfolding syn0_octets_def by blast
  have "conn (abs_endpoint (eR E) c') = SFP_CONNECT_STATE_SENT_SYN0"
    using reacts_seen(3) [OF c'(3)] by (simp add: on_connect_def)
  then have "\<not> sfpIsConnected c'" by (simp add: sfpIsConnected_def endpoint_simps)
  with q1 assms that [of q1] only_library_simps [OF q1(2)] show ?thesis
    by (simp add: handshake_attempt_def flushWriteBuffer_def writePump_def is_open_def)
qed

section \<open>A peer that never answers\<close>

text \<open>The \<open>n\<close>-th SYN0 of the handshake with the handler \<open>h\<close> is being written.\<close>

definition attempting :: "('h, 'q, 's) env \<Rightarrow> nat \<Rightarrow> nat \<Rightarrow> ('h, 'q, 's) mq \<Rightarrow> bool" where
  "attempting E h n q \<longleftrightarrow> ready E q \<and> \<not> sfpIsConnected (mqContext q) \<and> is_open E q \<and> mReadPumpError q = No_error
     \<and> mOutbox q = [(syn0_octets, Handshake_flushed \<lparr>nTries = n, rc = Asio Operation_aborted, hs_handler = h\<rparr>)]
     \<and> pending_writes q = [syn0_octets] \<and> pending_waits q = [] \<and> mWriteBuffer q = []"

text \<open>The write ends, and the wait for the connection expires.\<close>

definition silent_round :: "('h, 'q, 's) env \<Rightarrow> u8 list \<Rightarrow> ('h, 'q, 's) mq \<Rightarrow> ('h, 'q, 's) mq res" where
  "silent_round E stack q =
     bindR (perform E q (Write_done No_error (length (hd (pending_writes q)))))
       (\<lambda>q. perform E q (Timer_done 0 No_error stack))"

lemma attempt_attempting:
  assumes "pcqueue_laws (eQ E)" and "ready E q" and "mOutbox q = []" and "mWriteBuffer q = []" and "is_open E q"
    and "n \<le> kSfpMaxHandshakeAttempts" and "pending_writes q = []" and "pending_waits q = []" and "mReadPumpError q = No_error"
  shows "\<exists>q'. handshake_attempt E \<lparr>nTries = n, rc = Asio Operation_aborted, hs_handler = h\<rparr> q = Inr q'
    \<and> attempting E h (Suc n) q'"
proof -
  have n: "nTries \<lparr>nTries = n, rc = Asio Operation_aborted, hs_handler = h\<rparr> \<le> kSfpMaxHandshakeAttempts"
    using assms(6) by simp
  obtain q1 where q1: "handshake_attempt E \<lparr>nTries = n, rc = Asio Operation_aborted, hs_handler = h\<rparr> q =
      Inr (q1\<lparr>mOutbox := [(syn0_octets, Handshake_flushed \<lparr>nTries = Suc n, rc = Asio Operation_aborted, hs_handler = h\<rparr>)],
       mWriteBuffer := [], pending_writes := [syn0_octets]\<rparr>)"
    "only_library E q q1" "ready E q1" "\<not> sfpIsConnected (mqContext q1)"
    by (rule attempt_sends [OF assms(1-5) n]) (auto simp: assms(7))
  have "ready E (q1\<lparr>mOutbox := o1, mWriteBuffer := [], pending_writes := w1\<rparr>) = ready E q1" for o1 w1
    by (simp add: ready_def)
  with q1 only_library_more [OF q1(2)] assms(5,8,9) show ?thesis
    by (simp add: attempting_def is_open_def)
qed

lemma round_attempts:
  assumes "attempting E h n q"
  obtains q' where
    "silent_round E stack q = handshake_attempt E \<lparr>nTries = n, rc = Asio Operation_aborted, hs_handler = h\<rparr> q'"
    "ready E q'" "mOutbox q' = []" "mWriteBuffer q' = []" "is_open E q'" "pending_writes q' = []" "pending_waits q' = []"
    "mReadPumpError q' = No_error" "mqContext q' = mqContext q"
proof -
  let ?op = "\<lparr>nTries = n, rc = Asio Operation_aborted, hs_handler = h\<rparr>"
  let ?q = "q\<lparr>pending_writes := [], mOutbox := [], pending_waits := [], mReadPumpError := No_error\<rparr>"
  have "perform E q (Write_done No_error (length (hd (pending_writes q))))
      = Inr (q\<lparr>pending_writes := [], mOutbox := [], mReadPumpError := No_error, pending_waits := [(Handshake_connecting ?op, False)]\<rparr>)"
    using assms
    by (simp add: attempting_def handleWrite_def handleWrite_done_def handshake_operation_def resume_code_def
        getReadPumpError_def Let_def is_open_def handshake_flushed_def timer_wait_def timer_cancel_def writePump_def
        assertR_def)
  then have "silent_round E stack q = handshake_attempt E ?op ?q"
    using assms
    by (simp add: silent_round_def attempting_def handshake_operation_def resume_code_def getReadPumpError_def Let_def
        is_open_def handshake_waited_def)
  then show ?thesis
    using assms that [of ?q] by (simp add: attempting_def is_open_def ready_def)
qed

text \<open>\<open>Suc kSfpMaxHandshakeAttempts\<close> attempts are made before the operation gives up.\<close>

fun silent_peer :: "('h, 'q, 's) env \<Rightarrow> u8 list \<Rightarrow> nat \<Rightarrow> nat \<Rightarrow> ('h, 'q, 's) mq \<Rightarrow> ('h, 'q, 's) mq res" where
  "silent_peer E stack h 0 q = perform E q (Do_handshake h)"
| "silent_peer E stack h (Suc n) q = bindR (silent_peer E stack h n q) (silent_round E stack)"

text \<open>The handshake up to its first attempt, whether the read pump runs already or not.\<close>

lemma begin_attempt:
  assumes env: "env_ok E" and mem: "memory_ok (eR E) (mqContext q)" and opn: "is_open E q" and e: "mReadPumpError q = No_error"
  obtains q2 where
    "asyncHandshake E h q = handshake_attempt E \<lparr>nTries = 0, rc = Asio Operation_aborted, hs_handler = h\<rparr> q2"
    "ready E q2" "is_open E q2" "mOutbox q2 = mOutbox q" "mWriteBuffer q2 = []" "pending_writes q2 = pending_writes q"
    "pending_waits q2 = pending_waits q" "mReadPumpError q2 = No_error" "\<not> mHandshakeComplete q2"
proof -
  let ?q = "q\<lparr>mReadPumpError := No_error, mHandshakeComplete := False\<rparr>"
  have laws: "pcqueue_laws (eQ E)" "ringbuffer_laws (eR E)" using env by (simp_all add: env_ok_def)
  obtain q1 where q1: "voidReceives E (Asio Operation_aborted) ?q = Inr q1" "receives_only ?q q1"
    using voidReceives_ok [OF laws(1)] by blast
  let ?c = "sfpSetDeliverCallback (sfpSetWriteCallback (sfpInit (mqContext q1)) (Some addr_writeCallback) (Some (mq_address q1)))
      (Some addr_deliverCallback) (Some (mq_address q1))"
  let ?q1 = "q1\<lparr>mWriteBuffer := [], mqContext := ?c\<rparr>"
  let ?q2 = "if mReadPumpRunning q1 then ?q1
    else ?q1\<lparr>mReadPumpRunning := True, mReadPumpError := No_error, pending_reads := Suc (pending_reads q1)\<rparr>"
  note same = receives_only_simps [OF q1(2)]
  have "memory_ok (eR E) (mqContext q1)" using mem same(1) by (simp add: kept_def)
  then have "sfp_inv (eR E) ?c" using setters_inv(2) [OF init_inv [OF laws(2)]] by simp
  then have "ready E ?q2" by (simp add: ready_def callbacks_def mq_callbacks_def setup_defs)
  moreover have "is_open E ?q2" using same(7) opn by (simp add: is_open_def)
  moreover have "mOutbox ?q2 = mOutbox q" "mWriteBuffer ?q2 = []" "pending_writes ?q2 = pending_writes q"
    "pending_waits ?q2 = pending_waits q" "mReadPumpError ?q2 = No_error" "\<not> mHandshakeComplete ?q2"
    using same(1,2,3,6) e by (simp_all add: kept_def)
  moreover have "asyncHandshake E h q = handshake_attempt E \<lparr>nTries = 0, rc = Asio Operation_aborted, hs_handler = h\<rparr> ?q2"
    using opn e q1(1) same(5,7)
    by (simp add: asyncHandshake_def handshake_operation_def resume_code_def getReadPumpError_def Let_def
        handshake_begin_def startReadPump_def readPump_def is_open_def)
  ultimately show ?thesis using that [of ?q2] by blast
qed

lemma idle_handshake:
  assumes env: "env_ok E" and idle: "mq_idle E q" and "is_open E q" and "mReadPumpError q = No_error"
  shows "\<exists>q'. perform E q (Do_handshake h) = Inr q' \<and> attempting E h 1 q'"
proof -
  have mem: "memory_ok (eR E) (mqContext q)" and laws: "pcqueue_laws (eQ E)"
    using idle env by (simp_all add: mq_idle_def env_ok_def)
  obtain q2 where q2: "asyncHandshake E h q = handshake_attempt E \<lparr>nTries = 0, rc = Asio Operation_aborted, hs_handler = h\<rparr> q2"
    "ready E q2" "is_open E q2" "mOutbox q2 = []" "mWriteBuffer q2 = []" "pending_writes q2 = []" "pending_waits q2 = []"
    "mReadPumpError q2 = No_error"
    by (rule begin_attempt [OF env mem assms(3,4), where h = h]) (use idle in \<open>auto simp: mq_idle_def\<close>)
  from attempt_attempting [OF laws q2(2,4,5,3) _ q2(6-8), of 0 h] q2(1) show ?thesis by simp
qed

lemma silent_peer_attempts:
  assumes "env_ok E" and "mq_idle E q" and "is_open E q" and "mReadPumpError q = No_error"
    and "n \<le> kSfpMaxHandshakeAttempts"
  shows "\<exists>q'. silent_peer E stack h n q = Inr q' \<and> attempting E h (Suc n) q'"
  using assms(5)
proof (induction n)
  case 0
  with idle_handshake [OF assms(1-4)] show ?case by simp
next
  case (Suc n)
  then obtain r where r: "silent_peer E stack h n q = Inr r" "attempting E h (Suc n) r" by auto
  obtain r' where r': "silent_round E stack r = handshake_attempt E \<lparr>nTries = Suc n, rc = Asio Operation_aborted, hs_handler = h\<rparr> r'"
    "ready E r'" "mOutbox r' = []" "mWriteBuffer r' = []" "is_open E r'" "pending_writes r' = []" "pending_waits r' = []"
    "mReadPumpError r' = No_error"
    by (rule round_attempts [OF r(2), where stack = stack])
  have "pcqueue_laws (eQ E)" using assms(1) by (simp add: env_ok_def)
  from attempt_attempting [OF this r'(2-5) Suc.prems r'(6-8)] r(1) r'(1) show ?case by simp
qed

lemma silent_peer_gives_up:
  assumes "env_ok E" and "mq_idle E q" and "is_open E q" and "mReadPumpError q = No_error"
  shows "(\<forall>n \<le> kSfpMaxHandshakeAttempts. \<exists>q'. silent_peer E stack h n q = Inr q' \<and> pending_writes q' = [syn0_octets])
    \<and> (\<exists>q'. silent_peer E stack h (Suc kSfpMaxHandshakeAttempts) q = Inr q'
        \<and> last (reports q') = Handshaken h (make_error_code HANDSHAKE_FAILED)
        \<and> pending_writes q' = [] \<and> pending_waits q' = [] \<and> \<not> sfpIsConnected (mqContext q'))"
proof -
  note attempts = silent_peer_attempts [OF assms, where stack = stack and h = h]
  obtain r where r: "silent_peer E stack h kSfpMaxHandshakeAttempts q = Inr r" "attempting E h (Suc kSfpMaxHandshakeAttempts) r"
    using attempts by blast
  obtain r' where r': "silent_round E stack r
      = handshake_attempt E \<lparr>nTries = Suc kSfpMaxHandshakeAttempts, rc = Asio Operation_aborted, hs_handler = h\<rparr> r'"
    "pending_writes r' = []" "pending_waits r' = []" "mqContext r' = mqContext r"
    by (rule round_attempts [OF r(2), where stack = stack])
  have "handshake_attempt E \<lparr>nTries = Suc kSfpMaxHandshakeAttempts, rc = Asio Operation_aborted, hs_handler = h\<rparr> r'
      = Inr (report_to (Handshaken h (make_error_code HANDSHAKE_FAILED)) r')"
    by (simp add: handshake_attempt_def kSfpMaxHandshakeAttempts_def complete_handshake_def)
  then have "\<exists>q'. silent_peer E stack h (Suc kSfpMaxHandshakeAttempts) q = Inr q'
      \<and> last (reports q') = Handshaken h (make_error_code HANDSHAKE_FAILED)
      \<and> pending_writes q' = [] \<and> pending_waits q' = [] \<and> \<not> sfpIsConnected (mqContext q')"
    using r r' by (simp add: report_to_def attempting_def)
  moreover have "\<exists>q'. silent_peer E stack h n q = Inr q' \<and> pending_writes q' = [syn0_octets]" if "n \<le> kSfpMaxHandshakeAttempts" for n
    using attempts [OF that] by (auto simp: attempting_def)
  ultimately show ?thesis by blast
qed

section \<open>A handler that sends\<close>

text \<open>
  \<^verbatim>\<open>handleWrite\<close> after a good write whose handler calls the queue again: the handler runs
  between the removal from the outbox and \<^verbatim>\<open>writePump\<close>.
\<close>

definition handleWrite_calling ::
  "('h, 'q, 's) env \<Rightarrow> nat \<Rightarrow> (('h, 'q, 's) mq \<Rightarrow> ('h, 'q, 's) mq res) \<Rightarrow> ('h, 'q, 's) mq \<Rightarrow> ('h, 'q, 's) mq res" where
  "handleWrite_calling E nWritten client q =
     bindR (handleWrite_done E No_error nWritten q) (\<lambda>q. bindR (client q) (writePump E))"

lemma handleWrite_not_calling: "handleWrite_calling E n Inr q = handleWrite E No_error n q"
  by (simp add: handleWrite_calling_def handleWrite_def)

text \<open>What \<^verbatim>\<open>asyncSend\<close> does to an empty outbox.\<close>

lemma asyncSend_starts:
  assumes laws: "pcqueue_laws (eQ E)" and r: "ready E q" and o: "mOutbox q = []" "is_open E q" "mReadPumpError q = No_error"
    and complete: "mHandshakeComplete q"
    and len: "length bs \<le> SFP_CONFIG_MAX_PACKET_SIZE" "length stack = SFP_CONFIG_MAX_PACKET_SIZE"
  obtains b q1 where "asyncSend E stack bs k q = Inr (q1\<lparr>mOutbox := [(b, k)], mWriteBuffer := [], pending_writes := pending_writes q @ [b]\<rparr>)"
    "only_library E (q\<lparr>mReadPumpError := No_error\<rparr>) q1" "ready E q1"
proof -
  let ?q = "q\<lparr>mReadPumpError := No_error\<rparr>"
  have r': "ready E ?q" using r by simp
  have si: "sfp_inv (eR E) (mqContext ?q)" using r' by (simp add: ready_def)
  obtain c' n e fs where c': "sfpWritePacket (eR E) (mqContext ?q) stack bs = Inr (c', n)" "sfp_inv (eR E) c'"
    "reacts (eR E) (mqContext ?q) c' e fs []" "fs \<noteq> []"
    using write_inv [OF si len(2,1)] by (auto simp: on_send_def)
  let ?f = "\<lambda>c. bindR (sfpWritePacket (eR E) c stack bs) (\<lambda>(c, outlen). Inr c)"
  have "?f (mqContext ?q) = Inr c'" using c'(1) by simp
  from mq_library_ok [where f = ?f, OF laws r' this c'(3,2)] obtain q1 where q1: "mq_library E ?f ?q = Inr q1"
    "only_library E ?q q1" "ready E q1" "mWriteBuffer q1 = mWriteBuffer q @ wire fs" by auto
  with o complete only_library_simps(7-9) [OF q1(2)] that [of "mWriteBuffer q @ wire fs" q1] c'(4) show ?thesis
    by (simp add: asyncSend_def assertR_def getReadPumpError_def Let_def flushWriteBuffer_def writePump_def is_open_def)
qed

text \<open>
  C39. A handler that sends makes the queue write the same octets twice: if the handler of the
  last message of the outbox, when that has been written, calls \<^verbatim>\<open>asyncSend\<close> - which the
  outbox being empty starts a write -, \<^verbatim>\<open>handleWrite\<close> starts a second write of the same
  message when it returns; the completion of the first removes the message, and that of the
  second reads the front of an empty outbox.
\<close>

theorem sending_handler_writes_twice:
  assumes "env_ok E" and "mq_inv E q" and "mOutbox q = [(w, User_send h)]" and "mHandshakeComplete q"
    and "is_open E q" and "mReadPumpError q = No_error"
    and "length bs \<le> SFP_CONFIG_MAX_PACKET_SIZE" and "length stack = SFP_CONFIG_MAX_PACKET_SIZE"
  shows "\<exists>b q' q''. handleWrite_calling E (length w) (asyncSend E stack bs (User_send h')) (q\<lparr>pending_writes := []\<rparr>) = Inr q'
    \<and> mOutbox q' = [(b, User_send h')] \<and> pending_writes q' = [b, b]
    \<and> perform E q' (Write_done No_error (length b)) = Inr q'' \<and> mOutbox q'' = [] \<and> pending_writes q'' = [b]
    \<and> perform E q'' (Write_done No_error (length b)) = Inl OutOfBounds"
proof -
  have laws: "pcqueue_laws (eQ E)" using assms(1) by (simp add: env_ok_def)
  let ?q = "report_to (Sent h No_error) (q\<lparr>pending_writes := [], mOutbox := []\<rparr>)"
  have r: "ready E ?q" using assms(2) by (simp add: mq_inv_def ready_def report_to_def)
  have q: "mOutbox ?q = []" "is_open E ?q" "mReadPumpError ?q = No_error" "mHandshakeComplete ?q" "pending_writes ?q = []"
    using assms(4,5,6) by (simp_all add: report_to_def is_open_def)
  obtain b q1 where q1: "asyncSend E stack bs (User_send h') ?q
      = Inr (q1\<lparr>mOutbox := [(b, User_send h')], mWriteBuffer := [], pending_writes := [b]\<rparr>)"
    "only_library E (?q\<lparr>mReadPumpError := No_error\<rparr>) q1"
    by (rule asyncSend_starts [OF laws r q(1-4) assms(7,8), where k = "User_send h'"]) (auto simp: q(5))
  have o: "st_is_open (eS E) (mStream q1)"
    using only_library_more(3) [OF q1(2)] assms(5) by (simp add: is_open_def report_to_def)
  let ?q' = "q1\<lparr>mOutbox := [(b, User_send h')], mWriteBuffer := [], pending_writes := [b, b]\<rparr>"
  let ?q'' = "report_to (Sent h' No_error) (q1\<lparr>mOutbox := [], mWriteBuffer := [], pending_writes := [b]\<rparr>)"
  have "handleWrite_calling E (length w) (asyncSend E stack bs (User_send h')) (q\<lparr>pending_writes := []\<rparr>) = Inr ?q'"
    using assms(3) q1(1) o by (simp add: handleWrite_calling_def handleWrite_done_def assertR_def writePump_def is_open_def)
  moreover have "perform E ?q' (Write_done No_error (length b)) = Inr ?q''"
    by (simp add: handleWrite_def handleWrite_done_def assertR_def writePump_def report_to_def)
  moreover have "perform E ?q'' (Write_done No_error (length b)) = Inl OutOfBounds"
    by (simp add: handleWrite_def handleWrite_done_def report_to_def)
  ultimately show ?thesis
    by (intro exI [of _ b] exI [of _ ?q'] exI [of _ ?q'']) (simp add: report_to_def)
qed

section \<open>A handshake while a keepalive operation waits\<close>

lemma handshake_breaks_keepalive:
  assumes env: "env_ok E" and inv: "mq_inv E q" and "mOutbox q = []" and "is_open E q" and "mReadPumpError q = No_error"
    and w: "pending_waits q = [(Keepalive_waiting k, False)]"
  shows "\<exists>q'. perform E q (Do_handshake h) = Inr q' \<and> perform E q' (Timer_done 0 No_error stack) = Inl AssertFailed"
proof -
  have laws: "pcqueue_laws (eQ E)" using env by (simp add: env_ok_def)
  have mem: "memory_ok (eR E) (mqContext q)" using inv by (auto simp: mq_inv_def ready_def intro: sfp_inv_memory)
  obtain q2 where q2: "asyncHandshake E h q = handshake_attempt E \<lparr>nTries = 0, rc = Asio Operation_aborted, hs_handler = h\<rparr> q2"
    "ready E q2" "is_open E q2" "mOutbox q2 = []" "mWriteBuffer q2 = []" "pending_waits q2 = [(Keepalive_waiting k, False)]"
    "mReadPumpError q2 = No_error" "\<not> mHandshakeComplete q2"
    by (rule begin_attempt [OF env mem assms(4,5), where h = h]) (use assms(3) w in auto)
  obtain q1 ws os where q1: "asyncHandshake E h q = Inr (q1\<lparr>mOutbox := os, mWriteBuffer := [], pending_writes := ws\<rparr>)"
    "only_library E q2 q1"
    using q2(1) by (rule_tac attempt_sends [OF laws q2(2,4,5,3)]) auto
  let ?q' = "q1\<lparr>mOutbox := os, mWriteBuffer := [], pending_writes := ws\<rparr>"
  have "pending_waits ?q' = [(Keepalive_waiting k, False)]" "mReadPumpError ?q' = No_error" "is_open E ?q'" "\<not> mHandshakeComplete ?q'"
    using only_library_more [OF q1(2)] only_library_simps(2) [OF q1(2)] q2(3,6,7,8) by (simp_all add: is_open_def)
  then have "perform E ?q' (Timer_done 0 No_error stack) = Inl AssertFailed"
    by (simp add: keepalive_operation_def resume_code_def getReadPumpError_def Let_def is_open_def keepalive_waited_def
        asyncSend_def assertR_def)
  with q1(1) show ?thesis by auto
qed

section \<open>Examples\<close>

text \<open>A handshake is started on a new queue, and its first SYN0 has been written.\<close>

definition example_actions :: "action list" where
  "example_actions = [Do_handshake 3, Write_done No_error (length syn0_octets)]"

lemma example_actions_run: "\<exists>s. mq_run example_env new_queue example_actions s"
proof -
  have "is_open example_env new_queue" "mReadPumpError new_queue = No_error" "\<not> keeping new_queue"
    by (simp_all add: is_open_def example_env_def new_queue_def flag_stream_def keeping_def)
  then obtain q1 where q1: "perform example_env new_queue (Do_handshake 3) = Inr q1" "attempting example_env 3 1 q1"
    using idle_handshake [OF example_env_ok new_queue_idle] by blast
  have e: "enabled new_queue (Do_handshake 3)" using \<open>\<not> keeping new_queue\<close> by simp
  have good: "mq_good example_env new_queue" using new_queue_idle by (simp add: mq_good_def)
  obtain r where "perform example_env new_queue (Do_handshake 3) = Inr r" "mq_good example_env r"
    using perform_ok [OF example_env_ok good e] by blast
  with q1(1) have "mq_good example_env q1" by simp
  moreover have en: "enabled q1 (Write_done No_error (length syn0_octets))" using q1(2) by (simp add: attempting_def)
  ultimately obtain s where "perform example_env q1 (Write_done No_error (length syn0_octets)) = Inr s"
    using perform_ok [OF example_env_ok] by blast
  with q1(1) e en show ?thesis by (auto simp: example_actions_def)
qed

theorem queue_safe_witness:
  "\<exists>s. mq_run example_env new_queue example_actions s \<and> pending_reads s \<le> 1
     \<and> pending_writes s = map fst (take 1 (mOutbox s))"
proof -
  obtain s where s: "mq_run example_env new_queue example_actions s" using example_actions_run by blast
  from queue_safe [OF example_env_ok new_queue_idle s] s show ?thesis by blast
qed

theorem handlers_called_once_witness:
  "\<exists>s. mq_run example_env new_queue example_actions s
     \<and> called_handlers s + waiting_handlers example_env s = {#For_handshake 3#}"
proof -
  obtain s where s: "mq_run example_env new_queue example_actions s" using example_actions_run by blast
  have "called_handlers new_queue = {#}" "waiting_handlers example_env new_queue = {#}"
    by (simp_all add: called_handlers_def waiting_handlers_def new_queue_def example_env_def list_pcqueue_def)
  with handlers_called_once [OF example_env_ok new_queue_idle s] s show ?thesis
    by (intro exI [of _ s]) (simp add: example_actions_def)
qed

theorem handshake_terminates_witness:
  "\<exists>s. mq_run example_env new_queue example_actions s \<and> resumptions example_env 3 new_queue example_actions \<le> 153"
proof -
  obtain s where s: "mq_run example_env new_queue example_actions s" using example_actions_run by blast
  have "count_list example_actions (Do_handshake 3) = 1" by (simp add: example_actions_def)
  with handshake_terminates [OF example_env_ok new_queue_idle s, of 3] s show ?thesis
    by (auto simp: kSfpMaxHandshakeAttempts_def)
qed

text \<open>A queue after its handshake that writes a message.\<close>

definition writing_queue :: "(SFPpacket list, item list + consumer list, bool) mq" where
  "writing_queue = new_queue
     \<lparr>mqContext := sfpSetDeliverCallback (sfpSetWriteCallback (sfpInit raw_context) (Some addr_writeCallback) (Some 17))
        (Some addr_deliverCallback) (Some 17),
      mHandshakeComplete := True, mReadPumpRunning := True, pending_reads := 1,
      mOutbox := [([1, 2], User_send 4)], pending_writes := [[1, 2]]\<rparr>"

lemma writing_queue_inv: "mq_inv example_env writing_queue"
proof -
  let ?c = "sfpSetDeliverCallback (sfpSetWriteCallback (sfpInit raw_context) (Some addr_writeCallback) (Some 17))
    (Some addr_deliverCallback) (Some 17)"
  have "sfp_inv list_ringbuffer ?c"
    using setters_inv(2) [OF init_inv [OF _ raw_memory_ok]] by simp
  moreover have "callbacks ?c = mq_callbacks 17" by (simp add: callbacks_def mq_callbacks_def setup_defs)
  ultimately show ?thesis
    by (simp add: mq_inv_def ready_def writing_queue_def new_queue_def example_env_def pump_ok_def pumping_def
        keeping_ok_def keeping_def front_written_def)
qed

theorem sending_handler_writes_twice_witness:
  "\<exists>b q'. handleWrite_calling example_env 2 (asyncSend example_env (replicate SFP_CONFIG_MAX_PACKET_SIZE 0) [7] (User_send 5))
       (writing_queue\<lparr>pending_writes := []\<rparr>) = Inr q' \<and> pending_writes q' = [b, b]"
proof -
  have "mOutbox writing_queue = [([1, 2], User_send 4)]" "mHandshakeComplete writing_queue"
    "is_open example_env writing_queue" "mReadPumpError writing_queue = No_error"
    by (simp_all add: writing_queue_def new_queue_def is_open_def example_env_def flag_stream_def)
  from sending_handler_writes_twice [OF example_env_ok writing_queue_inv this, of "[7]" "replicate SFP_CONFIG_MAX_PACKET_SIZE 0" 5]
  show ?thesis by (auto simp: sfp_consts numeral_2_eq_2)
qed

end
