(* ===== verification/Sfp_QueueRefines.thy ===== *)
theory Sfp_QueueRefines
  imports Sfp_QueueFaults
begin

text \<open>
  The message queue refines the library while nothing fails: the octets written are the
  frames of the specification, and every receive gets the delivery whose turn it is.
\<close>

section \<open>The receive queue, first in, first out\<close>

text \<open>What a consumer reports of a message.\<close>

fun receipt :: "consumer \<Rightarrow> u8 list \<Rightarrow> report list" where
  "receipt (Receive room h) m = [Received h (if length m \<le> room then No_error else Asio Message_size) (take room m)]"
| "receipt Discard m = []"

definition receipts :: "consumer list \<Rightarrow> u8 list list \<Rightarrow> report list" where
  "receipts ks ms = concat (map2 receipt ks ms)"

fun is_receipt :: "report \<Rightarrow> bool" where
  "is_receipt (Received h ec bs) \<longleftrightarrow> True"
| "is_receipt _ \<longleftrightarrow> False"

definition receipts_of :: "('h, 'q, 's) mq \<Rightarrow> report list" where
  "receipts_of q = filter is_receipt (reports q)"

lemma receipts_simps [simp]:
  "receipts [] ms = []" "receipts (k # ks) (m # ms) = receipt k m @ receipts ks ms"
  by (simp_all add: receipts_def)

lemma receipts_append: "length ks = length ms \<Longrightarrow> receipts (ks @ ks') (ms @ ms') = receipts ks ms @ receipts ks' ms'"
  by (simp add: receipts_def)

text \<open>
  Messages \<open>ds\<close> come in and receives \<open>rs\<close> are asked for; the messages \<open>ms\<close> at the front meet
  the consumers \<open>ks\<close> at the front.
\<close>

definition queue_moves ::
  "('h, 'q, 's) env \<Rightarrow> ('h, 'q, 's) mq \<Rightarrow> ('h, 'q, 's) mq \<Rightarrow> u8 list list \<Rightarrow> consumer list \<Rightarrow> bool" where
  "queue_moves E q q' ds rs \<longleftrightarrow> (\<exists>ms ks. length ks = length ms
     \<and> map snd (items E q) @ ds = ms @ map snd (items E q')
     \<and> consumers E q @ rs = ks @ consumers E q'
     \<and> receipts_of q' = receipts_of q @ receipts ks ms)"

lemma moves_none: "mReceiveQueue q' = mReceiveQueue q \<Longrightarrow> receipts_of q' = receipts_of q \<Longrightarrow> queue_moves E q q' [] []"
  by (auto simp: queue_moves_def intro!: exI [of _ "[]"])

lemma moves_trans:
  assumes "queue_moves E q r ds1 rs1" and "queue_moves E r s ds2 rs2"
  shows "queue_moves E q s (ds1 @ ds2) (rs1 @ rs2)"
proof -
  obtain ms1 ks1 ms2 ks2 where m: "length ks1 = length ms1" "map snd (items E q) @ ds1 = ms1 @ map snd (items E r)"
    "consumers E q @ rs1 = ks1 @ consumers E r" "receipts_of r = receipts_of q @ receipts ks1 ms1"
    "length ks2 = length ms2" "map snd (items E r) @ ds2 = ms2 @ map snd (items E s)"
    "consumers E r @ rs2 = ks2 @ consumers E s" "receipts_of s = receipts_of r @ receipts ks2 ms2"
    using assms unfolding queue_moves_def by blast
  have "map snd (items E q) @ ds1 @ ds2 = (ms1 @ ms2) @ map snd (items E s)"
    using m(2,6) by (metis append.assoc)
  moreover have "consumers E q @ rs1 @ rs2 = (ks1 @ ks2) @ consumers E s"
    using m(3,7) by (metis append.assoc)
  ultimately show ?thesis
    unfolding queue_moves_def using m(1,4,5,8) receipts_append [OF m(1)]
    by (intro exI [of _ "ms1 @ ms2"] exI [of _ "ks1 @ ks2"]) simp
qed

lemma run_consumer_receipts:
  "\<not> failed (fst i) \<Longrightarrow> receipts_of (run_consumer k i q) = receipts_of q @ receipt k (snd i)"
  by (cases "(k, i, q)" rule: run_consumer.cases)
    (auto simp: receipts_of_def report_to_def Let_def min_def)

lemma run_consumer_queue [simp]: "mReceiveQueue (run_consumer k i q) = mReceiveQueue q"
  using run_consumer_ok by blast

lemma receipts_of_upd [simp]: "receipts_of (q\<lparr>mReceiveQueue := rq\<rparr>) = receipts_of q"
  by (simp add: receipts_of_def)

lemma produce_moves:
  assumes "pcqueue_laws (eQ E)"
  shows "queue_moves E q (produce E (No_error, bs) q) [bs] []"
proof -
  obtain rq c where p: "pq_produce (eQ E) (mReceiveQueue q) (No_error, bs) = (rq, c)" by (metis surj_pair)
  note law = pcqueue_produce [OF assms p]
  show ?thesis
  proof (cases "consumers E q")
    case Nil
    with law p show ?thesis
      by (auto simp: produce_def queue_moves_def intro!: exI [of _ "[]"])
  next
    case (Cons k ks)
    have none: "items E q = []" using pcqueue_depth(2) [OF assms, of "mReceiveQueue q"] Cons by simp
    show ?thesis
      using law p Cons none run_consumer_receipts [of "(No_error, bs)" k "q\<lparr>mReceiveQueue := rq\<rparr>"]
      by (auto simp: produce_def queue_moves_def intro!: exI [of _ "[bs]"] exI [of _ "[k]"])
  qed
qed

lemma consume_moves:
  assumes "pcqueue_laws (eQ E)" and "\<forall>i \<in> set (items E q). \<not> failed (fst i)"
  shows "queue_moves E q (mq_consume E k q) [] [k] \<and> set (items E (mq_consume E k q)) \<subseteq> set (items E q)"
proof -
  obtain rq i where p: "pq_consume (eQ E) (mReceiveQueue q) k = (rq, i)" by (metis surj_pair)
  note law = pcqueue_consume [OF assms(1) p]
  show ?thesis
  proof (cases "items E q")
    case Nil
    with law p show ?thesis
      by (auto simp: mq_consume_def queue_moves_def intro!: exI [of _ "[]"])
  next
    case (Cons j js)
    have none: "consumers E q = []" using pcqueue_depth(2) [OF assms(1), of "mReceiveQueue q"] Cons by simp
    show ?thesis
      using law p Cons none assms(2) run_consumer_receipts [of j k "q\<lparr>mReceiveQueue := rq\<rparr>"]
      by (auto simp: mq_consume_def queue_moves_def intro!: exI [of _ "[snd j]"] exI [of _ "[k]"])
  qed
qed

section \<open>Healthy states and their evolution\<close>

definition healthy :: "('h, 'q, 's) env \<Rightarrow> ('h, 'q, 's) mq \<Rightarrow> bool" where
  "healthy E q \<longleftrightarrow> ready E q \<and> is_open E q \<and> mReadPumpError q = No_error
     \<and> (\<forall>i \<in> set (items E q). \<not> failed (fst i))"

text \<open>The octets on their way to the stream.\<close>

definition outgoing :: "('h, 'q, 's) mq \<Rightarrow> u8 list" where
  "outgoing q = concat (map fst (mOutbox q)) @ mWriteBuffer q"

definition evolves ::
  "('h, 'q, 's) env \<Rightarrow> ('h, 'q, 's) mq \<Rightarrow> ('h, 'q, 's) mq \<Rightarrow> u8 list \<Rightarrow> call list \<Rightarrow> consumer list \<Rightarrow> bool" where
  "evolves E q q' w calls rs \<longleftrightarrow> healthy E q' \<and> (\<forall>call \<in> set calls. call_ok call)
     \<and> (\<exists>fs ds. run_spec on_call (abs_sfp (eR E) (mqContext q)) calls = (abs_sfp (eR E) (mqContext q'), fs, ds)
          \<and> w @ outgoing q' = outgoing q @ wire fs \<and> queue_moves E q q' ds rs)"

lemma evolves_trans:
  assumes "evolves E q r w1 c1 rs1" and "evolves E r s w2 c2 rs2"
  shows "evolves E q s (w1 @ w2) (c1 @ c2) (rs1 @ rs2)"
proof -
  obtain f1 d1 f2 d2 where e:
    "run_spec on_call (abs_sfp (eR E) (mqContext q)) c1 = (abs_sfp (eR E) (mqContext r), f1, d1)"
    "w1 @ outgoing r = outgoing q @ wire f1" "queue_moves E q r d1 rs1"
    "run_spec on_call (abs_sfp (eR E) (mqContext r)) c2 = (abs_sfp (eR E) (mqContext s), f2, d2)"
    "w2 @ outgoing s = outgoing r @ wire f2" "queue_moves E r s d2 rs2"
    using assms unfolding evolves_def by blast
  have "run_spec on_call (abs_sfp (eR E) (mqContext q)) (c1 @ c2) = (abs_sfp (eR E) (mqContext s), f1 @ f2, d1 @ d2)"
    using e(1,4) by (simp add: run_spec_append)
  moreover have "(w1 @ w2) @ outgoing s = outgoing q @ wire (f1 @ f2)"
    using e(2,5) by (metis append.assoc wire_simps(3))
  ultimately show ?thesis
    using assms moves_trans [OF e(3,6)] unfolding evolves_def by auto
qed

text \<open>Everything that the specification sees stays.\<close>

definition same_log :: "('h, 'q, 's) mq \<Rightarrow> ('h, 'q, 's) mq \<Rightarrow> bool" where
  "same_log q q' \<longleftrightarrow> mqContext q' = mqContext q \<and> mq_address q' = mq_address q \<and> outgoing q' = outgoing q
     \<and> mReceiveQueue q' = mReceiveQueue q \<and> mStream q' = mStream q \<and> mReadPumpError q' = mReadPumpError q
     \<and> receipts_of q' = receipts_of q"

lemma evolves_same:
  assumes "healthy E q" and "same_log q q'"
  shows "evolves E q q' [] [] []"
proof -
  have "healthy E q'" using assms by (simp add: healthy_def same_log_def ready_def is_open_def)
  moreover have "queue_moves E q q' [] []" using assms(2) by (intro moves_none) (simp_all add: same_log_def)
  ultimately show ?thesis using assms(2) by (auto simp: evolves_def same_log_def)
qed

lemma evolves_after:
  "healthy E q \<Longrightarrow> same_log q r \<Longrightarrow> evolves E r s w calls rs \<Longrightarrow> evolves E q s w calls rs"
  using evolves_trans [OF evolves_same] by fastforce

lemma same_log_trans: "same_log q r \<Longrightarrow> same_log r s \<Longrightarrow> same_log q s"
  by (simp add: same_log_def)

section \<open>The parts of a step\<close>

lemma healthy_resume:
  assumes "healthy E q" and "\<not> failed ec \<or> ec = Asio Operation_aborted"
  shows "resume_code E ec q = (q, No_error)" "getReadPumpError E q = (q, No_error)"
proof -
  have "q\<lparr>mReadPumpError := No_error\<rparr> = q" using assms(1) by (cases q) (simp add: healthy_def)
  then show "getReadPumpError E q = (q, No_error)"
    using assms(1) by (simp add: getReadPumpError_def Let_def healthy_def is_open_def)
  with assms(2) show "resume_code E ec q = (q, No_error)" by (auto simp: resume_code_def)
qed

lemma healthy_operations:
  assumes "healthy E q" and "\<not> failed ec \<or> ec = Asio Operation_aborted"
  shows "handshake_operation E f op ec q = f op q" "keepalive_operation E g n ec q = g n q"
  using healthy_resume [OF assms] by (simp_all add: handshake_operation_def keepalive_operation_def)

lemma same_log_simps [simp]:
  "same_log q q" "same_log q (timer_wait t q)" "same_log q (q\<lparr>pending_reads := n\<rparr>)" "same_log q (q\<lparr>pending_writes := ws\<rparr>)"
  "same_log q (q\<lparr>pending_waits := ts\<rparr>)" "same_log q (q\<lparr>mHandshakeComplete := b\<rparr>)"
  "\<not> is_receipt r \<Longrightarrow> same_log q (report_to r q)"
  by (simp_all add: same_log_def timer_wait_def timer_cancel_def Let_def report_to_def receipts_of_def outgoing_def)

lemma call_handler_log:
  assumes "healthy E q" and ec: "\<not> failed ec" and "call_handler E k ec q = Inr q'"
  shows "same_log q q' \<and> mOutbox q' = mOutbox q"
proof -
  have o: "is_open E q" using assms(1) by (simp add: healthy_def)
  have t: "mOutbox (timer_wait x q) = mOutbox q" for x
    by (simp add: timer_wait_def timer_cancel_def Let_def)
  show ?thesis
    using assms(3) ec o t
    by (cases k) (auto simp: readPump_def healthy_operations [OF assms(1)] handshake_flushed_def keepalive_loop_def
        split: if_splits)
qed

lemma call_handler_evolves:
  "healthy E q \<Longrightarrow> \<not> failed ec \<Longrightarrow> call_handler E k ec q = Inr q' \<Longrightarrow> evolves E q q' [] [] []"
  using call_handler_log evolves_same by blast

lemma writePump_log:
  assumes "is_open E q" and "writePump E q = Inr q'"
  shows "same_log q q'"
  using assms by (auto simp: writePump_def split: list.splits)

lemma flushWriteBuffer_log:
  assumes "healthy E q" and "flushWriteBuffer E k q = Inr q'"
  shows "same_log q q'"
proof (cases "mWriteBuffer q = []")
  case True
  with call_handler_log [where ec = No_error] assms show ?thesis by (auto simp: flushWriteBuffer_def)
next
  case False
  let ?q = "q\<lparr>mOutbox := mOutbox q @ [(mWriteBuffer q, k)], mWriteBuffer := []\<rparr>"
  have "same_log q ?q" by (simp add: same_log_def outgoing_def receipts_of_def)
  moreover have "same_log ?q q'"
    using False assms writePump_log [of E ?q q']
    by (auto simp: flushWriteBuffer_def Let_def healthy_def is_open_def split: if_splits)
  ultimately show ?thesis by (rule same_log_trans)
qed

lemma callback_moves:
  assumes "pcqueue_laws (eQ E)" and "mq_callback E q ev = Inr q'"
  shows "queue_moves E q q' (event_deliveries ev) [] \<and> (\<forall>i \<in> set (items E q'). i \<in> set (items E q) \<or> fst i = No_error)"
proof (cases ev)
  case (Deliver_call f bs d)
  then have q': "q' = produce E (No_error, bs) q" using assms(2) by (auto simp: deliverCallback_def split: if_splits)
  obtain rq c where p: "pq_produce (eQ E) (mReceiveQueue q) (No_error, bs) = (rq, c)" by (metis surj_pair)
  have "\<forall>i \<in> set (items E q'). i \<in> set (items E q) \<or> fst i = No_error"
    using pcqueue_produce [OF assms(1) p] p unfolding q'
    by (cases "consumers E q"; cases c) (auto simp: produce_def)
  with produce_moves [OF assms(1)] q' Deliver_call show ?thesis by simp
next
  case (Write_call f bs d)
  then show ?thesis using assms(2) by (auto simp: writeCallback_def receipts_of_def intro: moves_none split: if_splits)
qed (use assms(2) in auto)

lemma callbacks_moves:
  assumes "pcqueue_laws (eQ E)" and "foldR (mq_callback E) es q = Inr q'"
  shows "queue_moves E q q' (deliveries es) [] \<and> (\<forall>i \<in> set (items E q'). i \<in> set (items E q) \<or> fst i = No_error)"
  using assms(2)
proof (induction es arbitrary: q)
  case Nil
  then show ?case by (auto simp: deliveries_def intro: moves_none)
next
  case (Cons ev es)
  then obtain q1 where q1: "mq_callback E q ev = Inr q1" "foldR (mq_callback E) es q1 = Inr q'" by (auto simp: bindR_eq_Inr)
  from callback_moves [OF assms(1) q1(1)] Cons.IH [OF q1(2)] show ?case
    using moves_trans [of E q q1 "event_deliveries ev" "[]" q' "deliveries es" "[]"] by (auto simp: deliveries_def)
qed

lemma library_evolves:
  assumes laws: "pcqueue_laws (eQ E)" and h: "healthy E q" and ok: "call_ok call"
    and "mq_library E (\<lambda>c. run_call (eR E) c call) q = Inr q'"
  shows "evolves E q q' [] [call] []"
proof -
  have r: "ready E q" and inv: "sfp_inv (eR E) (mqContext q)" using h by (simp_all add: healthy_def ready_def)
  obtain a fs ds where spec: "on_call (abs_sfp (eR E) (mqContext q)) call = (a, fs, ds)" by (metis prod_cases3)
  from calls.step_ok [OF inv ok spec] obtain c' where c': "run_call (eR E) (mqContext q) call = Inr c'" "sfp_inv (eR E) c'"
    "abs_sfp (eR E) c' = a" "reacts (eR E) (mqContext q) c' (abs_endpoint (eR E) c') fs ds" by blast
  from mq_library_ok [where f = "\<lambda>c. run_call (eR E) c call", OF laws r c'(1,4,2)] assms(4)
  have q': "only_library E q q'" "ready E q'" "mqContext q' = c'" "mWriteBuffer q' = mWriteBuffer q @ wire fs" by auto
  let ?es = "drop (length (trace (mqContext q))) (trace c')"
  have "deliver (rx (mqContext q)) \<noteq> None" using r by (simp add: ready_def callbacks_def mq_callbacks_def)
  then have "deliveries ?es = ds" using reacts_seen(2) [OF c'(4)] by (auto simp: delivered_def)
  moreover have "foldR (mq_callback E) ?es (q\<lparr>mqContext := c'\<rparr>) = Inr q'"
    using assms(4) c'(1) by (simp add: mq_library_def)
  ultimately have m: "queue_moves E (q\<lparr>mqContext := c'\<rparr>) q' ds []"
    "\<forall>i \<in> set (items E q'). i \<in> set (items E q) \<or> fst i = No_error"
    using callbacks_moves [OF laws, of ?es "q\<lparr>mqContext := c'\<rparr>" q'] by auto
  have "queue_moves E q q' ds []" using m(1) by (simp add: queue_moves_def receipts_of_def)
  moreover have "healthy E q'"
    using h q'(2) m(2) only_library_simps(9) [OF q'(1)] only_library_more(2) [OF q'(1)] by (auto simp: healthy_def)
  moreover have "outgoing q' = outgoing q @ wire fs"
    using q'(4) only_library_simps(7) [OF q'(1)] by (simp add: outgoing_def)
  ultimately show ?thesis using spec c'(3) q'(3) ok by (auto simp: evolves_def)
qed

lemma delivers_evolve:
  assumes "pcqueue_laws (eQ E)" and "healthy E q" and "foldR (mq_deliver E) xs q = Inr q'"
  shows "evolves E q q' [] (map CallOctet xs) []"
  using assms(2,3)
proof (induction xs arbitrary: q)
  case Nil
  then show ?case by (simp add: evolves_same)
next
  case (Cons x xs)
  then obtain q1 where q1: "mq_deliver E q x = Inr q1" "foldR (mq_deliver E) xs q1 = Inr q'" by (auto simp: bindR_eq_Inr)
  have e: "evolves E q q1 [] [CallOctet x] []"
    using library_evolves [OF assms(1) Cons.prems(1), of "CallOctet x" q1] q1(1) by (simp add: mq_deliver_def)
  then have "healthy E q1" by (simp add: evolves_def)
  from evolves_trans [OF e Cons.IH [OF this q1(2)]] show ?case by simp
qed

lemma flushed_evolves:
  assumes "evolves E q r w calls rs" and "flushWriteBuffer E k r = Inr s"
  shows "evolves E q s w calls rs"
proof -
  have "healthy E r" using assms(1) by (simp add: evolves_def)
  from evolves_trans [OF assms(1) evolves_same [OF this flushWriteBuffer_log [OF this assms(2)]]] show ?thesis by simp
qed

lemma asyncSend_evolves:
  assumes laws: "pcqueue_laws (eQ E)" and h: "healthy E q" and ok: "call_ok (CallWrite stack bs)"
    and "asyncSend E stack bs k q = Inr q'"
  shows "evolves E q q' [] [CallWrite stack bs] []"
proof -
  have "(\<lambda>c. run_call (eR E) c (CallWrite stack bs)) = (\<lambda>c. bindR (sfpWritePacket (eR E) c stack bs) (\<lambda>(c, outlen). Inr c))"
    by simp
  with assms(4) healthy_resume [OF h, of No_error] obtain q1 where
    "mq_library E (\<lambda>c. run_call (eR E) c (CallWrite stack bs)) q = Inr q1" "flushWriteBuffer E k q1 = Inr q'"
    by (auto simp: asyncSend_def assertR_Inr bindR_eq_Inr)
  with flushed_evolves library_evolves [OF laws h ok] show ?thesis by blast
qed

lemma handshake_attempt_evolves:
  assumes laws: "pcqueue_laws (eQ E)" and h: "healthy E q" and "handshake_attempt E op q = Inr q'"
  shows "evolves E q q' [] [] [] \<or> evolves E q q' [] [CallConnect] []"
proof (cases "nTries op > kSfpMaxHandshakeAttempts")
  case True
  with assms(3) evolves_same [OF h] show ?thesis
    by (auto simp: handshake_attempt_def kSfpMaxHandshakeAttempts_def complete_handshake_def)
next
  case False
  from False assms(3) obtain q1 where
    "mq_library E (\<lambda>c. run_call (eR E) c CallConnect) q = Inr q1"
    "flushWriteBuffer E (Handshake_flushed (op\<lparr>nTries := Suc (nTries op)\<rparr>)) q1 = Inr q'"
    by (auto simp: handshake_attempt_def bindR_eq_Inr)
  with flushed_evolves [OF library_evolves [OF laws h, of CallConnect]] show ?thesis by simp
qed

lemma call_timer_evolves:
  assumes laws: "pcqueue_laws (eQ E)" and h: "healthy E q" and "\<not> failed ec \<or> ec = Asio Operation_aborted"
    and "length stack = SFP_CONFIG_MAX_PACKET_SIZE" and "call_timer E stack t ec q = Inr q'"
  shows "\<exists>calls. evolves E q q' [] calls [] \<and> concat (map call_octets calls) = []
    \<and> concat (map call_packets calls) = (if is_keepalive_wait t then [[]] else [])
    \<and> (CallConnect \<in> set calls \<longrightarrow> (\<exists>h. timer_fuel h t \<noteq> 0))"
proof (cases t)
  case (Keepalive_waiting n)
  then have "asyncSend E stack [] (Keepalive_sent n) q = Inr q'"
    using assms(5) healthy_operations [OF h assms(3)] by (simp add: keepalive_waited_def)
  with asyncSend_evolves [OF laws h _ this] assms(4) Keepalive_waiting show ?thesis
    by (intro exI [of _ "[CallWrite stack []]"]) simp
next
  case (Handshake_connecting op)
  then have "same_log q q' \<or> handshake_attempt E op q = Inr q'"
    using assms(5) healthy_operations [OF h assms(3)] by (auto simp: handshake_waited_def split: if_splits)
  then have "evolves E q q' [] [] [] \<or> evolves E q q' [] [CallConnect] []"
    using evolves_same [OF h] handshake_attempt_evolves [OF laws h] by blast
  with Handshake_connecting show ?thesis by (auto intro!: exI [of _ "hs_handler op"] intro: exI [of _ "[]"] exI [of _ "[CallConnect]"])
next
  case (Handshake_settling op)
  then have "same_log q q' \<or> handshake_attempt E op q = Inr q'"
    using assms(5) healthy_operations [OF h assms(3)]
    by (auto simp: handshake_settle_def complete_handshake_def same_log_def report_to_def receipts_of_def outgoing_def split: if_splits)
  then have "evolves E q q' [] [] [] \<or> evolves E q q' [] [CallConnect] []"
    using evolves_same [OF h] handshake_attempt_evolves [OF laws h] by blast
  with Handshake_settling show ?thesis by (auto intro!: exI [of _ "hs_handler op"] intro: exI [of _ "[]"] exI [of _ "[CallConnect]"])
qed

section \<open>Runs\<close>

text \<open>
  Nothing fails: reads and writes succeed; the queue is neither closed nor initialised
  anew.
\<close>

fun smooth :: "action \<Rightarrow> bool" where
  "smooth (Do_handshake h) \<longleftrightarrow> False"
| "smooth Do_close \<longleftrightarrow> False"
| "smooth (Read_done ec octets) \<longleftrightarrow> \<not> failed ec"
| "smooth (Write_done ec n) \<longleftrightarrow> \<not> failed ec"
| "smooth _ \<longleftrightarrow> True"

text \<open>What an action does with octets, messages and receives.\<close>

fun octets_read :: "action \<Rightarrow> u8 list" where
  "octets_read (Read_done ec octets) = octets"
| "octets_read _ = []"

fun receives_asked :: "action \<Rightarrow> consumer list" where
  "receives_asked (Do_receive room h) = [Receive room h]"
| "receives_asked _ = []"

fun octets_written :: "('h, 'q, 's) mq \<Rightarrow> action \<Rightarrow> u8 list" where
  "octets_written q (Write_done ec n) = concat (take 1 (pending_writes q))"
| "octets_written q _ = []"

fun messages_sent :: "('h, 'q, 's) mq \<Rightarrow> action \<Rightarrow> u8 list list" where
  "messages_sent q (Do_send stack bs h) = [bs]"
| "messages_sent q (Timer_done i ec stack) = (if is_keepalive_wait (fst (pending_waits q ! i)) then [[]] else [])"
| "messages_sent q _ = []"

primrec gather ::
  "(('h, 'q, 's) mq \<Rightarrow> action \<Rightarrow> 'a list) \<Rightarrow> ('h, 'q, 's) env \<Rightarrow> ('h, 'q, 's) mq \<Rightarrow> action list \<Rightarrow> 'a list" where
  "gather f E q [] = []"
| "gather f E q (a # as) = f q a @ (case perform E q a of Inl e \<Rightarrow> [] | Inr r \<Rightarrow> gather f E r as)"

definition explains :: "call list \<Rightarrow> u8 list \<Rightarrow> u8 list list \<Rightarrow> bool" where
  "explains calls octets packets \<longleftrightarrow>
     concat (map call_octets calls) = octets \<and> concat (map call_packets calls) = packets"

lemma explains_append: "explains c xs ps \<Longrightarrow> explains c' xs' ps' \<Longrightarrow> explains (c @ c') (xs @ xs') (ps @ ps')"
  by (simp add: explains_def)

lemma explains_octets: "explains (map CallOctet xs) xs []"
  by (induction xs) (simp_all add: explains_def)

lemma explains_simps [simp]: "explains [] [] []" "explains [CallWrite stack bs] [] [bs]"
  by (simp_all add: explains_def)

lemma handleWrite_evolves:
  assumes h: "healthy E q" and "mOutbox q = (b, k) # rest" and "handleWrite E ec n q = Inr q'" and ec: "\<not> failed ec"
  shows "evolves E q q' b [] []"
proof -
  let ?q = "q\<lparr>mOutbox := rest\<rparr>"
  obtain q1 where q1: "call_handler E k ec ?q = Inr q1" "writePump E q1 = Inr q'"
    using assms(2,3) ec by (auto simp: handleWrite_def handleWrite_done_def bindR_eq_Inr assertR_Inr)
  have h': "healthy E ?q" using h by (simp add: healthy_def ready_def is_open_def)
  have e1: "evolves E q ?q b [] []"
    using h' assms(2) moves_none [of ?q q E] by (auto simp: evolves_def outgoing_def receipts_of_def)
  have e2: "evolves E ?q q1 [] [] []" using call_handler_evolves [OF h' ec q1(1)] .
  then have "healthy E q1" by (simp add: evolves_def)
  moreover from this have "same_log q1 q'" using writePump_log [OF _ q1(2)] by (simp add: healthy_def)
  ultimately have "evolves E q1 q' [] [] []" by (rule evolves_same)
  from evolves_trans [OF evolves_trans [OF e1 e2] this] show ?thesis by simp
qed

lemma perform_evolves:
  assumes laws: "pcqueue_laws (eQ E)" and inv: "pumps_ok q" and h: "healthy E q" and en: "enabled q a" and s: "smooth a"
    and p: "perform E q a = Inr q'"
  shows "\<exists>calls. evolves E q q' (octets_written q a) calls (receives_asked a) \<and> explains calls (octets_read a) (messages_sent q a)
    \<and> (CallConnect \<in> set calls \<longrightarrow> (\<exists>h. hs_fuel h q \<noteq> 0))"
proof (cases a)
  case (Do_keepalive n)
  then have "same_log q q'"
    using p healthy_operations [OF h, of No_error] by (auto simp: asyncKeepalive_def assertR_Inr keepalive_loop_def)
  with Do_keepalive evolves_same [OF h] show ?thesis by (intro exI [of _ "[]"]) simp
next
  case (Do_send stack bs n)
  with asyncSend_evolves [OF laws h, of stack bs "User_send n" q'] en p show ?thesis
    by (intro exI [of _ "[CallWrite stack bs]"]) simp
next
  case (Do_receive room n)
  then have q': "q' = mq_consume E (Receive room n) q"
    using p healthy_resume [OF h, of No_error] by (simp add: asyncReceive_def assertR_Inr)
  have "\<forall>i \<in> set (items E q). \<not> failed (fst i)" using h by (simp add: healthy_def)
  note m = consume_moves [OF laws this, of "Receive room n"]
  have r: "receives_only q q'" using consume_ok [OF laws] q' by blast
  then have "mqContext q' = mqContext q" "outgoing q' = outgoing q"
    using receives_only_simps(1,2) [OF r] by (simp_all add: kept_def outgoing_def)
  moreover have "healthy E q'"
    using h m receives_only_simps(6,12,13) [OF r] q' by (auto simp: healthy_def)
  ultimately have "evolves E q q' [] [] [Receive room n]" using m q' by (auto simp: evolves_def)
  with Do_receive show ?thesis by (intro exI [of _ "[]"]) simp
next
  case (Read_done ec octets)
  let ?q = "q\<lparr>pending_reads := pending_reads q - 1\<rparr>"
  have h': "healthy E ?q" using evolves_same [OF h, of ?q] by (simp add: evolves_def)
  obtain q1 where q1: "foldR (mq_deliver E) octets ?q = Inr q1" "flushWriteBuffer E Pump_flushed q1 = Inr q'"
    using p s Read_done by (auto simp: handleRead_def bindR_eq_Inr)
  have "evolves E ?q q' [] (map CallOctet octets) []"
    using flushed_evolves [OF delivers_evolve [OF laws h' q1(1)] q1(2)] .
  then have "evolves E q q' [] (map CallOctet octets) []" by (rule evolves_after [OF h, rotated]) simp
  with Read_done explains_octets show ?thesis by (intro exI [of _ "map CallOctet octets"]) auto
next
  case (Write_done ec n)
  let ?q = "q\<lparr>pending_writes := tl (pending_writes q)\<rparr>"
  have h': "healthy E ?q" using evolves_same [OF h, of ?q] by (simp add: evolves_def)
  obtain b k rest where o: "mOutbox q = (b, k) # rest" and w: "pending_writes q = [b]"
    using inv en Write_done by (cases "mOutbox q") (auto simp: pumps_ok_def front_written_def)
  have "evolves E ?q q' b [] []"
    by (rule handleWrite_evolves [OF h']) (use o p s Write_done in auto)
  then have "evolves E q q' b [] []" by (rule evolves_after [OF h, rotated]) simp
  with Write_done w show ?thesis by (intro exI [of _ "[]"]) simp
next
  case (Timer_done i ec stack)
  let ?q = "q\<lparr>pending_waits := take i (pending_waits q) @ drop (Suc i) (pending_waits q)\<rparr>"
  have h': "healthy E ?q" using evolves_same [OF h, of ?q] by (simp add: evolves_def)
  have "\<not> failed ec \<or> ec = Asio Operation_aborted" "length stack = SFP_CONFIG_MAX_PACKET_SIZE"
    "call_timer E stack (fst (pending_waits q ! i)) ec ?q = Inr q'"
    using en p Timer_done by auto
  from call_timer_evolves [OF laws h' this] obtain calls where
    c: "evolves E ?q q' [] calls []" "explains calls [] (messages_sent q a)"
      "CallConnect \<in> set calls \<longrightarrow> (\<exists>h. timer_fuel h (fst (pending_waits q ! i)) \<noteq> 0)"
    using Timer_done by (auto simp: explains_def)
  have "pending_waits q ! i \<in> set (pending_waits q)" using en Timer_done by simp
  note fuel = waiting_fuel [OF this]
  have "CallConnect \<in> set calls \<longrightarrow> (\<exists>h. hs_fuel h q \<noteq> 0)"
    using c(3) fuel by (metis le_zero_eq)
  with evolves_after [OF h _ c(1)] c(2) Timer_done show ?thesis by auto
qed (use s in simp_all)

lemma run_evolves:
  assumes "mq_run E q as s" and "env_ok E" and "mq_good E q" and "healthy E q" and "\<forall>a \<in> set as. smooth a"
  shows "\<exists>calls. evolves E q s (gather octets_written E q as) calls (concat (map receives_asked as))
    \<and> explains calls (concat (map octets_read as)) (gather messages_sent E q as)
    \<and> (CallConnect \<in> set calls \<longrightarrow> (\<exists>h. hs_fuel h q \<noteq> 0))"
  using assms
proof (induction rule: mq_run.induct)
  case (nothing q)
  then show ?case by (intro exI [of _ "[]"]) (simp add: evolves_same)
next
  case (another q a r as s)
  have laws: "pcqueue_laws (eQ E)" using another.prems(1) by (simp add: env_ok_def)
  have good: "mq_good E r" using perform_ok [OF another.prems(1,2) another.hyps(1)] another.hyps(2) by auto
  obtain c1 where c1: "evolves E q r (octets_written q a) c1 (receives_asked a)" "explains c1 (octets_read a) (messages_sent q a)"
      "CallConnect \<in> set c1 \<longrightarrow> (\<exists>h. hs_fuel h q \<noteq> 0)"
    using perform_evolves [OF laws good_pumps [OF another.prems(2)] another.prems(3) another.hyps(1) _ another.hyps(2)]
      another.prems(4) by auto
  have "healthy E r" using c1(1) by (simp add: evolves_def)
  with another.IH another.prems(1,4) good obtain c2 where
    c2: "evolves E r s (gather octets_written E r as) c2 (concat (map receives_asked as))"
      "explains c2 (concat (map octets_read as)) (gather messages_sent E r as)"
      "CallConnect \<in> set c2 \<longrightarrow> (\<exists>h. hs_fuel h r \<noteq> 0)" by auto
  have "hs_fuel h q \<noteq> 0" if "hs_fuel h r \<noteq> 0" for h
    using perform_fuel [OF laws another.hyps(1,2), of h] another.prems(4) that by (cases a) auto
  with c1(3) c2(3) have "CallConnect \<in> set (c1 @ c2) \<longrightarrow> (\<exists>h. hs_fuel h q \<noteq> 0)" by auto
  with evolves_trans [OF c1(1) c2(1)] explains_append [OF c1(2) c2(2)] another.hyps(2) show ?case
    by (intro exI [of _ "c1 @ c2"]) simp
qed

text \<open>
  C40. The message queue refines the library while nothing fails, and without a close or a new
  handshake. For any such run there are
  library calls, with the octets that were read and the messages that were sent (an empty
  one for every period of a keepalive operation), such that the octets written, those in
  the outbox and in the write buffer are the frames of the specification, in order; its
  deliveries, after the messages that were queued, go in their order to the receives, in
  the order in which they were asked for - truncated with \<open>message_size\<close> where there is not
  room enough -, and the rest is queued.
\<close>

theorem queue_refines_library:
  assumes "env_ok E" and "mq_inv E q" and "is_open E q" and "mReadPumpError q = No_error"
    and "\<forall>i \<in> set (items E q). \<not> failed (fst i)"
    and "mq_run E q as s" and "\<forall>a \<in> set as. smooth a"
  shows "\<exists>calls fs ds ms ks. (\<forall>call \<in> set calls. call_ok call)
    \<and> concat (map call_octets calls) = concat (map octets_read as)
    \<and> concat (map call_packets calls) = gather messages_sent E q as
    \<and> run_spec on_call (abs_sfp (eR E) (mqContext q)) calls = (abs_sfp (eR E) (mqContext s), fs, ds)
    \<and> gather octets_written E q as @ outgoing s = outgoing q @ wire fs
    \<and> map snd (items E q) @ ds = ms @ map snd (items E s)
    \<and> consumers E q @ concat (map receives_asked as) = ks @ consumers E s
    \<and> length ks = length ms \<and> receipts_of s = receipts_of q @ receipts ks ms"
proof -
  have "healthy E q" using assms(2-5) by (simp add: healthy_def mq_inv_def)
  moreover have "mq_good E q" using assms(2) by (simp add: mq_good_def)
  ultimately obtain calls where "evolves E q s (gather octets_written E q as) calls (concat (map receives_asked as))"
    "explains calls (concat (map octets_read as)) (gather messages_sent E q as)"
    using run_evolves [OF assms(6,1) _ _ assms(7)] by blast
  then show ?thesis unfolding evolves_def queue_moves_def explains_def by blast
qed

text \<open>The message of \<^const>\<open>writing_queue\<close> is written; then one is asked for.\<close>

theorem queue_refines_library_witness:
  "\<exists>s fs ms ks. mq_run example_env writing_queue [Write_done No_error 2, Do_receive 10 8] s
     \<and> [1, 2] @ outgoing s = [1, 2] @ wire fs
     \<and> [Receive 10 8] = ks @ consumers example_env s \<and> length ks = length ms \<and> receipts_of s = receipts ks ms"
proof -
  let ?as = "[Write_done No_error 2, Do_receive 10 8]"
  let ?r = "report_to (Sent 4 No_error) (writing_queue\<lparr>pending_writes := [], mOutbox := []\<rparr>)"
  have w: "mOutbox writing_queue = [([1, 2], User_send 4)]" "pending_writes writing_queue = [[1, 2]]" "mHandshakeComplete writing_queue"
    "is_open example_env writing_queue" "mReadPumpError writing_queue = No_error" "items example_env writing_queue = []"
    "consumers example_env writing_queue = []" "receipts_of writing_queue = []" "outgoing writing_queue = [1, 2]"
    by (simp_all add: writing_queue_def new_queue_def is_open_def example_env_def flag_stream_def list_pcqueue_def
        receipts_of_def outgoing_def)
  have en: "enabled writing_queue (Write_done No_error 2)" using w(2) by simp
  have p: "perform example_env writing_queue (Write_done No_error 2) = Inr ?r"
    using w(1,2) by (simp add: handleWrite_def handleWrite_done_def assertR_def writePump_def report_to_def)
  have en': "enabled ?r (Do_receive 10 8)" using w(3) by simp
  have good: "mq_good example_env ?r"
    using perform_ok [OF example_env_ok _ en] writing_queue_inv p by (auto simp: mq_good_def)
  obtain s where "perform example_env ?r (Do_receive 10 8) = Inr s"
    using perform_ok [OF example_env_ok good en'] by blast
  with en p en' have run: "mq_run example_env writing_queue ?as s" by (auto intro: mq_run.intros)
  have "\<forall>i \<in> set (items example_env writing_queue). \<not> failed (fst i)" "\<forall>a \<in> set ?as. smooth a"
    by (simp_all add: w(6))
  note refines = queue_refines_library [OF example_env_ok writing_queue_inv w(4,5) this(1) run this(2)]
  have "gather octets_written example_env writing_queue ?as = [1, 2]"
    using w(2) by (simp del: perform.simps split: sum.split)
  with refines obtain fs ms ks where "[1, 2] @ outgoing s = [1, 2] @ wire fs"
    "concat (map receives_asked ?as) = ks @ consumers example_env s" "length ks = length ms" "receipts_of s = receipts ks ms"
    by (simp only: w(7-9) append_Nil) blast
  with run show ?thesis by (intro exI [of _ s] exI [of _ fs] exI [of _ ms] exI [of _ ks]) (simp only: receives_asked.simps list.map concat.simps append.simps simp_thms)
qed

end
