(* ===== verification/Sfp_Exchange.thy ===== *)
theory Sfp_Exchange
  imports Sfp_Duplex Sfp_StreamFaults Sfp_QueueRefines
begin

text \<open>
  Whole programs on both ends of a link: two composed streams, two message queues, or one
  of each. Both sides send and receive as they like; messages arrive as they were sent.
\<close>

section \<open>A stream as an end of a link\<close>

lemma reach_steps: "session_reach R B D n n' \<longleftrightarrow> (session_step R B D)\<^sup>*\<^sup>* n n'"
proof
  assume "session_reach R B D n n'"
  then show "(session_step R B D)\<^sup>*\<^sup>* n n'" by induction (auto intro: rtranclp.rtrancl_into_rtrancl)
next
  assume "(session_step R B D)\<^sup>*\<^sup>* n n'"
  then show "session_reach R B D n n'" by induction (auto intro: session_reach.intros)
qed

text \<open>A connected stream from which nothing is left to process.\<close>

definition stream_opens ::
  "('h, 'z) ringbuffer_scheme \<Rightarrow> ('b, 'y) dynbuf_scheme \<Rightarrow> ('d, 'x) dynbuf_scheme \<Rightarrow> ('h, 'b, 'd) session \<Rightarrow> bool" where
  "stream_opens R B D n \<longleftrightarrow> session_start R B n \<and> (\<exists>limit. dynbuf_laws D limit)
     \<and> sfpIsConnected (sfp_context (strm n)) \<and> abs_receiver (sfp_context (strm n)) = idle
     \<and> len (sfp_packet (strm n)) = 0 \<and> db_data B (read_buffer (strm n)) = []"

text \<open>Everything read is processed and fetched; everything written has been sent.\<close>

definition stream_quiet :: "('b, 'y) dynbuf_scheme \<Rightarrow> ('h, 'b, 'd) session \<Rightarrow> bool" where
  "stream_quiet B n \<longleftrightarrow> db_data B (read_buffer (strm n)) = [] \<and> db_data B (write_buffer (strm n)) = []
     \<and> len (sfp_packet (strm n)) = 0"

definition stream_view :: "('h, 'z) ringbuffer_scheme \<Rightarrow> ('h, 'b, 'd) session \<Rightarrow> endpoint" where
  "stream_view R n = abs_endpoint R (sfp_context (strm n))"

lemma session_step_grows:
  "session_step R B D n n' \<Longrightarrow> prefix (octets_sent n) (octets_sent n') \<and> prefix (messages_written n) (messages_written n')"
  by (erule session_step.cases)
    (auto simp: reader_at_def writer_at_def observe_def split: prod.splits progress.splits)

lemma prefix_filter: "prefix xs ys \<Longrightarrow> prefix (filter P xs) (filter P ys)"
  by (auto simp: prefix_def)

lemma stream_explained:
  assumes "stream_opens R B D n0" and "(session_step R B D)\<^sup>*\<^sup>* n0 n"
  shows "\<exists>calls a fs ds. CallConnect \<notin> set calls \<and> run_spec on_call (stream_view R n0, idle) calls = (a, fs, ds)
    \<and> prefix (concat (map call_octets calls)) (octets_got n) \<and> concat (map call_packets calls) = messages_written n
    \<and> begun fs (octets_sent n)
    \<and> ((\<forall>d \<in> set ds. length d \<le> max_payload) \<longrightarrow> prefix (messages_read n) (filter (\<lambda>d. d \<noteq> []) ds)
        \<and> (stream_quiet B n \<longrightarrow> messages_read n = filter (\<lambda>d. d \<noteq> []) ds))
    \<and> (stream_quiet B n \<longrightarrow> concat (map call_octets calls) = octets_got n \<and> on_line fs (octets_sent n))"
proof -
  obtain limit where D: "dynbuf_laws D limit" and start: "session_start R B n0"
    using assms(1) by (auto simp: stream_opens_def)
  have "stream_session_inv R B (strm n0) n"
    using session_reach_inv [OF _ start D] assms(2) by (simp add: reach_steps)
  then obtain calls fs ds where c: "CallConnect \<notin> set calls"
    "run_spec on_call (abs_sfp R (sfp_context (strm n0))) calls = (abs_sfp R (sfp_context (strm n)), fs, ds)"
    "concat (map call_octets calls) @ db_data B (read_buffer (strm n)) = octets_got n"
    "concat (map call_packets calls) = messages_written n"
    "octets_sent n @ db_data B (write_buffer (strm n)) = wire fs"
    "messages_read n @ pending_message (strm n) = pending_message (strm n0) @ filter (\<lambda>d. d \<noteq> []) ds"
    unfolding stream_session_inv_def explained_def by blast
  have none: "pending_message (strm n0) = []" "abs_sfp R (sfp_context (strm n0)) = (stream_view R n0, idle)"
    using assms(1) by (simp_all add: stream_opens_def pending_message_def abs_sfp_def stream_view_def)
  have "prefix (concat (map call_octets calls)) (octets_got n)" "prefix (octets_sent n) (wire fs)"
    "prefix (messages_read n) (filter (\<lambda>d. d \<noteq> []) ds)"
    using c(3,5,6) none(1) by (auto intro: prefixI [OF sym])
  moreover from this(2) have "begun fs (octets_sent n)" by (rule begunI)
  moreover have "messages_read n = filter (\<lambda>d. d \<noteq> []) ds" "concat (map call_octets calls) = octets_got n"
    "octets_sent n = wire fs" if "stream_quiet B n"
    using that c(3,5,6) none(1) by (simp_all add: stream_quiet_def pending_message_def)
  ultimately show ?thesis using c(1,2,4) none(2)
    by (intro exI [of _ calls] exI [of _ "abs_sfp R (sfp_context (strm n))"] exI [of _ fs] exI [of _ ds]) simp
qed

lemma stream_connected:
  assumes "stream_opens R B D n"
  shows "conn (stream_view R n) = SFP_CONNECT_STATE_CONNECTED \<and> seq_ok (rxs (stream_view R n))"
    "octets_got n = [] \<and> octets_sent n = []"
  using assms inv_seqs(2) [of R "sfp_context (strm n)"]
  by (simp_all add: stream_opens_def session_start_def stream_ok_def stream_view_def endpoint_simps sfpIsConnected_def)

interpretation stream_end: front_end "stream_opens R B D" "session_step R B D" "stream_quiet B" "stream_view R"
    octets_got octets_sent messages_written messages_read "filter (\<lambda>d. d \<noteq> [])" for R B D
  by unfold_locales
    (erule stream_explained stream_connected session_step_grows prefix_filter, assumption?)+

section \<open>A message queue as an end of a link\<close>

text \<open>A queue with what it has read and written, and the messages its client has sent.\<close>

record ('h, 'q, 's) mq_session =
  mqueue :: "('h, 'q, 's) mq"
  mq_sent :: "u8 list"
  mq_got :: "u8 list"
  mq_posted :: "u8 list list"

text \<open>Nothing fails, and a client that receives has room for any message.\<close>

fun roomy :: "consumer \<Rightarrow> bool" where
  "roomy (Receive room h) \<longleftrightarrow> max_payload \<le> room"
| "roomy Discard \<longleftrightarrow> False"

inductive mq_session_step :: "('h, 'q, 's) env \<Rightarrow> ('h, 'q, 's) mq_session \<Rightarrow> ('h, 'q, 's) mq_session \<Rightarrow> bool"
  for E where
  performs: "enabled (mqueue n) a \<Longrightarrow> smooth a \<Longrightarrow> \<forall>k \<in> set (receives_asked a). roomy k \<Longrightarrow> perform E (mqueue n) a = Inr q
    \<Longrightarrow> mq_session_step E n
      \<lparr>mqueue = q, mq_sent = mq_sent n @ octets_written (mqueue n) a, mq_got = mq_got n @ octets_read a,
       mq_posted = mq_posted n @ messages_sent (mqueue n) a\<rparr>"

text \<open>What the handlers of the receives were given.\<close>

fun report_data :: "report \<Rightarrow> u8 list list" where
  "report_data (Received h ec bs) = [bs]"
| "report_data _ = []"

definition mq_given :: "('h, 'q, 's) mq_session \<Rightarrow> u8 list list" where
  "mq_given n = concat (map report_data (reports (mqueue n)))"

definition mq_view :: "('h, 'q, 's) env \<Rightarrow> ('h, 'q, 's) mq_session \<Rightarrow> endpoint" where
  "mq_view E n = abs_endpoint (eR E) (mqContext (mqueue n))"

text \<open>A connected queue with no operation under way but the read pump.\<close>

definition mq_opens :: "('h, 'q, 's) env \<Rightarrow> ('h, 'q, 's) mq_session \<Rightarrow> bool" where
  "mq_opens E n \<longleftrightarrow> env_ok E \<and> mq_inv E (mqueue n) \<and> is_open E (mqueue n) \<and> mReadPumpError (mqueue n) = No_error
     \<and> items E (mqueue n) = [] \<and> consumers E (mqueue n) = [] \<and> outgoing (mqueue n) = []
     \<and> reports (mqueue n) = [] \<and> pending_waits (mqueue n) = [] \<and> mOutbox (mqueue n) = []
     \<and> sfpIsConnected (mqContext (mqueue n)) \<and> abs_receiver (mqContext (mqueue n)) = idle
     \<and> mq_sent n = [] \<and> mq_got n = [] \<and> mq_posted n = []"

text \<open>No message is queued, and everything written has been sent.\<close>

definition mq_quiet :: "('h, 'q, 's) env \<Rightarrow> ('h, 'q, 's) mq_session \<Rightarrow> bool" where
  "mq_quiet E n \<longleftrightarrow> items E (mqueue n) = [] \<and> outgoing (mqueue n) = []"

lemma report_data_receipts: "concat (map report_data rs) = concat (map report_data (filter is_receipt rs))"
proof (induction rs)
  case (Cons r rs)
  then show ?case by (cases r) simp_all
qed simp

lemma given_receipts:
  assumes "length ks = length ms" and "\<forall>k \<in> set ks. roomy k" and "\<forall>m \<in> set ms. length m \<le> max_payload"
  shows "concat (map report_data (receipts ks ms)) = ms"
  using assms
proof (induction ks ms rule: list_induct2)
  case (Cons k ks m ms)
  then show ?case by (cases k) auto
qed simp

lemma mq_session_evolves:
  assumes "mq_opens E n0" and "(mq_session_step E)\<^sup>*\<^sup>* n0 n"
  shows "mq_good E (mqueue n) \<and> (\<forall>h. hs_fuel h (mqueue n) = 0) \<and>
    (\<exists>calls rs. CallConnect \<notin> set calls \<and> evolves E (mqueue n0) (mqueue n) (mq_sent n) calls rs
      \<and> explains calls (mq_got n) (mq_posted n) \<and> (\<forall>k \<in> set rs. roomy k))"
  using assms(2)
proof (induction rule: rtranclp_induct)
  case base
  have "healthy E (mqueue n0)" using assms(1) by (simp add: healthy_def mq_opens_def mq_inv_def)
  then have "evolves E (mqueue n0) (mqueue n0) [] [] []" by (rule evolves_same) simp
  with assms(1) show ?case
    by (auto simp: mq_opens_def mq_good_def fuel_defs intro!: exI [of _ "[]"])
next
  case (step n n')
  obtain calls rs where c: "CallConnect \<notin> set calls" "evolves E (mqueue n0) (mqueue n) (mq_sent n) calls rs"
    "explains calls (mq_got n) (mq_posted n)" "\<forall>k \<in> set rs. roomy k" and good: "mq_good E (mqueue n)"
    and fuel: "\<forall>h. hs_fuel h (mqueue n) = 0" using step.IH by blast
  have env: "env_ok E" using assms(1) by (simp add: mq_opens_def)
  then have laws: "pcqueue_laws (eQ E)" by (simp add: env_ok_def)
  from step.hyps(2) obtain a where a: "enabled (mqueue n) a" "smooth a" "\<forall>k \<in> set (receives_asked a). roomy k"
    "perform E (mqueue n) a = Inr (mqueue n')" "mq_sent n' = mq_sent n @ octets_written (mqueue n) a"
    "mq_got n' = mq_got n @ octets_read a" "mq_posted n' = mq_posted n @ messages_sent (mqueue n) a"
    by (cases rule: mq_session_step.cases) simp
  have "healthy E (mqueue n)" using c(2) by (simp add: evolves_def)
  from perform_evolves [OF laws good_pumps [OF good] this a(1,2,4)] obtain calls' where
    c': "evolves E (mqueue n) (mqueue n') (octets_written (mqueue n) a) calls' (receives_asked a)"
    "explains calls' (octets_read a) (messages_sent (mqueue n) a)" "CallConnect \<notin> set calls'" using fuel by auto
  have "mq_good E (mqueue n')" using perform_ok [OF env good a(1)] a(4) by auto
  moreover have "hs_fuel h (mqueue n') = 0" for h
    using perform_fuel [OF laws a(1,4), of h] fuel a(2) by (cases a) auto
  ultimately show ?case
    using evolves_trans [OF c(2) c'(1)] explains_append [OF c(3) c'(2)] c(1,4) c'(3) a(3,5-7)
    by (intro conjI exI [of _ "calls @ calls'"] exI [of _ "rs @ receives_asked a"]) auto
qed

lemma mq_explained:
  assumes "mq_opens E n0" and "(mq_session_step E)\<^sup>*\<^sup>* n0 n"
  shows "\<exists>calls a fs ds. CallConnect \<notin> set calls \<and> run_spec on_call (mq_view E n0, idle) calls = (a, fs, ds)
    \<and> prefix (concat (map call_octets calls)) (mq_got n) \<and> concat (map call_packets calls) = mq_posted n
    \<and> begun fs (mq_sent n)
    \<and> ((\<forall>d \<in> set ds. length d \<le> max_payload) \<longrightarrow> prefix (mq_given n) ds
        \<and> (mq_quiet E n \<longrightarrow> mq_given n = ds))
    \<and> (mq_quiet E n \<longrightarrow> concat (map call_octets calls) = mq_got n \<and> on_line fs (mq_sent n))"
proof -
  obtain calls rs where c: "CallConnect \<notin> set calls" "evolves E (mqueue n0) (mqueue n) (mq_sent n) calls rs"
    "explains calls (mq_got n) (mq_posted n)" "\<forall>k \<in> set rs. roomy k" using mq_session_evolves [OF assms] by blast
  let ?a = "abs_sfp (eR E) (mqContext (mqueue n))"
  obtain fs ds where e: "run_spec on_call (abs_sfp (eR E) (mqContext (mqueue n0))) calls = (?a, fs, ds)"
    "mq_sent n @ outgoing (mqueue n) = outgoing (mqueue n0) @ wire fs" "queue_moves E (mqueue n0) (mqueue n) ds rs"
    using c(2) unfolding evolves_def by blast
  have empty: "outgoing (mqueue n0) = []" "items E (mqueue n0) = []" "consumers E (mqueue n0) = []" "receipts_of (mqueue n0) = []"
    "abs_sfp (eR E) (mqContext (mqueue n0)) = (mq_view E n0, idle)"
    using assms(1) by (simp_all add: mq_opens_def receipts_of_def mq_view_def abs_sfp_def)
  then obtain ms ks where m: "length ks = length ms" "ds = ms @ map snd (items E (mqueue n))"
    "rs = ks @ consumers E (mqueue n)" "receipts_of (mqueue n) = receipts ks ms"
    using e(3) unfolding queue_moves_def by auto
  have given: "mq_given n = concat (map report_data (receipts ks ms))"
    using m(4) report_data_receipts by (metis mq_given_def receipts_of_def)
  have "mq_given n = ms" if "\<forall>d \<in> set ds. length d \<le> max_payload"
    unfolding given using given_receipts [OF m(1)] c(4) m(2,3) that by simp
  then have "(\<forall>d \<in> set ds. length d \<le> max_payload) \<longrightarrow> prefix (mq_given n) ds \<and> (mq_quiet E n \<longrightarrow> mq_given n = ds)"
    using m(2) by (auto simp: mq_quiet_def)
  moreover have "begun fs (mq_sent n)" using e(2) empty(1) by (intro begunI(2)) (auto intro: prefixI [OF sym])
  moreover have "mq_quiet E n \<longrightarrow> on_line fs (mq_sent n)" using e(2) empty(1) by (auto simp: mq_quiet_def)
  ultimately show ?thesis using c(1,3) e(1) empty(5)
    by (intro exI [of _ calls] exI [of _ ?a] exI [of _ fs] exI [of _ ds]) (simp add: explains_def)
qed

lemma mq_connected:
  assumes "mq_opens E n"
  shows "conn (mq_view E n) = SFP_CONNECT_STATE_CONNECTED \<and> seq_ok (rxs (mq_view E n))" "mq_got n = [] \<and> mq_sent n = []"
  using assms inv_seqs(2) [of "eR E" "mqContext (mqueue n)"]
  by (simp_all add: mq_opens_def mq_inv_def ready_def mq_view_def endpoint_simps sfpIsConnected_def)

lemma mq_session_grows: "mq_session_step E n n' \<Longrightarrow> prefix (mq_sent n) (mq_sent n') \<and> prefix (mq_posted n) (mq_posted n')"
  by (erule mq_session_step.cases) simp

interpretation queue_end: front_end "mq_opens E" "mq_session_step E" "mq_quiet E" "mq_view E"
    mq_got mq_sent mq_posted mq_given "\<lambda>ds. ds" for E
  by unfold_locales (erule mq_explained mq_connected mq_session_grows, assumption?)+

section \<open>Two programs and a link\<close>

interpretation streams: link "stream_opens R B D" "session_step R B D" "stream_quiet B" "stream_view R"
    octets_got octets_sent messages_written messages_read "filter (\<lambda>d. d \<noteq> [])"
    "stream_opens R' B' D'" "session_step R' B' D'" "stream_quiet B'" "stream_view R'"
    octets_got octets_sent messages_written messages_read "filter (\<lambda>d. d \<noteq> [])" for R B D R' B' D'
  by unfold_locales

interpretation queues: link "mq_opens E" "mq_session_step E" "mq_quiet E" "mq_view E"
    mq_got mq_sent mq_posted mq_given "\<lambda>ds. ds"
    "mq_opens E'" "mq_session_step E'" "mq_quiet E'" "mq_view E'"
    mq_got mq_sent mq_posted mq_given "\<lambda>ds. ds" for E E'
  by unfold_locales

interpretation stream_queue: link "stream_opens R B D" "session_step R B D" "stream_quiet B" "stream_view R"
    octets_got octets_sent messages_written messages_read "filter (\<lambda>d. d \<noteq> [])"
    "mq_opens E" "mq_session_step E" "mq_quiet E" "mq_view E"
    mq_got mq_sent mq_posted mq_given "\<lambda>ds. ds" for R B D E
  by unfold_locales

definition session_wire ::
  "('h, 'z) ringbuffer_scheme \<Rightarrow> ('b, 'y) dynbuf_scheme \<Rightarrow> ('d, 'x) dynbuf_scheme
    \<Rightarrow> ('h, 'b, 'd) session \<times> ('h, 'b, 'd) session \<Rightarrow> ('h, 'b, 'd) session \<times> ('h, 'b, 'd) session \<Rightarrow> bool" where
  "session_wire R B D =
     linked (session_step R B D) octets_got octets_sent (session_step R B D) octets_got octets_sent"

definition mq_wire ::
  "('h, 'q, 's) env \<Rightarrow> ('h, 'q, 's) mq_session \<times> ('h, 'q, 's) mq_session
    \<Rightarrow> ('h, 'q, 's) mq_session \<times> ('h, 'q, 's) mq_session \<Rightarrow> bool" where
  "mq_wire E = linked (mq_session_step E) mq_got mq_sent (mq_session_step E) mq_got mq_sent"

definition mixed_wire ::
  "('h, 'z) ringbuffer_scheme \<Rightarrow> ('b, 'y) dynbuf_scheme \<Rightarrow> ('d, 'x) dynbuf_scheme \<Rightarrow> ('k, 'q, 's) env
    \<Rightarrow> ('h, 'b, 'd) session \<times> ('k, 'q, 's) mq_session \<Rightarrow> ('h, 'b, 'd) session \<times> ('k, 'q, 's) mq_session \<Rightarrow> bool" where
  "mixed_wire R B D E =
     linked (session_step R B D) octets_got octets_sent (mq_session_step E) mq_got mq_sent"

text \<open>Each side expects the number that the other will use next.\<close>

definition in_step :: "'h sfp \<Rightarrow> 'k sfp \<Rightarrow> bool" where
  "in_step c d \<longleftrightarrow> rx_seq (rx d) = tx_seq (tx c) \<and> rx_seq (rx c) = tx_seq (tx d)"

lemma in_step_views: "in_step c d \<longleftrightarrow> rxs (abs_endpoint R' d) = txs (abs_endpoint R c) \<and> rxs (abs_endpoint R c) = txs (abs_endpoint R' d)"
  by (simp add: in_step_def endpoint_simps)

text \<open>
  C7. Two programs talk over two composed streams: both start readers and writers as they
  like, with messages of at most 254 octets, their operations interleave, and the link, which
  loses nothing, delays octets at will. At any moment each
  side has read a beginning of the messages that the other has written (empty ones, which a
  reader cannot see, apart), in order, each once; and all of them once both are quiet and
  everything sent has arrived.
\<close>

theorem streams_exchange:
  assumes "stream_opens R B D n0" and "stream_opens R B D m0"
    and "in_step (sfp_context (strm n0)) (sfp_context (strm m0))"
    and "session_wire R B D (n0, m0) (n, m)"
    and "\<forall>bs \<in> set (messages_written n) \<union> set (messages_written m). length bs \<le> max_payload"
  shows "prefix (messages_read m) (filter (\<lambda>d. d \<noteq> []) (messages_written n))
    \<and> prefix (messages_read n) (filter (\<lambda>d. d \<noteq> []) (messages_written m))
    \<and> (stream_quiet B n \<and> stream_quiet B m \<and> octets_got m = octets_sent n \<longrightarrow>
        messages_read m = filter (\<lambda>d. d \<noteq> []) (messages_written n))
    \<and> (stream_quiet B n \<and> stream_quiet B m \<and> octets_got n = octets_sent m \<longrightarrow>
        messages_read n = filter (\<lambda>d. d \<noteq> []) (messages_written m))"
  using assms(3,4) in_step_views
  by (intro streams.delivered_in_order [OF assms(1,2) _ _ _ assms(5)]) (auto simp: stream_view_def session_wire_def)

text \<open>
  C8. Two programs talk over two message queues, while no read, write or stream fails: they
  send, receive and keep alive as they like, with messages of at most 254 octets and room for
  any of them. At any moment the
  receives of each side have been given a beginning of the messages that the other has
  sent (an empty one for each keepalive period), in order, each once; and all of them once
  both are quiet and everything written has arrived.
\<close>

theorem queues_exchange:
  assumes "mq_opens E n0" and "mq_opens E m0"
    and "in_step (mqContext (mqueue n0)) (mqContext (mqueue m0))"
    and "mq_wire E (n0, m0) (n, m)"
    and "\<forall>bs \<in> set (mq_posted n) \<union> set (mq_posted m). length bs \<le> max_payload"
  shows "prefix (mq_given m) (mq_posted n) \<and> prefix (mq_given n) (mq_posted m)
    \<and> (mq_quiet E n \<and> mq_quiet E m \<and> mq_got m = mq_sent n \<longrightarrow> mq_given m = mq_posted n)
    \<and> (mq_quiet E n \<and> mq_quiet E m \<and> mq_got n = mq_sent m \<longrightarrow> mq_given n = mq_posted m)"
  using assms(3,4) in_step_views
  by (intro queues.delivered_in_order [OF assms(1,2) _ _ _ assms(5)]) (auto simp: mq_view_def mq_wire_def)

text \<open>
  C9. The two front ends understand each other: with a composed stream on one end of the link
  and a message queue on the other, the same holds of both directions, for messages of at
  most 254 octets and while no operation of the queue fails.
\<close>

theorem stream_meets_queue:
  assumes "stream_opens R B D n0" and "mq_opens E m0"
    and "in_step (sfp_context (strm n0)) (mqContext (mqueue m0))"
    and "mixed_wire R B D E (n0, m0) (n, m)"
    and "\<forall>bs \<in> set (messages_written n) \<union> set (mq_posted m). length bs \<le> max_payload"
  shows "prefix (mq_given m) (messages_written n)
    \<and> prefix (messages_read n) (filter (\<lambda>d. d \<noteq> []) (mq_posted m))
    \<and> (stream_quiet B n \<and> mq_quiet E m \<and> mq_got m = octets_sent n \<longrightarrow> mq_given m = messages_written n)
    \<and> (stream_quiet B n \<and> mq_quiet E m \<and> octets_got n = mq_sent m \<longrightarrow>
        messages_read n = filter (\<lambda>d. d \<noteq> []) (mq_posted m))"
  using assms(3,4) in_step_views
  by (intro stream_queue.delivered_in_order [OF assms(1,2) _ _ _ assms(5)])
    (auto simp: stream_view_def mq_view_def mixed_wire_def)

end
