(* ===== verification/Sfp_Passage.thy ===== *)
theory Sfp_Passage
  imports Sfp_Exchange
begin

text \<open>
  A message on its way from one program to the other, step by step: from a quiet state it
  can always be sent and read.
\<close>

section \<open>The octets of one frame\<close>

lemma take_message_last:
  "on_octets a xs = (b, fs, []) \<Longrightarrow> on_octet b x = (c, gs, [m]) \<Longrightarrow> m \<noteq> [] \<Longrightarrow>
   take_message a (xs @ [x]) = (c, fs @ gs, m, [])"
  by (induction xs arbitrary: a fs) (auto split: prod.splits)

lemma take_message_frame:
  assumes "conn e = SFP_CONNECT_STATE_CONNECTED" and "seq_ok (rxs e)" and "length m \<le> max_payload" and "m \<noteq> []"
  shows "take_message (e, idle) (wire [USR (rxs e) m]) = ((e\<lparr>rxs := nextSeq (rxs e)\<rparr>, idle), [], m, [])"
proof -
  let ?hdr = "makeHeader SFP_FRAME_USR (rxs e)"
  let ?xs = "SFP_FLAG # escape (frame_body ?hdr m)"
  obtain esc where esc: "deframe idle (escape (frame_body ?hdr m)) = (\<lparr>escaping = esc, body = frame_body ?hdr m\<rparr>, [])"
    using deframe_data [of "escape (frame_body ?hdr m)" idle] assms(3) escape_no_flag
    by (auto simp: max_payload_def sfp_consts)
  let ?r = "\<lparr>escaping = esc, body = frame_body ?hdr m\<rparr>"
  have xs: "deframe idle ?xs = (?r, [])" using esc by simp
  have wire: "wire [USR (rxs e) m] = ?xs @ [SFP_FLAG]" by (simp add: frame_octets_def)
  have "deframe idle (?xs @ [SFP_FLAG]) = (idle, [Some (USR (rxs e) m)])"
    using deframe_wire [of "[USR (rxs e) m]"] assms(2,3) unfolding wire by simp
  then have flag: "deframe ?r [SFP_FLAG] = (idle, [Some (USR (rxs e) m)])"
    unfolding deframe_append xs by (simp split: prod.splits)
  have "on_octets (e, idle) ?xs = ((e, ?r), [], [])"
    unfolding on_octets_deframe xs by simp
  moreover have "on_octet (e, ?r) SFP_FLAG = ((e\<lparr>rxs := nextSeq (rxs e)\<rparr>, idle), [], [m])"
    using receives(1) [OF assms(1), of "[m]"] unfolding on_octet_deframe flag by simp
  ultimately show ?thesis unfolding wire using take_message_last assms(4) by fastforce
qed

section \<open>A stream sends, a stream reads\<close>

text \<open>A connected stream between two operations.\<close>

definition stream_resting ::
  "('h, 'z) ringbuffer_scheme \<Rightarrow> ('b, 'y) dynbuf_scheme \<Rightarrow> ('h, 'b, 'd) session \<Rightarrow> bool" where
  "stream_resting R B n \<longleftrightarrow> stream_ok R B (strm n) \<and> sfpIsConnected (sfp_context (strm n))
     \<and> reader n = None \<and> writer n = None \<and> \<not> phaser_held (strm n) \<and> stream_quiet B n"

lemma stream_sends:
  assumes rest: "stream_resting R B n" and len: "length bs \<le> SFP_CONFIG_MAX_PACKET_SIZE"
    and fit: "length (wire (snd (on_send (stream_view R n) bs))) \<le> buffer_limit"
  obtains n1 n2 n3 where "session_step R B D n n1" "session_step R B D n1 n2" "session_step R B D n2 n3"
    "octets_got n1 = octets_got n" "octets_got n2 = octets_got n" "octets_got n3 = octets_got n"
    "octets_sent n3 = octets_sent n @ wire (snd (on_send (stream_view R n) bs))"
    "messages_written n3 = messages_written n @ [bs]" "messages_read n3 = messages_read n" "stream_resting R B n3"
proof -
  let ?s = "(strm n)\<lparr>phaser_held := True\<rparr>" and ?c = "sfp_context (strm n)"
  let ?stack = "replicate SFP_CONFIG_MAX_PACKET_SIZE 0" and ?done = "\<lparr>c_ec = No_error, c_data = [], c_expired = False\<rparr>"
  let ?xs = "wire (snd (on_send (stream_view R n) bs))"
  have r: "stream_ok R B (strm n)" "sfpIsConnected ?c" "reader n = None" "writer n = None" "\<not> phaser_held (strm n)"
    "db_data B (read_buffer (strm n)) = []" "db_data B (write_buffer (strm n)) = []" "len (sfp_packet (strm n)) = 0"
    using rest by (simp_all add: stream_resting_def stream_quiet_def)
  have w: "write_start (strm n) = Inr (strm n, Suspend WO_dispatch Dispatch)" using r(2) by (simp add: write_start_def)
  let ?n1 = "writer_at n bs (strm n, Suspend WO_dispatch Dispatch)"
  note step1 = session_step.start_write [OF r(4) len w, of R B D]
  have n1: "writer ?n1 = Some (WO_dispatch, Dispatch, bs)" "strm ?n1 = strm n" by (simp_all add: writer_at_def)
  have inv: "sfp_inv R ?c" using r(1) by (simp add: stream_ok_def)
  obtain c' where c': "sfpWritePacket R ?c ?stack bs = Inr (c', length ?xs)" "sfp_inv R c'" "abs_receiver c' = abs_receiver ?c"
    "reacts R ?c c' (fst (on_send (stream_view R n) bs)) (snd (on_send (stream_view R n) bs)) []"
    using write_inv [OF inv, of ?stack bs] len by (auto simp: stream_view_def)
  have "stream_ok R B ?s" "fits B ?s (snd (on_send (stream_view R n) bs))"
    using r(1,7) fit by (simp_all add: stream_ok_def fits_def)
  with with_sfp_ok [where f = "\<lambda>c. sfpWritePacket R c ?stack bs" and s = ?s] c'(1,2,4) obtain s' where
    s': "with_sfp B (\<lambda>c. sfpWritePacket R c ?stack bs) ?s = Inr (s', length ?xs)" "stream_ok R B s'" "sfp_context s' = c'"
    "sfp_packet s' = sfp_packet (strm n)" "shows_frames B ?s s' (snd (on_send (stream_view R n) bs))"
    by fastforce
  have xs: "db_data B (write_buffer s') = ?xs" "read_buffer s' = read_buffer (strm n)"
    using s'(5) r(7) by (simp_all add: shows_frames_def)
  have resume: "write_resume R B ?stack bs WO_dispatch ?done (strm ?n1) = Inr (s', Suspend WO_flush (Write_all ?xs))"
    using s'(1) xs(1) n1(2) by simp
  have may: "may_complete (strm ?n1) Dispatch ?done" using r(5) n1(2) by simp
  note step2 = session_step.write_on [OF n1(1) may length_replicate resume, of D]
  let ?n2 = "writer_at ((observe Dispatch ?done ?n1)\<lparr>messages_written := messages_written ?n1 @ [bs]\<rparr>) bs
    (s', Suspend WO_flush (Write_all ?xs))"
  have n2: "writer ?n2 = Some (WO_flush, Write_all ?xs, bs)" "strm ?n2 = s'" by (simp_all add: writer_at_def)
  let ?s3 = "s'\<lparr>write_buffer := consume_all B (write_buffer s'), phaser_held := False\<rparr>"
  have resume3: "write_resume R B ?stack bs WO_flush ?done (strm ?n2) = Inr (?s3, Complete No_error)" using n2(2) by simp
  have may3: "may_complete (strm ?n2) (Write_all ?xs) ?done" by simp
  note step3 = session_step.write_on [OF n2(1) may3 length_replicate resume3, of D]
  let ?n3 = "writer_at ((observe (Write_all ?xs) ?done ?n2)\<lparr>messages_written := messages_written ?n2 @ []\<rparr>) bs
    (?s3, Complete No_error)"
  have "connectState c' = connectState ?c"
    using arg_cong [OF reacts_seen(3) [OF c'(4)], of conn]
    by (simp add: on_send_def stream_view_def endpoint_simps)
  then have "sfpIsConnected c'" using r(2) by (simp add: sfpIsConnected_def)
  moreover have "db_data B (consume_all B (write_buffer s')) = []"
    using s'(2) by (simp add: consume_all_def stream_ok_def dynbuf_consume [of B buffer_limit])
  ultimately have "stream_resting R B ?n3"
    using s'(2-4) xs(2) r(3,6,8)
    by (simp add: stream_resting_def stream_quiet_def writer_at_def observe_def stream_ok_def)
  with step1 step2 step3 show ?thesis
    by (intro that [of ?n1 ?n2 ?n3]) (simp_all add: writer_at_def observe_def)
qed

lemma read_finish_done:
  assumes D: "dynbuf_laws D limit" and room: "length (db_data D d) + len (sfp_packet s) \<le> limit" and "packet_ok (sfp_packet s)"
  obtains d' where "read_finish D No_error (s, d)
      = Inr ((s\<lparr>sfp_packet := \<lparr>buf = replicate SFP_CONFIG_MAX_PACKET_SIZE 0xcd, len = 0\<rparr>\<rparr>, d'), Complete No_error)"
    "db_data D d' = db_data D d @ payload (sfp_packet s)"
proof -
  obtain b where b: "db_prepare D d (len (sfp_packet s)) = Some b"
    "\<forall>xs. length xs \<le> len (sfp_packet s) \<longrightarrow> db_data D (db_commit D b xs) = db_data D d @ xs"
    using dynbuf_prepare [OF D room] by auto
  then have "db_data D (db_commit D b (payload (sfp_packet s))) = db_data D d @ payload (sfp_packet s)"
    using length_payload [OF assms(3)] by simp
  with b(1) that show ?thesis by (simp add: read_finish_def Let_def)
qed

lemma stream_reads:
  assumes rest: "stream_resting R B n" and "abs_receiver (sfp_context (strm n)) = idle" and D: "dynbuf_laws D limit"
    and bs: "bs \<noteq> []" "length bs \<le> max_payload" "length (db_data D d) + length bs \<le> limit"
    and xs: "xs = wire [USR (rxs (stream_view R n)) bs]" "length xs \<le> 256"
  obtains n1 n2 n3 where "session_step R B D n n1" "session_step R B D n1 n2" "session_step R B D n2 n3"
    "octets_got n1 = octets_got n" "octets_got n2 = octets_got n @ xs" "octets_got n3 = octets_got n @ xs"
    "octets_sent n3 = octets_sent n" "messages_written n3 = messages_written n" "messages_read n3 = messages_read n @ [bs]"
    "stream_resting R B n3"
proof -
  let ?s = "strm n" and ?c = "sfp_context (strm n)"
  let ?got = "\<lparr>c_ec = No_error, c_data = xs, c_expired = False\<rparr>"
    and ?go = "\<lparr>c_ec = No_error, c_data = [], c_expired = False\<rparr>"
  have r: "stream_ok R B ?s" "sfpIsConnected ?c" "reader n = None" "writer n = None" "\<not> phaser_held ?s"
    "db_data B (read_buffer ?s) = []" "db_data B (write_buffer ?s) = []" "len (sfp_packet ?s) = 0"
    using rest by (simp_all add: stream_resting_def stream_quiet_def)
  have laws: "dynbuf_laws B buffer_limit" using r(1) by (simp add: stream_ok_def)
  obtain b where b: "start_reading B RO_read ?s = Inr (?s\<lparr>read_buffer := b\<rparr>, Suspend RO_read (Read_some 256))"
    "\<forall>ys. length ys \<le> 256 \<longrightarrow> db_data B (db_commit B b ys) = ys"
    using start_reading_ok [OF laws, of RO_read ?s] by (auto simp: awaiting_def)
  have start: "read_start B D (?s, d) = Inr ((?s\<lparr>read_buffer := b\<rparr>, d), Suspend RO_read (Read_some 256))"
    using r(2,6,8) b(1) by (simp add: read_start_def read_loop_def)
  let ?n1 = "reader_at D (n\<lparr>dest := d\<rparr>) ((?s\<lparr>read_buffer := b\<rparr>, d), Suspend RO_read (Read_some 256))"
  note step1 = session_step.start_read [OF r(3) start, of R]
  have n1: "reader ?n1 = Some (RO_read, Read_some 256)" "strm ?n1 = ?s\<lparr>read_buffer := b\<rparr>" "dest ?n1 = d"
    by (simp_all add: reader_at_def)
  let ?s2 = "?s\<lparr>read_buffer := db_commit B b xs\<rparr>"
  have resume: "read_resume R B D RO_read ?got (strm ?n1, dest ?n1) = Inr ((?s2, d), Suspend RO_dispatch Dispatch)"
    using n1(2,3) by simp
  have may: "may_complete (strm ?n1) (Read_some 256) ?got" using xs(2) by simp
  note step2 = session_step.read_on [OF n1(1) may resume]
  let ?n2 = "reader_at D (observe (Read_some 256) ?got ?n1) ((?s2, d), Suspend RO_dispatch Dispatch)"
  have n2: "reader ?n2 = Some (RO_dispatch, Dispatch)" "strm ?n2 = ?s2" "dest ?n2 = d" by (simp_all add: reader_at_def)
  let ?s2h = "?s2\<lparr>phaser_held := True\<rparr>" and ?e = "stream_view R n"
  have "conn ?e = SFP_CONNECT_STATE_CONNECTED" "seq_ok (rxs ?e)"
    using r(1,2) inv_seqs(2) [of R ?c] by (simp_all add: stream_view_def endpoint_simps sfpIsConnected_def stream_ok_def)
  from take_message_frame [OF this bs(2,1)] have t: "take_message (abs_sfp R (sfp_context ?s2h)) (db_data B (read_buffer ?s2h))
      = ((?e\<lparr>rxs := nextSeq (rxs ?e)\<rparr>, idle), [], bs, [])"
    using b(2) xs assms(2) by (simp add: abs_sfp_def stream_view_def del: wire_simps)
  have "stream_ok R B ?s2h" "fits B ?s2h []" using r(1,7) by (simp_all add: stream_ok_def fits_def)
  with deliver_input_sequence_ok [OF _ t] r(7) obtain s' where s': "deliver_input_sequence R B ?s2h = Inr s'" "stream_ok R B s'"
    "abs_sfp R (sfp_context s') = (?e\<lparr>rxs := nextSeq (rxs ?e)\<rparr>, idle)" "len (sfp_packet s') = length bs"
    "payload (sfp_packet s') = bs" "db_data B (read_buffer s') = []" "db_data B (write_buffer s') = []" by auto
  have "length (take (length bs) (buf (sfp_packet s'))) = length bs" using s'(4,5) by (simp add: payload_def)
  then have "packet_ok (sfp_packet (s'\<lparr>phaser_held := False\<rparr>))"
    using s'(2,4) by (simp add: packet_ok_def stream_ok_def)
  from read_finish_done [OF D _ this, of d] s'(4,5) bs(3) obtain d' where
    d': "read_finish D No_error (s'\<lparr>phaser_held := False\<rparr>, d) = Inr (((s'\<lparr>phaser_held := False\<rparr>)\<lparr>sfp_packet :=
        \<lparr>buf = replicate SFP_CONFIG_MAX_PACKET_SIZE 0xcd, len = 0\<rparr>\<rparr>, d'), Complete No_error)"
    "db_data D d' = db_data D d @ bs" by auto
  let ?s3 = "(s'\<lparr>phaser_held := False\<rparr>)\<lparr>sfp_packet := \<lparr>buf = replicate SFP_CONFIG_MAX_PACKET_SIZE 0xcd, len = 0\<rparr>\<rparr>"
  have resume3: "read_resume R B D RO_dispatch ?go (strm ?n2, dest ?n2) = Inr ((?s3, d'), Complete No_error)"
    using n2(2,3) s'(1,4,7) d'(1) bs(1) by (simp add: read_exchange_def read_loop_def)
  have may3: "may_complete (strm ?n2) Dispatch ?go" using n2(2) r(5) by simp
  note step3 = session_step.read_on [OF n2(1) may3 resume3]
  let ?n3 = "reader_at D (observe Dispatch ?go ?n2) ((?s3, d'), Complete No_error)"
  have "connectState (sfp_context s') = connectState ?c"
    using arg_cong [OF s'(3), of "\<lambda>a. conn (fst a)"] by (simp add: abs_sfp_def stream_view_def endpoint_simps)
  then have "stream_resting R B ?n3"
    using s'(2,6,7) r(2,4)
    by (simp add: stream_resting_def stream_quiet_def reader_at_def observe_def stream_ok_def sfpIsConnected_def)
  with step1 step2 step3 d'(2) show ?thesis
    by (intro that [of ?n1 ?n2 ?n3]) (simp_all add: reader_at_def observe_def)
qed

lemma three_steps: "r a b \<Longrightarrow> r b c \<Longrightarrow> r c d \<Longrightarrow> r\<^sup>*\<^sup>* a d"
  by (meson r_into_rtranclp rtranclp.rtrancl_into_rtrancl)

lemma message_passes:
  assumes rest: "stream_resting R B n" "stream_resting R B m" "abs_receiver (sfp_context (strm m)) = idle"
    and seq: "rx_seq (rx (sfp_context (strm m))) = tx_seq (tx (sfp_context (strm n)))"
    and arrived: "octets_got m = octets_sent n" "prefix (octets_got n) (octets_sent m)"
    and room: "dynbuf_laws D limit" "length (db_data D d) + length bs \<le> limit"
    and bs: "bs \<noteq> []" "length bs \<le> 124"
  obtains n' m' where "session_wire R B D (n, m) (n', m')" "stream_resting R B n'" "stream_resting R B m'"
    "messages_written n' = messages_written n @ [bs]" "messages_written m' = messages_written m"
    "messages_read m' = messages_read m @ [bs]" "octets_got m' = octets_sent n'" "octets_got n' = octets_got n"
proof -
  let ?fs = "snd (on_send (stream_view R n) bs)"
  have fs: "?fs = [USR (rxs (stream_view R m)) bs]"
    using seq by (simp add: on_send_def stream_view_def endpoint_simps)
  have short: "length (wire ?fs) \<le> 256"
    using length_frame_octets [of bs "makeHeader SFP_FRAME_USR (rxs (stream_view R m))"] bs(2) by (simp add: fs)
  have fit: "length bs \<le> SFP_CONFIG_MAX_PACKET_SIZE" "length (wire ?fs) \<le> buffer_limit" "length bs \<le> max_payload"
    using short bs(2) by (simp_all add: max_payload_def sfp_consts)
  obtain n1 n2 n3 where n: "session_step R B D n n1" "session_step R B D n1 n2" "session_step R B D n2 n3"
    "octets_got n1 = octets_got n" "octets_got n2 = octets_got n" "octets_got n3 = octets_got n"
    "octets_sent n3 = octets_sent n @ wire ?fs" "messages_written n3 = messages_written n @ [bs]" "stream_resting R B n3"
    using stream_sends [OF rest(1) fit(1,2)] .
  obtain m1 m2 m3 where m: "session_step R B D m m1" "session_step R B D m1 m2" "session_step R B D m2 m3"
    "octets_got m1 = octets_got m" "octets_got m2 = octets_got m @ wire ?fs" "octets_got m3 = octets_got m @ wire ?fs"
    "messages_written m3 = messages_written m" "messages_read m3 = messages_read m @ [bs]" "stream_resting R B m3"
    using stream_reads [OF rest(2,3) room(1) bs(1) fit(3) room(2) arg_cong [OF fs] short] .
  have "session_wire R B D (n, m) (n3, m)"
    unfolding session_wire_def
    by (rule left_alone [OF _ linked.start])
      (rule three_steps [of _ n n1 n2 n3], simp_all add: n(1-6) arrived(2))
  then have "session_wire R B D (n, m) (n3, m3)"
    unfolding session_wire_def
    by (rule right_alone [rotated])
      (rule three_steps [of _ m m1 m2 m3], simp_all add: m(1-6) n(7) arrived(1))
  with that [of n3 m3] n(6-9) m(6-9) arrived(1) show ?thesis by simp
qed

text \<open>
  C34. A message can always pass: when two connected streams rest, all octets have arrived and
  the sequence numbers agree, a client that writes a message of up to 124 octets and one
  that reads it with room enough bring both back to rest with the message handed over; each
  of the six steps that this takes succeeds.
\<close>

theorem stream_message_passes:
  assumes "stream_resting R B n" and "stream_resting R B m" and "abs_receiver (sfp_context (strm m)) = idle"
    and "rx_seq (rx (sfp_context (strm m))) = tx_seq (tx (sfp_context (strm n)))"
    and "octets_got m = octets_sent n" and "prefix (octets_got n) (octets_sent m)"
    and "dynbuf_laws D limit" and "length (db_data D d) + length bs \<le> limit" and "bs \<noteq> []" and "length bs \<le> 124"
  shows "\<exists>n' m'. session_wire R B D (n, m) (n', m') \<and> stream_resting R B n' \<and> stream_resting R B m'
    \<and> messages_written n' = messages_written n @ [bs] \<and> messages_read m' = messages_read m @ [bs]
    \<and> octets_got m' = octets_sent n'"
  by (rule message_passes [OF assms]) blast

lemma example_rest:
  "stream_resting list_ringbuffer example_dynbuf example_start" "stream_opens list_ringbuffer example_dynbuf example_dynbuf example_start"
  "in_step (sfp_context (strm example_start)) (sfp_context (strm example_start))"
proof -
  have "\<exists>limit. dynbuf_laws example_dynbuf limit" using list_dynbuf_laws by blast
  with example_start_ok show "stream_opens list_ringbuffer example_dynbuf example_dynbuf example_start"
    by (simp add: stream_opens_def) (simp add: example_start_def sfpIsConnected_def raw_packet_def)
qed (use example_start_ok in \<open>auto simp: stream_resting_def session_start_def stream_quiet_def in_step_def example_start_def
    sfpIsConnected_def raw_packet_def\<close>)

lemma example_seq:
  "abs_receiver (sfp_context (strm example_start)) = idle"
  "rx_seq (rx (sfp_context (strm example_start))) = tx_seq (tx (sfp_context (strm example_start)))"
  "octets_got example_start = octets_sent example_start" "prefix (octets_got example_start) (octets_sent example_start)"
  "messages_written example_start = []" "messages_read example_start = []"
  by (simp_all add: example_start_def)

lemma example_room:
  "length (db_data example_dynbuf []) + length [1, 2 :: u8] \<le> buffer_limit" "[1, 2 :: u8] \<noteq> []" "length [1, 2 :: u8] \<le> 124"
  by (simp_all add: list_dynbuf_def buffer_limit_def)

lemmas example_passes = message_passes [OF example_rest(1,1) example_seq(1-4) list_dynbuf_laws example_room]

theorem stream_message_passes_witness:
  "\<exists>n m. session_wire list_ringbuffer example_dynbuf example_dynbuf (example_start, example_start) (n, m)
     \<and> messages_written n = [[1, 2]] \<and> messages_read m = [[1, 2]]"
  using stream_message_passes [OF example_rest(1,1) example_seq(1-4) list_dynbuf_laws example_room]
  unfolding example_seq(5,6) append_Nil by blast

text \<open>One message is written and read; what the other side has read is no more than was written.\<close>

theorem streams_exchange_witness:
  "\<exists>n m. session_wire list_ringbuffer example_dynbuf example_dynbuf (example_start, example_start) (n, m)
     \<and> messages_written n = [[1, 2]] \<and> messages_read m = [[1, 2]] \<and> messages_read n = []"
proof -
  obtain n m where n: "session_wire list_ringbuffer example_dynbuf example_dynbuf (example_start, example_start) (n, m)"
    "stream_resting list_ringbuffer example_dynbuf n" "stream_resting list_ringbuffer example_dynbuf m"
    "messages_written n = [[1, 2]]" "messages_written m = []" "octets_got m = octets_sent n"
    by (rule example_passes) (simp only: example_seq(5) append_Nil)
  have "\<forall>bs \<in> set (messages_written n) \<union> set (messages_written m). length bs \<le> max_payload"
    using n(4,5) by (simp add: max_payload_def sfp_consts)
  from streams_exchange [OF example_rest(2,2,3) n(1) this] n show ?thesis
    by (intro exI [of _ n] exI [of _ m]) (simp add: stream_resting_def)
qed

section \<open>A message queue sends, a message queue receives\<close>

text \<open>A connected queue that nothing occupies but its read pump, which waits for octets.\<close>

definition mq_resting :: "('h, 'q, 's) env \<Rightarrow> ('h, 'q, 's) mq_session \<Rightarrow> bool" where
  "mq_resting E n \<longleftrightarrow> mq_inv E (mqueue n) \<and> healthy E (mqueue n) \<and> mHandshakeComplete (mqueue n)
     \<and> sfpIsConnected (mqContext (mqueue n)) \<and> mOutbox (mqueue n) = [] \<and> mWriteBuffer (mqueue n) = []
     \<and> pending_waits (mqueue n) = [] \<and> pending_reads (mqueue n) = 1 \<and> items E (mqueue n) = [] \<and> consumers E (mqueue n) = []"

lemma given_receipts_of: "mq_given n = concat (map report_data (receipts_of (mqueue n)))"
  unfolding mq_given_def receipts_of_def by (rule report_data_receipts)

lemma good_complete: "mq_good E q \<Longrightarrow> mHandshakeComplete q \<Longrightarrow> mq_inv E q"
  by (simp add: mq_good_def mq_idle_def)

text \<open>Nothing was queued and nothing is delivered: nothing moves.\<close>

lemma moves_nothing:
  assumes "queue_moves E q q' [] []" and "items E q = []" and "consumers E q = []"
  shows "items E q' = []" "consumers E q' = []" "receipts_of q' = receipts_of q"
  using assms by (auto simp: queue_moves_def)

lemma asyncSend_flushes:
  assumes laws: "pcqueue_laws (eQ E)" and h: "healthy E q" and "mHandshakeComplete q" and "mOutbox q = []" and "mWriteBuffer q = []"
    and len: "length bs \<le> SFP_CONFIG_MAX_PACKET_SIZE" "length stack = SFP_CONFIG_MAX_PACKET_SIZE"
  obtains q' where "asyncSend E stack bs k q = Inr q'"
    "mOutbox q' = [(wire [USR (txs (abs_endpoint (eR E) (mqContext q))) bs], k)]" "mWriteBuffer q' = []"
    "pending_writes q' = pending_writes q @ [wire [USR (txs (abs_endpoint (eR E) (mqContext q))) bs]]"
    "pending_waits q' = pending_waits q" "pending_reads q' = pending_reads q" "mHandshakeComplete q'"
    "connectState (mqContext q') = connectState (mqContext q)"
proof -
  let ?fs = "[USR (txs (abs_endpoint (eR E) (mqContext q))) bs]"
  have r: "ready E q" "is_open E q" using h by (simp_all add: healthy_def)
  then have inv: "sfp_inv (eR E) (mqContext q)" by (simp add: ready_def)
  obtain c' n where c': "sfpWritePacket (eR E) (mqContext q) stack bs = Inr (c', n)" "sfp_inv (eR E) c'"
    "reacts (eR E) (mqContext q) c' (fst (on_send (abs_endpoint (eR E) (mqContext q)) bs)) ?fs []"
    using write_inv [OF inv len(2,1)] by (auto simp: on_send_def)
  let ?f = "\<lambda>c. bindR (sfpWritePacket (eR E) c stack bs) (\<lambda>(c, outlen). Inr c)"
  have "?f (mqContext q) = Inr c'" by (simp add: c'(1))
  from mq_library_ok [where f = ?f, OF laws r(1) this c'(3,2)] obtain q1 where
    q1: "mq_library E ?f q = Inr q1" "only_library E q q1" "mqContext q1 = c'" "mWriteBuffer q1 = mWriteBuffer q @ wire ?fs"
    by blast
  have "connectState c' = connectState (mqContext q)"
    using arg_cong [OF reacts_seen(3) [OF c'(3)], of conn] by (simp add: on_send_def endpoint_simps)
  with that [of "q1\<lparr>mOutbox := [(wire ?fs, k)], mWriteBuffer := [], pending_writes := pending_writes q @ [wire ?fs]\<rparr>"]
    q1 only_library_simps [OF q1(2)] only_library_more [OF q1(2)] assms(3-5) r(2) healthy_resume [OF h, of No_error]
  show ?thesis
    by (simp add: asyncSend_def assertR_def flushWriteBuffer_def writePump_def is_open_def Let_def
        del: wire_simps) 
qed

lemma queue_sends:
  assumes env: "env_ok E" and rest: "mq_resting E n" and len: "length bs \<le> SFP_CONFIG_MAX_PACKET_SIZE"
  obtains n1 n2 where "mq_session_step E n n1" "mq_session_step E n1 n2" "mq_got n1 = mq_got n" "mq_got n2 = mq_got n"
    "mq_sent n2 = mq_sent n @ wire [USR (txs (mq_view E n)) bs]" "mq_posted n2 = mq_posted n @ [bs]"
    "mq_given n2 = mq_given n" "mq_resting E n2"
proof -
  let ?q = "mqueue n" and ?xs = "wire [USR (txs (abs_endpoint (eR E) (mqContext (mqueue n)))) bs]" and ?stack = "replicate SFP_CONFIG_MAX_PACKET_SIZE 0"
  have laws: "pcqueue_laws (eQ E)" using env by (simp add: env_ok_def)
  have r: "mq_inv E ?q" "healthy E ?q" "mHandshakeComplete ?q" "mOutbox ?q = []" "mWriteBuffer ?q = []" "pending_waits ?q = []"
    "pending_reads ?q = 1" "items E ?q = []" "consumers E ?q = []" "sfpIsConnected (mqContext ?q)"
    using rest by (simp_all add: mq_resting_def)
  have w: "pending_writes ?q = []" using r(1,4) by (simp add: mq_inv_def front_written_def)
  obtain q1 where q1: "asyncSend E ?stack bs (User_send 0) ?q = Inr q1" "mOutbox q1 = [(?xs, User_send 0)]"
    "mWriteBuffer q1 = []" "pending_writes q1 = [?xs]" "pending_waits q1 = []" "pending_reads q1 = 1" "mHandshakeComplete q1"
    "connectState (mqContext q1) = connectState (mqContext ?q)"
    by (rule asyncSend_flushes [OF laws r(2-5) len length_replicate, of 0 "User_send 0"])
      (simp only: r(6,7) w append_Nil)
  have en: "enabled ?q (Do_send ?stack bs 0)" using r(3) len by simp
  have p1: "perform E ?q (Do_send ?stack bs 0) = Inr q1" using q1(1) by simp
  let ?n1 = "\<lparr>mqueue = q1, mq_sent = mq_sent n, mq_got = mq_got n, mq_posted = mq_posted n @ [bs]\<rparr>"
  have step1: "mq_session_step E n ?n1"
    using mq_session_step.performs [OF en _ _ p1] by simp
  have good1: "mq_good E q1" using perform_ok [OF env _ en] r(1) p1 by (auto simp: mq_good_def)
  have "evolves E ?q q1 [] [CallWrite ?stack bs] []"
    using asyncSend_evolves [OF laws r(2) _ q1(1)] len by simp
  then have e1: "healthy E q1" "queue_moves E ?q q1 [] []"
    by (auto simp: evolves_def abs_sfp_def split: prod.splits)
  note m1 = moves_nothing [OF e1(2) r(8,9)]
  let ?q2 = "report_to (Sent 0 No_error) (q1\<lparr>pending_writes := [], mOutbox := []\<rparr>)"
  have en2: "enabled q1 (Write_done No_error (length ?xs))" using q1(4) by simp
  have p2: "perform E q1 (Write_done No_error (length ?xs)) = Inr ?q2"
    using q1(2,4) by (simp add: handleWrite_def handleWrite_done_def assertR_def writePump_def report_to_def)
  let ?n2 = "\<lparr>mqueue = ?q2, mq_sent = mq_sent n @ ?xs, mq_got = mq_got n, mq_posted = mq_posted n @ [bs]\<rparr>"
  have step2: "mq_session_step E ?n1 ?n2"
    using mq_session_step.performs [where n = ?n1 and a = "Write_done No_error (length ?xs)", of E ?q2] en2 p2 q1(4)
    by (simp del: perform.simps wire_simps)
  have good2: "mq_good E ?q2" using perform_ok [OF env good1 en2] p2 by auto
  have "mHandshakeComplete ?q2" using q1(7) by (simp add: report_to_def)
  from good_complete [OF good2 this] have "mq_resting E ?n2"
    using q1(3,5-8) m1(1,2) e1(1) r(10)
    by (simp add: mq_resting_def report_to_def healthy_def ready_def is_open_def sfpIsConnected_def)
  moreover have "mq_given ?n2 = mq_given n" using m1(3) by (simp add: given_receipts_of receipts_of_def report_to_def)
  ultimately show ?thesis using step1 step2 by (intro that [of ?n1 ?n2]) (simp_all add: mq_view_def)
qed

lemma queue_receives:
  assumes env: "env_ok E" and rest: "mq_resting E n" and "abs_receiver (mqContext (mqueue n)) = idle"
    and len: "length bs \<le> max_payload" and xs: "xs = wire [USR (rxs (mq_view E n)) bs]"
  obtains n1 n2 where "mq_session_step E n n1" "mq_session_step E n1 n2" "mq_got n1 = mq_got n" "mq_got n2 = mq_got n @ xs"
    "mq_sent n2 = mq_sent n" "mq_posted n2 = mq_posted n" "mq_given n2 = mq_given n @ [bs]" "mq_quiet E n2"
proof -
  let ?q = "mqueue n" and ?k = "Receive max_payload 0"
  have laws: "pcqueue_laws (eQ E)" using env by (simp add: env_ok_def)
  have r: "mq_inv E ?q" "healthy E ?q" "mHandshakeComplete ?q" "mOutbox ?q = []" "mWriteBuffer ?q = []" "pending_waits ?q = []"
    "pending_reads ?q = 1" "items E ?q = []" "consumers E ?q = []" "sfpIsConnected (mqContext ?q)"
    using rest by (simp_all add: mq_resting_def)
  have good: "mq_good E ?q" using r(1) by (simp add: mq_good_def)
  let ?q1 = "mq_consume E ?k ?q"
  have en: "enabled ?q (Do_receive max_payload 0)" using r(3) by simp
  have p1: "perform E ?q (Do_receive max_payload 0) = Inr ?q1"
    using healthy_resume [OF r(2), of No_error] r(3) by (simp add: asyncReceive_def assertR_def)
  let ?n1 = "\<lparr>mqueue = ?q1, mq_sent = mq_sent n, mq_got = mq_got n, mq_posted = mq_posted n\<rparr>"
  have step1: "mq_session_step E n ?n1"
    using mq_session_step.performs [OF en _ _ p1] by simp
  have good1: "mq_good E ?q1" using perform_ok [OF env good en] p1 by auto
  have ro: "receives_only ?q ?q1" using consume_ok [OF laws] by blast
  have k1: "mqContext ?q1 = mqContext ?q" "outgoing ?q1 = []" "pending_reads ?q1 = 1" "hs_fuel h ?q1 = 0" for h
    using receives_only_simps(1-4) [OF ro] r(4-7) by (simp_all add: kept_def outgoing_def fuel_defs)
  have "queue_moves E ?q ?q1 [] [?k]" "set (items E ?q1) \<subseteq> set (items E ?q)"
    using consume_moves [OF laws, of ?q ?k] r(8) by simp_all
  then have m1: "items E ?q1 = []" "consumers E ?q1 = [?k]" "receipts_of ?q1 = receipts_of ?q"
    using r(8,9) by (auto simp: queue_moves_def)
  have h1: "healthy E ?q1"
    using r(2) m1(1) receives_only_simps(6,12,13) [OF ro] by (auto simp: healthy_def)
  have en2: "enabled ?q1 (Read_done No_error xs)" using k1(3) by simp
  obtain q2 where p2: "perform E ?q1 (Read_done No_error xs) = Inr q2" using perform_ok [OF env good1 en2] by blast
  from perform_evolves [OF laws good_pumps [OF good1] h1 en2 _ p2] k1(4) obtain calls where
    c: "evolves E ?q1 q2 [] calls []" "explains calls xs []" "CallConnect \<notin> set calls" by auto
  then obtain fs ds where e: "run_spec on_call (mq_view E n, idle) calls = (abs_sfp (eR E) (mqContext q2), fs, ds)"
    "outgoing q2 = wire fs" "queue_moves E ?q1 q2 ds []"
    using assms(3) k1(1,2) by (auto simp: evolves_def abs_sfp_def mq_view_def)
  have "conn (mq_view E n) = SFP_CONNECT_STATE_CONNECTED" "seq_ok (rxs (mq_view E n))"
    using r(1,10) inv_seqs(2) [of "eR E" "mqContext ?q"]
    by (simp_all add: mq_view_def endpoint_simps sfpIsConnected_def mq_inv_def ready_def)
  moreover have "on_line (usr (rxs (mq_view E n)) [bs]) (concat (map call_octets calls))"
    using c(2) xs on_line_wire [of "usr (rxs (mq_view E n)) [bs]"] by (simp add: explains_def)
  ultimately have d': "fs = usr (txs (mq_view E n)) (concat (map call_packets calls))" "ds = [bs]"
    using duplex_prefix [OF c(3) _ begunI(1) _ _ e(1), of "[bs]"] len by (simp_all add: arrivedI)
  have d: "fs = []" "ds = [bs]" using d' c(2) unfolding explains_def by simp_all
  obtain ms ks where m: "length ks = length ms" "[bs] = ms @ map snd (items E q2)" "[?k] = ks @ consumers E q2"
    "receipts_of q2 = receipts_of ?q1 @ receipts ks ms"
    using e(3) m1 d(2) unfolding queue_moves_def by auto
  have "ms \<noteq> []"
    using m pcqueue_depth(2) [OF laws, of "mReceiveQueue q2"] by (cases ks) auto
  with m len m1(3) have m2: "items E q2 = []" "receipts_of q2 = receipts_of ?q @ [Received 0 No_error bs]"
    by (cases ms; cases ks; auto)+
  let ?n2 = "\<lparr>mqueue = q2, mq_sent = mq_sent n, mq_got = mq_got n @ xs, mq_posted = mq_posted n\<rparr>"
  have step2: "mq_session_step E ?n1 ?n2"
    using mq_session_step.performs [where n = ?n1 and a = "Read_done No_error xs", of E q2] en2 p2
    by (simp del: perform.simps)
  have "mq_quiet E ?n2" using m2(1) e(2) d(1) by (simp add: mq_quiet_def)
  with step1 step2 m2(2) show ?thesis by (intro that [of ?n1 ?n2]) (simp_all add: given_receipts_of)
qed

lemma queue_passes:
  assumes env: "env_ok E" and rest: "mq_resting E n" "mq_resting E m" "abs_receiver (mqContext (mqueue m)) = idle"
    and numbers: "rx_seq (rx (mqContext (mqueue m))) = tx_seq (tx (mqContext (mqueue n)))"
    and arrived: "mq_got m = mq_sent n" "prefix (mq_got n) (mq_sent m)" and fit: "length bs \<le> max_payload"
  obtains n' m' where "mq_wire E (n, m) (n', m')" "mq_resting E n'" "mq_quiet E m'"
    "mq_posted n' = mq_posted n @ [bs]" "mq_posted m' = mq_posted m" "mq_given m' = mq_given m @ [bs]" "mq_got m' = mq_sent n'"
proof -
  let ?xs = "wire [USR (txs (mq_view E n)) bs]"
  have seq: "?xs = wire [USR (rxs (mq_view E m)) bs]" using numbers by (simp add: mq_view_def endpoint_simps)
  have len: "length bs \<le> SFP_CONFIG_MAX_PACKET_SIZE" using fit by (simp add: max_payload_def)
  obtain n1 n2 where n: "mq_session_step E n n1" "mq_session_step E n1 n2" "mq_got n1 = mq_got n" "mq_got n2 = mq_got n"
    "mq_sent n2 = mq_sent n @ ?xs" "mq_posted n2 = mq_posted n @ [bs]" "mq_given n2 = mq_given n" "mq_resting E n2"
    using queue_sends [OF env rest(1) len] .
  obtain m1 m2 where m: "mq_session_step E m m1" "mq_session_step E m1 m2" "mq_got m1 = mq_got m" "mq_got m2 = mq_got m @ ?xs"
    "mq_sent m2 = mq_sent m" "mq_posted m2 = mq_posted m" "mq_given m2 = mq_given m @ [bs]" "mq_quiet E m2"
    using queue_receives [OF env rest(2,3) fit seq] .
  have "mq_wire E (n, m) (n, m)" by (simp add: mq_wire_def linked.start)
  then have "mq_wire E (n, m) (n1, m)" unfolding mq_wire_def by (rule linked.left) (simp_all add: n(1,3) arrived)
  then have "mq_wire E (n, m) (n2, m)" unfolding mq_wire_def by (rule linked.left) (simp_all add: n(2,4) arrived)
  then have "mq_wire E (n, m) (n2, m1)" unfolding mq_wire_def by (rule linked.right) (simp_all add: m(1,3) n(5) arrived)
  then have "mq_wire E (n, m) (n2, m2)" unfolding mq_wire_def by (rule linked.right) (simp_all add: m(2,4) n(5) arrived)
  with that [of n2 m2] n m arrived show ?thesis by simp
qed

text \<open>
  The same holds of two connected message queues that rest, for any message that the
  library can transport, with a receive that is asked for before the octets arrive.
\<close>

theorem queue_message_passes:
  assumes "env_ok E" and "mq_resting E n" and "mq_resting E m" and "abs_receiver (mqContext (mqueue m)) = idle"
    and "rx_seq (rx (mqContext (mqueue m))) = tx_seq (tx (mqContext (mqueue n)))"
    and "mq_got m = mq_sent n" and "prefix (mq_got n) (mq_sent m)" and "length bs \<le> max_payload"
  shows "\<exists>n' m'. mq_wire E (n, m) (n', m') \<and> mq_resting E n' \<and> mq_quiet E m'
    \<and> mq_posted n' = mq_posted n @ [bs] \<and> mq_given m' = mq_given m @ [bs] \<and> mq_got m' = mq_sent n'"
  by (rule queue_passes [OF assms]) blast

section \<open>Examples\<close>

text \<open>A connected queue, the callbacks of its context set by the handshake.\<close>

definition example_mq :: "(SFPpacket list, item list + consumer list, bool) mq_session" where
  "example_mq =
     \<lparr>mqueue = new_queue
        \<lparr>mqContext := sfpSetUnlockCallback (sfpSetLockCallback (sfpSetDeliverCallback (sfpSetWriteCallback
           (example_session [] 0 0) (Some addr_writeCallback) (Some 17)) (Some addr_deliverCallback) (Some 17)) None None) None None,
         mHandshakeComplete := True, mReadPumpRunning := True, pending_reads := 1\<rparr>,
      mq_sent = [], mq_got = [], mq_posted = []\<rparr>"

lemma example_mq_context:
  "sfpIsConnected (mqContext (mqueue example_mq))" "abs_receiver (mqContext (mqueue example_mq)) = idle"
  "rx_seq (rx (mqContext (mqueue example_mq))) = 0" "tx_seq (tx (mqContext (mqueue example_mq))) = 0"
proof -
  have "abs_receiver (mqContext (mqueue example_mq)) = abs_receiver (example_session [] 0 0)"
    by (rule abs_receiver_cong) (simp_all add: example_mq_def setup_defs)
  then show "abs_receiver (mqContext (mqueue example_mq)) = idle" by simp
qed (simp_all add: example_mq_def setup_defs sfpIsConnected_def)

lemma example_mq_inv: "mq_inv example_env (mqueue example_mq)"
proof -
  have "sfp_inv list_ringbuffer (example_session [] 0 0)" by (rule session_inv) (simp_all add: seq_ok_unat)
  then have "sfp_inv list_ringbuffer (mqContext (mqueue example_mq))" by (simp add: example_mq_def setters_inv)
  moreover have "callbacks (mqContext (mqueue example_mq)) = mq_callbacks 17"
    by (simp add: example_mq_def callbacks_def mq_callbacks_def setup_defs)
  ultimately show ?thesis
    by (simp add: mq_inv_def ready_def) (simp add: example_mq_def new_queue_def example_env_def pump_ok_def pumping_def
        keeping_ok_def keeping_def front_written_def)
qed

lemma example_mq_rest: "mq_resting example_env example_mq" "mq_opens example_env example_mq"
proof -
  have "ready example_env (mqueue example_mq)" using example_mq_inv by (simp add: mq_inv_def)
  then have "healthy example_env (mqueue example_mq)"
    by (simp add: healthy_def) (simp add: example_mq_def new_queue_def is_open_def example_env_def flag_stream_def list_pcqueue_def)
  with example_mq_inv example_mq_context(1) show "mq_resting example_env example_mq"
    by (simp add: mq_resting_def) (simp add: example_mq_def new_queue_def example_env_def list_pcqueue_def)
  show "mq_opens example_env example_mq"
    using example_mq_inv example_mq_context(1,2) example_env_ok
    by (simp add: mq_opens_def)
      (simp add: example_mq_def new_queue_def example_env_def list_pcqueue_def is_open_def flag_stream_def outgoing_def)
qed

lemma example_mq_start:
  "rx_seq (rx (mqContext (mqueue example_mq))) = tx_seq (tx (mqContext (mqueue example_mq)))"
  "mq_got example_mq = mq_sent example_mq" "prefix (mq_got example_mq) (mq_sent example_mq)"
  "in_step (mqContext (mqueue example_mq)) (mqContext (mqueue example_mq))"
  "in_step (sfp_context (strm example_start)) (mqContext (mqueue example_mq))"
  "mq_posted example_mq = []" "mq_given example_mq = []" "length [1, 2 :: u8] \<le> max_payload"
  using example_mq_context(3,4)
  by (simp_all add: in_step_def) (simp_all add: example_mq_def new_queue_def mq_given_def example_start_def max_payload_def sfp_consts)

lemmas example_queue_passes =
  queue_passes [OF example_env_ok example_mq_rest(1,1) example_mq_context(2) example_mq_start(1-3,8)]

theorem queue_message_passes_witness:
  "\<exists>n m. mq_wire example_env (example_mq, example_mq) (n, m) \<and> mq_posted n = [[1, 2]] \<and> mq_given m = [[1, 2]]"
  using queue_message_passes [OF example_env_ok example_mq_rest(1,1) example_mq_context(2) example_mq_start(1-3,8)]
  unfolding example_mq_start(6,7) append_Nil by blast

theorem queues_exchange_witness:
  "\<exists>n m. mq_wire example_env (example_mq, example_mq) (n, m)
     \<and> mq_posted n = [[1, 2]] \<and> prefix (mq_given m) [[1, 2]] \<and> mq_given n = []"
proof -
  obtain n m where n: "mq_wire example_env (example_mq, example_mq) (n, m)" "mq_posted n = [[1, 2]]" "mq_posted m = []"
    by (rule example_queue_passes) (simp only: example_mq_start(6) append_Nil)
  have "\<forall>bs \<in> set (mq_posted n) \<union> set (mq_posted m). length bs \<le> max_payload"
    using n(2,3) example_mq_start(8) by simp
  from queues_exchange [OF example_mq_rest(2,2) example_mq_start(4) n(1) this] n show ?thesis
    by (intro exI [of _ n] exI [of _ m]) simp
qed

text \<open>The stream writes a message, and the queue receives it.\<close>

lemma mixed_passes:
  obtains n m where "mixed_wire list_ringbuffer example_dynbuf example_dynbuf example_env (example_start, example_mq) (n, m)"
    "messages_written n = [[1, 2]]" "mq_posted m = []" "stream_quiet example_dynbuf n" "mq_quiet example_env m" "mq_got m = octets_sent n"
proof -
  let ?fs = "snd (on_send (stream_view list_ringbuffer example_start) [1, 2])"
  have fs: "?fs = [USR (rxs (mq_view example_env example_mq)) [1, 2]]"
    using example_mq_start(5) by (simp add: on_send_def stream_view_def mq_view_def endpoint_simps in_step_def)
  have len: "length [1, 2 :: u8] \<le> SFP_CONFIG_MAX_PACKET_SIZE" by (simp add: sfp_consts)
  have fit: "length (wire ?fs) \<le> buffer_limit"
    using length_frame_octets [of "[1, 2]" "makeHeader SFP_FRAME_USR (rxs (mq_view example_env example_mq))"]
    by (simp add: fs buffer_limit_def)
  obtain n1 n2 n3 where n: "session_step list_ringbuffer example_dynbuf example_dynbuf example_start n1"
    "session_step list_ringbuffer example_dynbuf example_dynbuf n1 n2" "session_step list_ringbuffer example_dynbuf example_dynbuf n2 n3"
    "octets_got n1 = octets_got example_start" "octets_got n2 = octets_got example_start" "octets_got n3 = octets_got example_start"
    "octets_sent n3 = octets_sent example_start @ wire ?fs" "messages_written n3 = messages_written example_start @ [[1, 2]]"
    "stream_resting list_ringbuffer example_dynbuf n3"
    using stream_sends [OF example_rest(1) len fit] .
  obtain m1 m2 where m: "mq_session_step example_env example_mq m1" "mq_session_step example_env m1 m2"
    "mq_got m1 = mq_got example_mq" "mq_got m2 = mq_got example_mq @ wire ?fs" "mq_posted m2 = mq_posted example_mq"
    "mq_quiet example_env m2"
    using queue_receives [OF example_env_ok example_mq_rest(1) example_mq_context(2) example_mq_start(8) arg_cong [OF fs, of wire]] .
  have none: "octets_got example_start = []" "octets_sent example_start = []" "mq_got example_mq = []"
    by (simp_all add: example_start_def example_mq_def)
  let ?W = "mixed_wire list_ringbuffer example_dynbuf example_dynbuf example_env (example_start, example_mq)"
  have "?W (example_start, example_mq)" by (simp add: mixed_wire_def linked.start)
  then have "?W (n1, example_mq)" unfolding mixed_wire_def by (rule linked.left) (simp_all add: n(1,4) none)
  then have "?W (n2, example_mq)" unfolding mixed_wire_def by (rule linked.left) (simp_all add: n(2,5) none)
  then have "?W (n3, example_mq)" unfolding mixed_wire_def by (rule linked.left) (simp_all add: n(3,6) none)
  then have "?W (n3, m1)" unfolding mixed_wire_def by (rule linked.right) (simp_all add: m(1,3) none)
  then have "?W (n3, m2)" unfolding mixed_wire_def by (rule linked.right) (simp_all add: m(2,4) n(7) none)
  with that [of n3 m2] n(7-9) m(4-6) none example_seq(5) example_mq_start(6) show ?thesis
    by (simp add: stream_resting_def)
qed

theorem stream_meets_queue_witness:
  "\<exists>n m. mixed_wire list_ringbuffer example_dynbuf example_dynbuf example_env (example_start, example_mq) (n, m)
     \<and> messages_written n = [[1, 2]] \<and> mq_given m = [[1, 2]]"
proof -
  obtain n m where n: "mixed_wire list_ringbuffer example_dynbuf example_dynbuf example_env (example_start, example_mq) (n, m)"
    "messages_written n = [[1, 2]]" "mq_posted m = []" "stream_quiet example_dynbuf n" "mq_quiet example_env m" "mq_got m = octets_sent n"
    by (rule mixed_passes)
  have "\<forall>bs \<in> set (messages_written n) \<union> set (mq_posted m). length bs \<le> max_payload"
    using n(2,3) example_mq_start(8) by simp
  from stream_meets_queue [OF example_rest(2) example_mq_rest(2) example_mq_start(5) n(1) this] n show ?thesis
    by (intro exI [of _ n] exI [of _ m]) simp
qed

end
