(* ===== verification/Sfp_Medium.thy ===== *)
theory Sfp_Medium
  imports Sfp_Passage Complex_Main
begin

text \<open>
  The simulated line of the tests: a medium that delays octets
  (\<^verbatim>\<open>src/tests/simulatedmedium.hpp\<close>) and a garbler that drops and changes them
  (\<^verbatim>\<open>src/tests/garbler.hpp\<close>). The medium is a link in the sense of \<^const>\<open>linked\<close>.
\<close>

section \<open>The medium\<close>

text \<open>
  The propagation delay is in milliseconds, the rate in bits per second. The octets that
  were given to the \<^verbatim>\<open>output\<close> signal are recorded.
\<close>

record SimulatedMedium =
  mMedium :: "u8 option list"
  mWriteQueue :: "u8 list"
  medium_output :: "u8 list"

definition calculateCapacity :: "rat \<Rightarrow> nat \<Rightarrow> nat" where
  "calculateCapacity propagationDelay baud = nat \<lceil>of_nat (baud div 8) * propagationDelay / 1000\<rceil>"

definition new_medium :: "rat \<Rightarrow> nat \<Rightarrow> SimulatedMedium" where
  "new_medium propagationDelay baud =
     \<lparr>mMedium = replicate (calculateCapacity propagationDelay baud) None, mWriteQueue = [], medium_output = []\<rparr>"

definition medium_input :: "u8 \<Rightarrow> SimulatedMedium \<Rightarrow> SimulatedMedium" where
  "medium_input octet m = m\<lparr>mWriteQueue := mWriteQueue m @ [octet]\<rparr>"

text \<open>One round of the thread's loop.\<close>

definition medium_cycle :: "SimulatedMedium \<Rightarrow> SimulatedMedium" where
  "medium_cycle m =
     (let (pushed, queue) = (case mWriteQueue m of [] \<Rightarrow> (None, []) | octet # rest \<Rightarrow> (Some octet, rest));
          medium = mMedium m @ [pushed];
          quantum = hd medium
      in m\<lparr>mMedium := tl medium, mWriteQueue := queue,
           medium_output := medium_output m @ (case quantum of None \<Rightarrow> [] | Some octet \<Rightarrow> [octet])\<rparr>)"

datatype medium_event = Medium_input u8 | Medium_cycle

primrec medium_step :: "medium_event \<Rightarrow> SimulatedMedium \<Rightarrow> SimulatedMedium" where
  "medium_step (Medium_input octet) m = medium_input octet m"
| "medium_step Medium_cycle m = medium_cycle m"

definition run_medium :: "medium_event list \<Rightarrow> SimulatedMedium \<Rightarrow> SimulatedMedium" where
  "run_medium evs m = fold medium_step evs m"

primrec put_in :: "medium_event \<Rightarrow> u8 list" where
  "put_in (Medium_input octet) = [octet]"
| "put_in Medium_cycle = []"

definition under_way :: "SimulatedMedium \<Rightarrow> u8 list" where
  "under_way m = concat (map (\<lambda>x. case x of None \<Rightarrow> [] | Some octet \<Rightarrow> [octet]) (mMedium m)) @ mWriteQueue m"

lemma medium_step_keeps:
  "medium_output (medium_step ev m) @ under_way (medium_step ev m) = medium_output m @ under_way m @ put_in ev"
  "length (mMedium (medium_step ev m)) = length (mMedium m)"
  by (cases ev; cases "mMedium m"; cases "mWriteQueue m";
      simp add: medium_input_def medium_cycle_def under_way_def)+

text \<open>No octet is lost, and none overtakes another; the line holds what its delay and rate say.\<close>

lemma medium_keeps_order:
  "medium_output (run_medium evs m) @ under_way (run_medium evs m) = medium_output m @ under_way m @ concat (map put_in evs)
    \<and> length (mMedium (run_medium evs m)) = length (mMedium m)"
proof (induction evs arbitrary: m)
  case (Cons ev evs)
  then show ?case using medium_step_keeps [of ev m] by (simp add: run_medium_def)
qed (simp add: run_medium_def)

text \<open>So the line is a link: what comes out is a beginning of what was put in.\<close>

lemma medium_is_link:
  assumes "m = run_medium evs (new_medium d baud)"
  shows "prefix (medium_output m) (concat (map put_in evs))" "length (mMedium m) = calculateCapacity d baud"
proof -
  have "under_way (new_medium d baud) = []" by (simp add: new_medium_def under_way_def)
  with medium_keeps_order [of evs "new_medium d baud"] assms
  have "medium_output m @ under_way m = concat (map put_in evs)" "length (mMedium m) = calculateCapacity d baud"
    by (simp_all add: new_medium_def)
  then show "prefix (medium_output m) (concat (map put_in evs))" "length (mMedium m) = calculateCapacity d baud"
    by (auto intro: prefixI [OF sym])
qed

text \<open>A cycle moves everything one place on, and nothing takes the place of the last.\<close>

definition places :: "SimulatedMedium \<Rightarrow> u8 option list" where
  "places m = mMedium m @ map Some (mWriteQueue m)"

lemma places_cycle: "places (medium_cycle m) = tl (places m @ (if mWriteQueue m = [] then [None] else []))"
  by (cases "mMedium m"; cases "mWriteQueue m") (simp_all add: places_def medium_cycle_def)

lemma places_cycles: "\<exists>k. places ((medium_cycle ^^ n) m) = drop n (places m) @ replicate k None"
proof (induction n)
  case 0
  show ?case by (rule exI [of _ 0]) simp
next
  case (Suc n)
  then obtain k where k: "places ((medium_cycle ^^ n) m) = drop n (places m) @ replicate k None" by blast
  obtain j where j: "places ((medium_cycle ^^ Suc n) m) = tl (drop n (places m) @ replicate j None)"
  proof (cases "mWriteQueue ((medium_cycle ^^ n) m) = []")
    case True
    with that [of "Suc k"] k places_cycle [of "(medium_cycle ^^ n) m"] show ?thesis
      by (simp add: replicate_append_same)
  next
    case False
    with that [of k] k places_cycle [of "(medium_cycle ^^ n) m"] show ?thesis by simp
  qed
  show ?case
  proof (cases "drop n (places m)")
    case Nil
    with j show ?thesis by (intro exI [of _ "j - 1"]) (simp add: drop_Suc tl_drop flip: drop_Suc)
  next
    case (Cons x xs)
    then have "drop (Suc n) (places m) = xs" using tl_drop [of n "places m"] by (simp add: drop_Suc)
    with Cons j show ?thesis by (intro exI [of _ j]) simp
  qed
qed

lemma under_way_places: "under_way m = concat (map (case_option [] (\<lambda>x. [x])) (places m))"
  by (simp add: under_way_def places_def comp_def)

text \<open>
  What is put in comes out, after as many cycles as the line and the octets before it have
  places.
\<close>

lemma medium_delivers:
  assumes "length (mMedium m) + length (mWriteQueue m) \<le> n"
  shows "medium_output ((medium_cycle ^^ n) m) = medium_output m @ under_way m"
proof -
  obtain k where "places ((medium_cycle ^^ n) m) = replicate k None"
    using places_cycles [of n m] assms by (auto simp: places_def)
  then have "under_way ((medium_cycle ^^ n) m) = []" by (simp add: under_way_places)
  moreover have "(medium_cycle ^^ n) m = run_medium (replicate n Medium_cycle) m"
    by (induction n) (simp_all add: run_medium_def replicate_append_same [symmetric] del: replicate.simps)
  ultimately show ?thesis using medium_keeps_order [of "replicate n Medium_cycle" m] by simp
qed

text \<open>The same while more is put in: the octets that were on the way come out first.\<close>

lemma medium_inputs:
  "places (fold medium_input xs m) = places m @ map Some xs" "medium_output (fold medium_input xs m) = medium_output m"
  by (induction xs arbitrary: m) (simp_all add: medium_input_def places_def)

definition somes :: "'a option list \<Rightarrow> 'a list" where
  "somes = concat \<circ> map (case_option [] (\<lambda>x. [x]))"

definition ahead_of :: "nat \<Rightarrow> SimulatedMedium \<Rightarrow> SimulatedMedium \<Rightarrow> bool" where
  "ahead_of n m m' \<longleftrightarrow> prefix (drop n (places m)) (places m')
     \<and> prefix (medium_output m @ under_way m) (medium_output m' @ somes (drop n (places m)))"

lemma ahead_start: "ahead_of 0 m m"
  by (simp add: ahead_of_def under_way_places somes_def)

lemma ahead_inputs: "ahead_of n m m' \<Longrightarrow> ahead_of n m (fold medium_input xs m')"
  by (auto simp: ahead_of_def medium_inputs)

lemma cycle_places:
  "medium_output (medium_cycle m) = medium_output m @ somes (take 1 (places m))"
  "prefix (tl (places m)) (places (medium_cycle m))"
  by (cases "mMedium m"; cases "mWriteQueue m"; simp add: places_def medium_cycle_def somes_def split: option.split)+

lemma ahead_cycle:
  assumes "ahead_of n m m'"
  shows "ahead_of (Suc n) m (medium_cycle m')"
proof (cases "drop n (places m)")
  case Nil
  then have "drop (Suc n) (places m) = []" by simp
  with Nil assms show ?thesis by (auto simp: ahead_of_def cycle_places(1) somes_def)
next
  case (Cons x xs)
  then obtain ys where ys: "places m' = x # xs @ ys" using assms by (auto simp: ahead_of_def elim: prefixE)
  have "drop (Suc n) (places m) = xs" using Cons tl_drop [of n "places m"] by (simp add: drop_Suc)
  with assms Cons ys cycle_places [of m'] show ?thesis by (auto simp: ahead_of_def somes_def dest: append_prefixD)
qed

lemma ahead_delivers:
  assumes "ahead_of n m m'" and "length (places m) \<le> n"
  shows "prefix (medium_output m @ under_way m) (medium_output m')"
  using assms by (simp add: ahead_of_def somes_def)

section \<open>The garbler\<close>

text \<open>
  The numbers of the random engine, from the interval from 0 to 1, are a parameter: the
  first decides whether the octet is dropped, one for each bit whether that is flipped.
\<close>

definition dropByte :: "rat \<Rightarrow> rat \<Rightarrow> bool" where
  "dropByte mByteDropProbability r \<longleftrightarrow> r < mByteDropProbability"

primrec flipBits_from :: "rat \<Rightarrow> nat \<Rightarrow> rat list \<Rightarrow> u8 \<Rightarrow> u8" where
  "flipBits_from p i [] octet = octet"
| "flipBits_from p i (r # rs) octet = flipBits_from p (Suc i) rs (if r < p then octet XOR push_bit i 1 else octet)"

definition flipBits :: "rat \<Rightarrow> rat list \<Rightarrow> u8 \<Rightarrow> u8" where
  "flipBits mBitFlipProbability rs octet = flipBits_from mBitFlipProbability 0 (take 8 rs) octet"

definition garble :: "rat \<Rightarrow> rat \<Rightarrow> rat list \<Rightarrow> u8 \<Rightarrow> u8 list" where
  "garble mByteDropProbability mBitFlipProbability rs octet =
     (if \<not> dropByte mByteDropProbability (hd rs) then [flipBits mBitFlipProbability (tl rs) octet] else [])"

lemma flipBits_never: "\<forall>r \<in> set rs. 0 \<le> r \<Longrightarrow> flipBits_from 0 i rs octet = octet"
  by (induction rs arbitrary: i) auto

text \<open>With probabilities of zero it passes every octet; with a drop probability above all numbers none.\<close>

lemma garble_extremes:
  assumes "length rs = 9" and "\<forall>r \<in> set rs. 0 \<le> r"
  shows "garble 0 0 rs octet = [octet]" "hd rs < p \<Longrightarrow> garble p q rs octet = []"
  using assms flipBits_never [of "take 8 (tl rs)" 0 octet]
  by (cases rs; auto simp: garble_def dropByte_def flipBits_def dest: in_set_takeD)+

end
