(* ===== verification/Sfp_Context.thy ===== *)
theory Sfp_Context
  imports Sfp_Session
begin

text \<open>
  The C++ wrapper \<^verbatim>\<open>sfp::Context\<close> of \<^verbatim>\<open>src/include/sfp/context.hpp\<close>: an object that
  owns a context of the library, registers its static functions as the callbacks, with
  itself as the user pointer, turns writes into single octets of the signal \<^verbatim>\<open>output\<close>
  and deliveries into \<^verbatim>\<open>messageReceived\<close>, and guards the transmitter by a mutex when the
  build is thread-safe. Its calls refine the same specification as the library's; the mutex
  is never locked twice nor released without being held.
\<close>

section \<open>The object\<close>

text \<open>
  The emissions of the two signals of \<^verbatim>\<open>cxx-util\<close>, in order; whom they are connected to is
  up to the client.
\<close>

datatype signal = Output u8 | MessageReceived "u8 list"

text \<open>\<open>self\<close> is the address of the object, \<open>mTransmitterMutex\<close> whether the mutex is held.\<close>

record 'h Context =
  mContext :: "'h sfp"
  mTransmitterMutex :: bool
  self :: nat
  signals :: "signal list"

text \<open>The addresses of the static member functions: any four different ones would do.\<close>

definition addr_staticDeliver :: nat where "addr_staticDeliver = 1"
definition addr_staticWrite :: nat where "addr_staticWrite = 2"
definition addr_staticLock :: nat where "addr_staticLock = 3"
definition addr_staticUnlock :: nat where "addr_staticUnlock = 4"

lemmas addr_defs = addr_staticDeliver_def addr_staticWrite_def addr_staticLock_def addr_staticUnlock_def

definition staticDeliver :: "'h Context \<Rightarrow> u8 list \<Rightarrow> 'h Context" where
  "staticDeliver C bs = C\<lparr>signals := signals C @ [MessageReceived bs]\<rparr>"

definition staticWrite :: "'h Context \<Rightarrow> u8 list \<Rightarrow> 'h Context" where
  "staticWrite C octets = foldl (\<lambda>C octet. C\<lparr>signals := signals C @ [Output octet]\<rparr>) C octets"

definition staticLock :: "'h Context \<Rightarrow> 'h Context res" where
  "staticLock C = (if mTransmitterMutex C then Inl MutexMisuse else Inr (C\<lparr>mTransmitterMutex := True\<rparr>))"

definition staticUnlock :: "'h Context \<Rightarrow> 'h Context res" where
  "staticUnlock C = (if mTransmitterMutex C then Inr (C\<lparr>mTransmitterMutex := False\<rparr>) else Inl MutexMisuse)"

text \<open>
  A call of a callback: the function at its address is run, with its user pointer cast to
  the object. A pointer to anything else, and any other address, would be undefined.
\<close>

fun call_static :: "'h Context \<Rightarrow> event \<Rightarrow> 'h Context res" where
  "call_static C (Write_call f octets d) =
     (if f = addr_staticWrite \<and> d = Some (self C) then Inr (staticWrite C octets) else Inl NullDeref)"
| "call_static C (Deliver_call f bs d) =
     (if f = addr_staticDeliver \<and> d = Some (self C) then Inr (staticDeliver C bs) else Inl NullDeref)"
| "call_static C (Lock_call f d) =
     (if f = addr_staticLock \<and> d = Some (self C) then staticLock C else Inl NullDeref)"
| "call_static C (Unlock_call f d) =
     (if f = addr_staticUnlock \<and> d = Some (self C) then staticUnlock C else Inl NullDeref)"

text \<open>
  A call of the library on the object's context, with the callbacks it makes. None of them
  changes the library's context, so they can be run in their order when it returns.
\<close>

definition in_library :: "('h sfp \<Rightarrow> 'h sfp res) \<Rightarrow> 'h Context \<Rightarrow> 'h Context res" where
  "in_library f C =
     bindR (f (mContext C))
       (\<lambda>c. foldR call_static (drop (length (trace (mContext C))) (trace c)) (C\<lparr>mContext := c\<rparr>))"

text \<open>The constructor and \<^verbatim>\<open>initialize\<close>; \<open>threadsafe\<close> is \<^verbatim>\<open>SFP_CONFIG_THREADSAFE\<close>.\<close>

definition initialize :: "bool \<Rightarrow> 'h Context \<Rightarrow> 'h Context" where
  "initialize threadsafe C =
     (let c = sfpInit (mContext C);
          c = sfpSetDeliverCallback c (Some addr_staticDeliver) (Some (self C));
          c = sfpSetWriteCallback c (Some addr_staticWrite) (Some (self C));
          c = (if threadsafe then sfpSetLockCallback c (Some addr_staticLock) (Some (self C)) else c);
          c = (if threadsafe then sfpSetUnlockCallback c (Some addr_staticUnlock) (Some (self C)) else c)
      in C\<lparr>mContext := c\<rparr>)"

definition context_input :: "('h, 'z) ringbuffer_scheme \<Rightarrow> 'h Context \<Rightarrow> u8 \<Rightarrow> 'h Context res" where
  "context_input R C octet = in_library (\<lambda>c. deliver_octet R c octet) C"

definition sendMessage :: "('h, 'z) ringbuffer_scheme \<Rightarrow> 'h Context \<Rightarrow> u8 list \<Rightarrow> u8 list \<Rightarrow> 'h Context res" where
  "sendMessage R C stack bs =
     in_library (\<lambda>c. bindR (sfpWritePacket R c stack bs) (\<lambda>(c, outlen). Inr c)) C"

definition context_connect :: "('h, 'z) ringbuffer_scheme \<Rightarrow> 'h Context \<Rightarrow> 'h Context res" where
  "context_connect R C = in_library (sfpConnect R) C"

definition isConnected :: "'h Context \<Rightarrow> bool" where
  "isConnected C \<longleftrightarrow> sfpIsConnected (mContext C)"

fun context_call :: "('h, 'z) ringbuffer_scheme \<Rightarrow> 'h Context \<Rightarrow> call \<Rightarrow> 'h Context res" where
  "context_call R C CallConnect = context_connect R C"
| "context_call R C (CallWrite stack bs) = sendMessage R C stack bs"
| "context_call R C (CallOctet octet) = context_input R C octet"

section \<open>The callbacks do what the library's trace says\<close>

fun signal_octets :: "signal \<Rightarrow> u8 list" where
  "signal_octets (Output octet) = [octet]"
| "signal_octets (MessageReceived bs) = []"

fun signal_messages :: "signal \<Rightarrow> u8 list list" where
  "signal_messages (Output octet) = []"
| "signal_messages (MessageReceived bs) = [bs]"

definition outputs :: "signal list \<Rightarrow> u8 list" where
  "outputs ss = concat (map signal_octets ss)"

definition messages :: "signal list \<Rightarrow> u8 list list" where
  "messages ss = concat (map signal_messages ss)"

lemma signals_simps [simp]:
  "outputs [] = []" "outputs (s # ss) = signal_octets s @ outputs ss" "outputs (ss @ ss') = outputs ss @ outputs ss'"
  "messages [] = []" "messages (s # ss) = signal_messages s @ messages ss"
  "messages (ss @ ss') = messages ss @ messages ss'"
  by (simp_all add: outputs_def messages_def)

lemma staticWrite_eq: "staticWrite C octets = C\<lparr>signals := signals C @ map Output octets\<rparr>"
  unfolding staticWrite_def by (induction octets arbitrary: C) simp_all

lemma outputs_map [simp]: "outputs (map Output xs) = xs" "messages (map Output xs) = []"
  by (induction xs) simp_all

definition context_callbacks :: "bool \<Rightarrow> nat \<Rightarrow> (funptr \<times> pointer) list" where
  "context_callbacks threadsafe this =
     [(Some addr_staticWrite, Some this),
      if threadsafe then (Some addr_staticLock, Some this) else (None, None),
      if threadsafe then (Some addr_staticUnlock, Some this) else (None, None),
      (Some addr_staticDeliver, Some this)]"

lemma callbacks_run:
  assumes "callbacks c = context_callbacks threadsafe (self C)" and "\<forall>ev \<in> set es. own_call c ev"
    and "threadsafe \<Longrightarrow> lock_monitor (mTransmitterMutex C) es = Some held"
    and "\<not> threadsafe \<Longrightarrow> held = mTransmitterMutex C"
  shows "\<exists>ss. foldR call_static es C = Inr (C\<lparr>mTransmitterMutex := held, signals := signals C @ ss\<rparr>)
    \<and> outputs ss = out_octets es \<and> messages ss = deliveries es"
  using assms
proof (induction es arbitrary: C)
  case Nil
  then show ?case by (cases threadsafe) (auto intro!: exI [of _ "[]"])
next
  case (Cons ev es)
  obtain C1 ss1 where C1: "call_static C ev = Inr C1" "self C1 = self C"
    "C1 = C\<lparr>mTransmitterMutex := mTransmitterMutex C1, signals := signals C @ ss1\<rparr>"
    "outputs ss1 = event_octets ev" "messages ss1 = event_deliveries ev"
    "threadsafe \<Longrightarrow> lock_monitor (mTransmitterMutex C1) es = Some held"
    "\<not> threadsafe \<Longrightarrow> held = mTransmitterMutex C1"
  proof (cases ev)
    case (Write_call f bs d)
    with Cons.prems show ?thesis
      by (intro that [of "staticWrite C bs" "map Output bs"])
        (auto simp: callbacks_def context_callbacks_def staticWrite_eq split: if_splits)
  next
    case (Deliver_call f bs d)
    with Cons.prems show ?thesis
      by (intro that [of "staticDeliver C bs" "[MessageReceived bs]"])
        (auto simp: callbacks_def context_callbacks_def staticDeliver_def split: if_splits)
  next
    case (Lock_call f d)
    with Cons.prems show ?thesis
      by (intro that [of "C\<lparr>mTransmitterMutex := True\<rparr>" "[]"])
        (auto simp: callbacks_def context_callbacks_def staticLock_def sfpIsTransmitterLockable_def split: if_splits)
  next
    case (Unlock_call f d)
    with Cons.prems show ?thesis
      by (intro that [of "C\<lparr>mTransmitterMutex := False\<rparr>" "[]"])
        (auto simp: callbacks_def context_callbacks_def staticUnlock_def sfpIsTransmitterLockable_def split: if_splits)
  qed
  from Cons.IH [of C1] Cons.prems C1 obtain ss where ss:
    "foldR call_static es C1 = Inr (C1\<lparr>mTransmitterMutex := held, signals := signals C1 @ ss\<rparr>)"
    "outputs ss = out_octets es" "messages ss = deliveries es" by auto
  moreover have "C1\<lparr>mTransmitterMutex := held, signals := signals C1 @ ss\<rparr>
      = C\<lparr>mTransmitterMutex := held, signals := signals C @ (ss1 @ ss)\<rparr>"
    by (subst (1 2) C1(3)) simp
  ultimately show ?case using C1(1,4,5) by (auto intro!: exI [of _ "ss1 @ ss"])
qed

section \<open>The wrapper refines the specification\<close>

definition context_ok :: "('h, 'z) ringbuffer_scheme \<Rightarrow> bool \<Rightarrow> 'h Context \<Rightarrow> bool" where
  "context_ok R threadsafe C \<longleftrightarrow> sfp_inv R (mContext C)
     \<and> callbacks (mContext C) = context_callbacks threadsafe (self C) \<and> \<not> mTransmitterMutex C"

definition context_shows :: "'h Context \<Rightarrow> 'h Context \<Rightarrow> frame list \<Rightarrow> u8 list list \<Rightarrow> bool" where
  "context_shows C C' fs ds \<longleftrightarrow> self C' = self C
     \<and> (\<exists>ss. signals C' = signals C @ ss \<and> outputs ss = wire fs \<and> messages ss = ds)"

lemma in_library_ok:
  assumes ok: "context_ok R threadsafe C" and f: "f (mContext C) = Inr c'"
    and r: "reacts R (mContext C) c' (abs_endpoint R c') fs ds" and inv: "sfp_inv R c'"
  shows "\<exists>C'. in_library f C = Inr C' \<and> context_ok R threadsafe C' \<and> mContext C' = c' \<and> context_shows C C' fs ds"
proof -
  let ?c = "mContext C"
  have cb: "callbacks ?c = context_callbacks threadsafe (self C)" "\<not> mTransmitterMutex C"
    using ok by (simp_all add: context_ok_def)
  then have "sfpIsTransmitterLockable ?c = threadsafe" "deliver (rx ?c) \<noteq> None"
    by (auto simp: callbacks_def context_callbacks_def sfpIsTransmitterLockable_def split: if_splits)
  with reacts_trace [OF r] obtain es where es: "trace c' = trace ?c @ es" "\<forall>ev \<in> set es. own_call ?c ev"
    "out_octets es = wire fs" "deliveries es = ds" "threadsafe \<Longrightarrow> lock_monitor False es = Some False"
    by auto
  obtain ss where ss: "foldR call_static es (C\<lparr>mContext := c'\<rparr>)
      = Inr (C\<lparr>mContext := c', mTransmitterMutex := False, signals := signals C @ ss\<rparr>)"
    "outputs ss = out_octets es" "messages ss = deliveries es"
    using callbacks_run [of ?c threadsafe "C\<lparr>mContext := c'\<rparr>" es False] cb es(2,5) by auto
  have "in_library f C = Inr (C\<lparr>mContext := c', mTransmitterMutex := False, signals := signals C @ ss\<rparr>)"
    using ss(1) by (simp add: in_library_def f es(1))
  with ss(2,3) es(3,4) inv cb reacts_seen(4) [OF r] show ?thesis
    by (auto simp: context_ok_def context_shows_def)
qed

interpretation contexts: simulation "context_ok R threadsafe" "\<lambda>C. abs_sfp R (mContext C)"
  context_shows "context_call R" call_ok on_call
  for R :: "('h, 'z) ringbuffer_scheme" and threadsafe :: bool
proof
  fix C call a fs ds
  assume ok: "context_ok R threadsafe C" and call: "call_ok call"
    and spec: "on_call (abs_sfp R (mContext C)) call = (a, fs, ds)"
  from calls.step_ok [OF _ call spec] ok obtain c' where c': "run_call R (mContext C) call = Inr c'"
    "sfp_inv R c'" "abs_sfp R c' = a" "reacts R (mContext C) c' (abs_endpoint R c') fs ds"
    by (auto simp: context_ok_def)
  have "context_call R C call = in_library (\<lambda>c. run_call R c call) C"
    by (cases call) (simp_all add: context_connect_def sendMessage_def context_input_def)
  with in_library_ok [OF ok _ c'(4,2), of "\<lambda>c. run_call R c call"] c'(1,3)
  show "\<exists>C'. context_call R C call = Inr C' \<and> context_ok R threadsafe C'
      \<and> abs_sfp R (mContext C') = a \<and> context_shows C C' fs ds"
    by auto
next
  fix C :: "'h Context"
  show "context_shows C C [] []" by (simp add: context_shows_def)
next
  fix C D E :: "'h Context" and fs ds fs' ds'
  assume "context_shows C D fs ds" and "context_shows D E fs' ds'"
  then show "context_shows C E (fs @ fs') (ds @ ds')" by (auto simp: context_shows_def)
qed

lemma initialize_ok:
  assumes "ringbuffer_laws R" and "memory_ok R (mContext C)" and "\<not> mTransmitterMutex C"
  shows "context_ok R threadsafe (initialize threadsafe C)"
proof -
  let ?f = "Some addr_staticDeliver" and ?d = "Some (self C)"
  have "sfp_inv R (sfpSetWriteCallback (sfpSetDeliverCallback (sfpInit (mContext C)) ?f ?d) (Some addr_staticWrite) ?d)"
  proof -
    have "sfpSetWriteCallback (sfpSetDeliverCallback (sfpInit (mContext C)) ?f ?d) (Some addr_staticWrite) ?d
        = sfpSetDeliverCallback (sfpSetWriteCallback (sfpInit (mContext C)) (Some addr_staticWrite) ?d) ?f ?d"
      by (simp add: setup_defs)
    then show ?thesis using setters_inv(2) [OF init_inv [OF assms(1,2)]] by simp
  qed
  then have "sfp_inv R (mContext (initialize threadsafe C))"
    by (simp add: initialize_def Let_def setters_inv(3,4))
  moreover have "callbacks (mContext (initialize threadsafe C)) = context_callbacks threadsafe (self C)"
    by (simp add: initialize_def callbacks_def context_callbacks_def setup_defs)
  ultimately show ?thesis
    using assms(3) by (simp add: context_ok_def) (simp add: initialize_def Let_def)
qed

section \<open>Properties of the wrapper\<close>

text \<open>The signals emitted between two states of the object.\<close>

definition emitted :: "'h Context \<Rightarrow> 'h Context \<Rightarrow> signal list" where
  "emitted C C' = drop (length (signals C)) (signals C')"

lemma shows_emitted:
  "context_shows C C' fs ds \<Longrightarrow> outputs (emitted C C') = wire fs \<and> messages (emitted C C') = ds"
  by (auto simp: context_shows_def emitted_def)

text \<open>
  C29. The wrapper is safe and faithful: an initialised object, thread-safe or not, can be
  used by any sequence of valid calls without a fault - in particular the assertion of
  \<^verbatim>\<open>input\<close> holds and the mutex is never locked while held nor unlocked while free - and
  afterwards the mutex is free; the octets of \<^verbatim>\<open>output\<close> are the frames and the messages of
  \<^verbatim>\<open>messageReceived\<close> the deliveries of the specification.
\<close>

theorem context_runs:
  assumes "ringbuffer_laws R" and "memory_ok R (mContext C)" and "\<not> mTransmitterMutex C"
    and "\<forall>call \<in> set calls. call_ok call"
  shows "\<exists>C'. foldR (context_call R) calls (initialize threadsafe C) = Inr C' \<and> \<not> mTransmitterMutex C'
    \<and> (case run_spec on_call (abs_sfp R (mContext (initialize threadsafe C))) calls of (a, fs, ds) \<Rightarrow>
          abs_sfp R (mContext C') = a
          \<and> outputs (emitted (initialize threadsafe C) C') = wire fs
          \<and> messages (emitted (initialize threadsafe C) C') = ds)"
proof -
  let ?C = "initialize threadsafe C"
  obtain a fs ds where r: "run_spec on_call (abs_sfp R (mContext ?C)) calls = (a, fs, ds)" by (metis prod_cases3)
  from contexts.run_ok [OF initialize_ok [OF assms(1-3)] assms(4) r] show ?thesis
    using shows_emitted by (fastforce simp: r context_ok_def)
qed

definition example_object :: "SFPpacket list Context" where
  "example_object = \<lparr>mContext = raw_context, mTransmitterMutex = False, self = 77, signals = []\<rparr>"

theorem context_runs_witness:
  "\<exists>C'. foldR (context_call list_ringbuffer) [CallConnect, CallWrite (replicate SFP_CONFIG_MAX_PACKET_SIZE 0) [1], CallOctet 0x7e]
       (initialize True example_object) = Inr C' \<and> \<not> mTransmitterMutex C'"
proof -
  have "memory_ok list_ringbuffer (mContext example_object)" "\<not> mTransmitterMutex example_object"
    using raw_memory_ok by (simp_all add: example_object_def)
  from context_runs [OF list_ringbuffer_laws this,
      of "[CallConnect, CallWrite (replicate SFP_CONFIG_MAX_PACKET_SIZE 0) [1], CallOctet 0x7e]" True]
  show ?thesis by (auto simp: sfp_consts)
qed

text \<open>
  Two objects whose \<^verbatim>\<open>output\<close> and \<^verbatim>\<open>input\<close> are connected exchange messages: what one
  sends with \<^verbatim>\<open>sendMessage\<close>, the other, connected and expecting its number, signals by
  \<^verbatim>\<open>messageReceived\<close>, in order and once, with its mutex free when it returns.
\<close>

theorem contexts_exchange:
  assumes "context_ok R threadsafe A" and "context_ok R' threadsafe' B"
    and "abs_receiver (mContext B) = idle" and "isConnected B"
    and "rx_seq (rx (mContext B)) = tx_seq (tx (mContext A))"
    and "length stack = SFP_CONFIG_MAX_PACKET_SIZE"
    and "\<forall>bs \<in> set bss. length bs \<le> SFP_CONFIG_MAX_PACKET_SIZE - SFP_CRC_SIZE"
  shows "\<exists>A' B'. foldR (\<lambda>A. sendMessage R A stack) bss A = Inr A'
    \<and> foldR (context_input R') (outputs (emitted A A')) B = Inr B'
    \<and> messages (emitted B B') = bss \<and> outputs (emitted B B') = []
    \<and> \<not> mTransmitterMutex A' \<and> \<not> mTransmitterMutex B' \<and> isConnected B'"
proof -
  let ?a = "mContext A" and ?b = "mContext B"
  obtain e where e: "run_spec on_call (abs_sfp R ?a) (map (CallWrite stack) bss)
      = ((e, abs_receiver ?a), usr (tx_seq (tx ?a)) bss, [])"
    using sends [of "abs_endpoint R ?a" "abs_receiver ?a" stack bss]
    by (auto simp: abs_sfp_def endpoint_simps)
  have calls: "\<forall>call \<in> set (map (CallWrite stack) bss). call_ok call"
    using assms(6,7) by auto
  obtain A' where A': "foldR (\<lambda>A. sendMessage R A stack) bss A = Inr A'" "context_ok R threadsafe A'"
    "outputs (emitted A A') = wire (usr (tx_seq (tx ?a)) bss)"
    using contexts.run_ok [OF assms(1) calls e] shows_emitted by (fastforce simp: foldR_map)
  have inv: "sfp_inv R ?a" using assms(1) by (simp add: context_ok_def)
  have "conn (abs_endpoint R' ?b) = SFP_CONNECT_STATE_CONNECTED" 
    using assms(4) by (simp add: isConnected_def sfpIsConnected_def endpoint_simps)
  from receives(1) [OF this, of bss] assms(5)
  have "on_inputs (abs_endpoint R' ?b) (map Some (usr (tx_seq (tx ?a)) bss))
      = ((abs_endpoint R' ?b)\<lparr>rxs := (nextSeq ^^ length bss) (rx_seq (rx ?b))\<rparr>, [], bss)"
    by (simp add: endpoint_simps)
  moreover have "\<forall>f \<in> set (usr (tx_seq (tx ?a)) bss). frame_ok f"
    using assms(7) inv_seqs(1) [OF inv] by (intro usr_frames_ok) (auto simp: max_payload_def)
  ultimately have r: "run_spec on_call (abs_sfp R' ?b) (map CallOctet (wire (usr (tx_seq (tx ?a)) bss)))
      = (((abs_endpoint R' ?b)\<lparr>rxs := (nextSeq ^^ length bss) (rx_seq (rx ?b))\<rparr>, idle), [], bss)"
    by (simp add: on_call_octets abs_sfp_def on_octets_deframe assms(3) deframe_wire)
  obtain B' where B': "foldR (context_input R') (wire (usr (tx_seq (tx ?a)) bss)) B = Inr B'"
    "context_ok R' threadsafe' B'" "context_shows B B' [] bss"
    "abs_endpoint R' (mContext B') = (abs_endpoint R' ?b)\<lparr>rxs := (nextSeq ^^ length bss) (rx_seq (rx ?b))\<rparr>"
    using contexts.run_ok [OF assms(2) _ r] by (auto simp: foldR_map abs_sfp_def)
  have "isConnected B'"
    using assms(4) arg_cong [OF B'(4), of conn]
    by (simp add: isConnected_def sfpIsConnected_def endpoint_simps)
  then show ?thesis
    using A' B'(1-3) shows_emitted [of B B' "[]" bss] by (auto simp: context_ok_def)
qed

lemma connect_state_inv:
  assumes "sfp_inv R c"
  shows "sfp_inv R (c\<lparr>connectState := st\<rparr>)"
proof -
  have "abs_receiver (c\<lparr>connectState := st\<rparr>) = abs_receiver c" by (rule abs_receiver_cong) simp_all
  then show ?thesis
    using assms by (simp add: sfp_inv_def rx_consistent_def sfp_ok_def history_ok_def history_list_def)
qed

definition example_wrapper :: "SFPpacket list Context" where
  "example_wrapper = (initialize True example_object)\<lparr>mContext :=
     (mContext (initialize True example_object))\<lparr>connectState := SFP_CONNECT_STATE_CONNECTED\<rparr>\<rparr>"

lemma example_wrapper_ok: "context_ok list_ringbuffer True example_wrapper"
proof -
  have "context_ok list_ringbuffer True (initialize True example_object)"
    using raw_memory_ok by (intro initialize_ok) (simp_all add: example_object_def)
  then show ?thesis
    by (auto simp: context_ok_def example_wrapper_def callbacks_def intro: connect_state_inv)
qed

theorem contexts_exchange_witness:
  "\<exists>A' B'. foldR (\<lambda>A. sendMessage list_ringbuffer A (replicate SFP_CONFIG_MAX_PACKET_SIZE 0)) [[1], [0x7e, 2]] example_wrapper = Inr A'
    \<and> foldR (context_input list_ringbuffer) (outputs (emitted example_wrapper A')) example_wrapper = Inr B'
    \<and> messages (emitted example_wrapper B') = [[1], [0x7e, 2]]"
proof -
  have start: "abs_receiver (mContext example_wrapper) = idle" "isConnected example_wrapper"
    "rx_seq (rx (mContext example_wrapper)) = tx_seq (tx (mContext example_wrapper))"
    by (simp_all add: example_wrapper_def initialize_def setup_defs abs_receiver_def idle_def
        isConnected_def sfpIsConnected_def)
  have "\<forall>bs \<in> set [[1], [0x7e, 2 :: u8]]. length bs \<le> SFP_CONFIG_MAX_PACKET_SIZE - SFP_CRC_SIZE"
    by (simp add: sfp_consts)
  from contexts_exchange [OF example_wrapper_ok example_wrapper_ok start length_replicate this]
  show ?thesis by blast
qed

end
