(* ===== verification/Sfp_Echo.thy ===== *)
theory Sfp_Echo
  imports Sfp_Medium Sfp_Context
begin

text \<open>
  Two \<^verbatim>\<open>sfp::Context\<close> objects as the ends of a link, and the set-up of the echo test
  (\<^verbatim>\<open>src/tests/sfp-echo.cpp\<close>): a simulated medium in each direction, which loses nothing.
\<close>

section \<open>A context as an end of a link\<close>

text \<open>An object with the octets that came in and the messages that were sent.\<close>

record 'h context_node =
  node_object :: "'h Context"
  node_got :: "u8 list"
  node_posted :: "u8 list list"

text \<open>A client may also emit \<^verbatim>\<open>output (0x7e)\<close>, a flag that keeps the line alive.\<close>

definition heartbeat :: "'h Context \<Rightarrow> 'h Context" where
  "heartbeat C = C\<lparr>signals := signals C @ [Output SFP_FLAG]\<rparr>"

inductive context_step :: "('h, 'z) ringbuffer_scheme \<Rightarrow> 'h context_node \<Rightarrow> 'h context_node \<Rightarrow> bool" for R where
  inputs: "context_input R (node_object n) octet = Inr C
    \<Longrightarrow> context_step R n (n\<lparr>node_object := C, node_got := node_got n @ [octet]\<rparr>)"
| sends: "length stack = SFP_CONFIG_MAX_PACKET_SIZE \<Longrightarrow> length bs \<le> SFP_CONFIG_MAX_PACKET_SIZE
    \<Longrightarrow> sendMessage R (node_object n) stack bs = Inr C
    \<Longrightarrow> context_step R n (n\<lparr>node_object := C, node_posted := node_posted n @ [bs]\<rparr>)"
| beats: "context_step R n (n\<lparr>node_object := heartbeat (node_object n)\<rparr>)"

definition node_put :: "'h context_node \<Rightarrow> u8 list" where
  "node_put n = outputs (signals (node_object n))"

definition node_given :: "'h context_node \<Rightarrow> u8 list list" where
  "node_given n = messages (signals (node_object n))"

definition node_view :: "('h, 'z) ringbuffer_scheme \<Rightarrow> 'h context_node \<Rightarrow> endpoint" where
  "node_view R n = abs_endpoint R (mContext (node_object n))"

definition context_opens :: "('h, 'z) ringbuffer_scheme \<Rightarrow> 'h context_node \<Rightarrow> bool" where
  "context_opens R n \<longleftrightarrow> (\<exists>threadsafe. context_ok R threadsafe (node_object n)) \<and> isConnected (node_object n)
     \<and> abs_receiver (mContext (node_object n)) = idle \<and> signals (node_object n) = [] \<and> node_got n = [] \<and> node_posted n = []"

lemma context_call_step:
  assumes "context_ok R threadsafe C" and "call_ok call" and "context_call R C call = Inr C'"
  obtains fs ds where "on_call (abs_sfp R (mContext C)) call = (abs_sfp R (mContext C'), fs, ds)"
    "context_ok R threadsafe C'" "outputs (signals C') = outputs (signals C) @ wire fs"
    "messages (signals C') = messages (signals C) @ ds"
proof -
  obtain a fs ds where spec: "on_call (abs_sfp R (mContext C)) call = (a, fs, ds)" by (metis prod_cases3)
  from contexts.step_ok [OF assms(1,2) spec] assms(3) that [of fs ds] spec show ?thesis
    by (auto simp: context_shows_def)
qed

lemma context_step_call:
  assumes "context_step R n n'"
  obtains (call) call where "call_ok call" "call \<noteq> CallConnect" "context_call R (node_object n) call = Inr (node_object n')"
      "node_got n' = node_got n @ call_octets call" "node_posted n' = node_posted n @ call_packets call"
    | (beat) "n' = n\<lparr>node_object := heartbeat (node_object n)\<rparr>"
  using assms
proof cases
  case (inputs octet C)
  with call [of "CallOctet octet"] show ?thesis by simp
next
  case (sends stack bs C)
  with call [of "CallWrite stack bs"] show ?thesis by simp
qed (rule beat)

lemma heartbeat_simps [simp]:
  "mContext (heartbeat C) = mContext C" "context_ok R threadsafe (heartbeat C) = context_ok R threadsafe C"
  "signals (heartbeat C) = signals C @ [Output SFP_FLAG]"
  by (simp_all add: heartbeat_def context_ok_def)

lemma context_explained:
  assumes "context_opens R n0" and "(context_step R)\<^sup>*\<^sup>* n0 n"
  shows "\<exists>threadsafe calls fs ds. CallConnect \<notin> set calls \<and> context_ok R threadsafe (node_object n)
    \<and> run_spec on_call (node_view R n0, idle) calls = (abs_sfp R (mContext (node_object n)), fs, ds)
    \<and> concat (map call_octets calls) = node_got n \<and> concat (map call_packets calls) = node_posted n
    \<and> on_line fs (node_put n) \<and> node_given n = ds"
  using assms(2)
proof (induction rule: rtranclp_induct)
  case base
  obtain threadsafe where "context_ok R threadsafe (node_object n0)" using assms(1) by (auto simp: context_opens_def)
  with assms(1) show ?case
    by (intro exI [of _ threadsafe] exI [of _ "[]"])
      (simp add: context_opens_def node_view_def abs_sfp_def node_put_def node_given_def on_line.silence)
next
  case (step n n')
  then obtain threadsafe calls fs ds where c: "CallConnect \<notin> set calls" "context_ok R threadsafe (node_object n)"
    "run_spec on_call (node_view R n0, idle) calls = (abs_sfp R (mContext (node_object n)), fs, ds)"
    "concat (map call_octets calls) = node_got n" "concat (map call_packets calls) = node_posted n"
    "on_line fs (node_put n)" "node_given n = ds" by blast
  from step.hyps(2) show ?case
  proof (cases rule: context_step_call)
    case (call call)
    obtain fs' ds' where s: "on_call (abs_sfp R (mContext (node_object n))) call = (abs_sfp R (mContext (node_object n')), fs', ds')"
      "context_ok R threadsafe (node_object n')" "outputs (signals (node_object n')) = outputs (signals (node_object n)) @ wire fs'"
      "messages (signals (node_object n')) = messages (signals (node_object n)) @ ds'"
      using context_call_step [OF c(2) call(1,3)] .
    have "on_line (fs @ fs') (node_put n')" using on_line.framed [OF c(6)] s(3) by (simp add: node_put_def)
    with c call s show ?thesis
      by (intro exI [of _ threadsafe] exI [of _ "calls @ [call]"] exI [of _ "fs @ fs'"] exI [of _ "ds @ ds'"])
        (auto simp: run_spec_append node_given_def)
  next
    case beat
    have "on_line fs (node_put n')" using on_line.alive [OF c(6)] by (simp add: beat node_put_def)
    with c show ?thesis
      by (intro exI [of _ threadsafe] exI [of _ calls] exI [of _ fs] exI [of _ ds]) (simp add: beat node_given_def)
  qed
qed

lemma context_step_grows:
  assumes "context_opens R n0" and "(context_step R)\<^sup>*\<^sup>* n0 n" and "context_step R n n'"
  shows "prefix (node_put n) (node_put n') \<and> prefix (node_posted n) (node_posted n')"
proof -
  obtain threadsafe where ok: "context_ok R threadsafe (node_object n)" using context_explained [OF assms(1,2)] by blast
  from assms(3) show ?thesis
  proof (cases rule: context_step_call)
    case (call call)
    from context_call_step [OF ok call(1,3)] obtain fs where
      "outputs (signals (node_object n')) = outputs (signals (node_object n)) @ wire fs" .
    with call(5) show ?thesis by (simp add: node_put_def)
  qed (simp add: node_put_def)
qed

lemma context_front:
  assumes "context_opens R n0" and "(context_step R)\<^sup>*\<^sup>* n0 n"
  shows "\<exists>calls a fs ds. CallConnect \<notin> set calls \<and> run_spec on_call (node_view R n0, idle) calls = (a, fs, ds)
    \<and> prefix (concat (map call_octets calls)) (node_got n) \<and> concat (map call_packets calls) = node_posted n
    \<and> begun fs (node_put n)
    \<and> ((\<forall>d \<in> set ds. length d \<le> max_payload) \<longrightarrow> prefix (node_given n) ds \<and> (True \<longrightarrow> node_given n = ds))
    \<and> (True \<longrightarrow> concat (map call_octets calls) = node_got n \<and> on_line fs (node_put n))"
proof -
  obtain threadsafe calls fs ds where c: "CallConnect \<notin> set calls" "context_ok R threadsafe (node_object n)"
    "run_spec on_call (node_view R n0, idle) calls = (abs_sfp R (mContext (node_object n)), fs, ds)"
    "concat (map call_octets calls) = node_got n" "concat (map call_packets calls) = node_posted n"
    "on_line fs (node_put n)" "node_given n = ds" using context_explained [OF assms] by blast
  then show ?thesis
    by (intro exI [of _ calls] exI [of _ "abs_sfp R (mContext (node_object n))"] exI [of _ fs] exI [of _ ds]) auto
qed

lemma context_connected:
  assumes "context_opens R n"
  shows "conn (node_view R n) = SFP_CONNECT_STATE_CONNECTED \<and> seq_ok (rxs (node_view R n))" "node_got n = [] \<and> node_put n = []"
  using assms inv_seqs(2) [of R "mContext (node_object n)"]
  by (auto simp: context_opens_def context_ok_def node_view_def endpoint_simps isConnected_def sfpIsConnected_def node_put_def)

interpretation context_end: front_end "context_opens R" "context_step R" "\<lambda>n. True" "node_view R"
    node_got node_put node_posted node_given "\<lambda>ds. ds" for R
  by unfold_locales (assumption | (rule context_front context_connected context_step_grows; assumption))+

interpretation contexts_link: link "context_opens R" "context_step R" "\<lambda>n. True" "node_view R"
    node_got node_put node_posted node_given "\<lambda>ds. ds"
    "context_opens R'" "context_step R'" "\<lambda>n. True" "node_view R'"
    node_got node_put node_posted node_given "\<lambda>ds. ds" for R R'
  by unfold_locales

section \<open>The echo test\<close>

text \<open>
  An object acts, and its \<^verbatim>\<open>output\<close> goes through the garbler, with numbers \<open>draws\<close> of its
  engine, into the medium.
\<close>

definition line_in :: "rat \<Rightarrow> rat \<Rightarrow> rat list list \<Rightarrow> u8 list \<Rightarrow> SimulatedMedium \<Rightarrow> SimulatedMedium" where
  "line_in p q draws octets m = fold medium_input (concat (map2 (garble p q) draws octets)) m"

definition draws_ok :: "rat list list \<Rightarrow> bool" where
  "draws_ok draws \<longleftrightarrow> (\<forall>rs \<in> set draws. length rs = 9 \<and> (\<forall>r \<in> set rs. 0 \<le> r \<and> r \<le> 1))"

inductive acts ::
  "('h, 'z) ringbuffer_scheme \<Rightarrow> rat \<Rightarrow> rat \<Rightarrow> 'h context_node \<times> SimulatedMedium \<Rightarrow> 'h context_node \<times> SimulatedMedium \<Rightarrow> bool"
  for R p q where
  act: "context_step R n n' \<Longrightarrow> node_put n' = node_put n @ octets \<Longrightarrow> length draws = length octets \<Longrightarrow> draws_ok draws
    \<Longrightarrow> acts R p q (n, m) (n', line_in p q draws octets m)"

text \<open>
  Alice, the medium from her to Bob, the one back, and Bob: each of them sends when it likes;
  a cycle of a medium gives the octet that leaves it, if any, to the object at its end.
\<close>

inductive echo_step ::
  "('h, 'z) ringbuffer_scheme \<Rightarrow> rat \<Rightarrow> rat
    \<Rightarrow> ('h context_node \<times> SimulatedMedium) \<times> (SimulatedMedium \<times> 'h context_node)
    \<Rightarrow> ('h context_node \<times> SimulatedMedium) \<times> (SimulatedMedium \<times> 'h context_node) \<Rightarrow> bool" for R p q where
  alice_sends: "acts R p q (a, ab) (a', ab') \<Longrightarrow> node_got a' = node_got a
    \<Longrightarrow> echo_step R p q ((a, ab), (ba, b)) ((a', ab'), (ba, b))"
| bob_sends: "acts R p q (b, ba) (b', ba') \<Longrightarrow> node_got b' = node_got b
    \<Longrightarrow> echo_step R p q ((a, ab), (ba, b)) ((a, ab), (ba', b'))"
| to_bob_idle: "medium_output (medium_cycle ab) = medium_output ab
    \<Longrightarrow> echo_step R p q ((a, ab), (ba, b)) ((a, medium_cycle ab), (ba, b))"
| to_alice_idle: "medium_output (medium_cycle ba) = medium_output ba
    \<Longrightarrow> echo_step R p q ((a, ab), (ba, b)) ((a, ab), (medium_cycle ba, b))"
| to_bob: "medium_output (medium_cycle ab) = medium_output ab @ [octet] \<Longrightarrow> acts R p q (b, ba) (b', ba')
    \<Longrightarrow> node_got b' = node_got b @ [octet] \<Longrightarrow> echo_step R p q ((a, ab), (ba, b)) ((a, medium_cycle ab), (ba', b'))"
| to_alice: "medium_output (medium_cycle ba) = medium_output ba @ [octet] \<Longrightarrow> acts R p q (a, ab) (a', ab')
    \<Longrightarrow> node_got a' = node_got a @ [octet] \<Longrightarrow> echo_step R p q ((a, ab), (ba, b)) ((a', ab'), (medium_cycle ba, b))"

text \<open>The medium \<open>m\<close> carries what the first object puts out to the second.\<close>

definition carries :: "SimulatedMedium \<Rightarrow> 'h context_node \<Rightarrow> 'k context_node \<Rightarrow> bool" where
  "carries m n n' \<longleftrightarrow> medium_output m = node_got n' \<and> medium_output m @ under_way m = node_put n"

lemma line_in_medium: "mMedium (line_in p q draws octets m) = mMedium m"
proof -
  have "mMedium (fold medium_input xs m) = mMedium m" for xs
    by (induction xs arbitrary: m) (simp_all add: medium_input_def)
  then show ?thesis by (simp add: line_in_def)
qed

lemma line_in_nothing_lost:
  assumes "length draws = length octets" and "draws_ok draws"
  shows "medium_output (line_in 0 0 draws octets m) = medium_output m"
    "under_way (line_in 0 0 draws octets m) = under_way m @ octets"
proof -
  have "concat (map2 (garble 0 0) draws octets) = octets"
    using assms by (induction draws octets rule: list_induct2) (simp_all add: draws_ok_def garble_extremes(1))
  moreover have "medium_output (fold medium_input xs m) = medium_output m"
    "under_way (fold medium_input xs m) = under_way m @ xs" for xs
    by (induction xs arbitrary: m) (simp_all add: medium_input_def under_way_def)
  ultimately show "medium_output (line_in 0 0 draws octets m) = medium_output m"
    "under_way (line_in 0 0 draws octets m) = under_way m @ octets" by (simp_all add: line_in_def)
qed

lemma acts_carries:
  assumes "acts R 0 0 (n, m) (n', m')"
  shows "context_step R n n'" "carries m n k \<Longrightarrow> carries m' n' k" "prefix (node_put n) (node_put n')"
  using assms by (auto simp: carries_def line_in_nothing_lost elim: acts.cases)

lemma cycle_carries:
  assumes "carries m n k" and "node_got k' = node_got k @ xs" and "medium_output (medium_cycle m) = medium_output m @ xs"
  shows "carries (medium_cycle m) n k'" "prefix (node_got k') (node_put n)"
proof -
  have "medium_output (medium_cycle m) @ under_way (medium_cycle m) = node_put n"
    using medium_step_keeps(1) [of Medium_cycle m] conjunct2 [OF assms(1) [unfolded carries_def]]
    unfolding medium_step.simps put_in.simps append_Nil2 by (rule trans)
  with assms show "carries (medium_cycle m) n k'" "prefix (node_got k') (node_put n)"
    by (auto simp: carries_def intro: prefixI [OF sym])
qed

lemma carries_prefix: "carries m n k \<Longrightarrow> prefix (node_got k) (node_put n)"
  by (auto simp: carries_def intro: prefixI [OF sym])

lemma carries_got: "node_got k' = node_got k \<Longrightarrow> carries m n k' = carries m n k"
  by (simp add: carries_def)

text \<open>Without errors of the line, the test is two objects and a link.\<close>

abbreviation contexts_linked ::
  "('h, 'z) ringbuffer_scheme \<Rightarrow> 'h context_node \<times> 'h context_node \<Rightarrow> 'h context_node \<times> 'h context_node \<Rightarrow> bool" where
  "contexts_linked R \<equiv> linked (context_step R) node_got node_put (context_step R) node_got node_put"

lemma echo_step_linked:
  assumes "echo_step R 0 0 ((a, ab), (ba, b)) ((a', ab'), (ba', b'))"
    and "contexts_linked R z (a, b)" and "carries ab a b" and "carries ba b a"
  shows "contexts_linked R z (a', b') \<and> carries ab' a' b' \<and> carries ba' b' a'"
  using assms(1)
proof cases
  case alice_sends
  with acts_carries [of R a ab a' ab'] carries_prefix [OF assms(4)] assms(2-4) carries_got [of a' a] show ?thesis
    by (auto intro: linked.left)
next
  case bob_sends
  with acts_carries [of R b ba b' ba'] carries_prefix [OF assms(3)] assms(2-4) carries_got [of b' b] show ?thesis
    by (auto intro: linked.right)
next
  case to_bob_idle
  with cycle_carries [OF assms(3), of b "[]"] assms(2,4) show ?thesis by simp
next
  case to_alice_idle
  with cycle_carries [OF assms(4), of a "[]"] assms(2,3) show ?thesis by simp
next
  case (to_bob octet)
  with cycle_carries [OF assms(3) to_bob(5,3)] acts_carries [OF to_bob(4)] assms(2,4) show ?thesis
    by (auto intro: linked.right)
next
  case (to_alice octet)
  with cycle_carries [OF assms(4) to_alice(5,3)] acts_carries [OF to_alice(4)] assms(2,3) show ?thesis
    by (auto intro: linked.left)
qed

text \<open>
  The set-up of the echo test, with a garbler that never errs, keeps every message: Alice
  and Bob, connected, send messages whenever they like, each over a garbler and a medium of
  any delay and rate, and acknowledge or complain on the way back. At any moment each has
  received a beginning of what the other has sent, in order and once; and all of it once
  the medium in that direction is empty.
\<close>

theorem echo_in_order:
  assumes "context_opens R a0" and "context_opens R b0"
    and "in_step (mContext (node_object a0)) (mContext (node_object b0))"
    and "(echo_step R 0 0)\<^sup>*\<^sup>* ((a0, new_medium d baud), (new_medium d' baud', b0)) ((a, ab), (ba, b))"
    and "\<forall>bs \<in> set (node_posted a) \<union> set (node_posted b). length bs \<le> max_payload"
  shows "prefix (node_given b) (node_posted a) \<and> prefix (node_given a) (node_posted b)
    \<and> (under_way ab = [] \<longrightarrow> node_given b = node_posted a) \<and> (under_way ba = [] \<longrightarrow> node_given a = node_posted b)"
proof -
  have inv: "contexts_linked R (a0, b0) (a, b) \<and> carries ab a b \<and> carries ba b a" using assms(4)
  proof (induction "((a, ab), (ba, b))" arbitrary: a ab ba b rule: rtranclp_induct)
    case base
    then show ?case
      using context_connected(2) [OF assms(1)] context_connected(2) [OF assms(2)]
      by (simp add: carries_def new_medium_def under_way_def linked.start)
  next
    case (step y)
    obtain a1 ab1 ba1 b1 where y: "y = ((a1, ab1), (ba1, b1))" by (metis surj_pair)
    with step show ?case using echo_step_linked by blast
  qed
  have "rxs (node_view R b0) = txs (node_view R a0)" "rxs (node_view R a0) = txs (node_view R b0)"
    using assms(3) by (simp_all add: in_step_def node_view_def endpoint_simps)
  from contexts_link.delivered_in_order [OF assms(1,2) this conjunct1 [OF inv] assms(5)] show ?thesis
    using inv by (auto simp: carries_def)
qed

section \<open>An example\<close>

lemma call_acts:
  assumes ok: "context_ok R threadsafe (node_object n)" and call: "call_ok call" "call \<noteq> CallConnect"
  obtains n' m' where "acts R p q (n, m) (n', m')" "node_got n' = node_got n @ call_octets call"
    "node_posted n' = node_posted n @ call_packets call" "context_ok R threadsafe (node_object n')"
proof -
  obtain a fs ds where "on_call (abs_sfp R (mContext (node_object n))) call = (a, fs, ds)" by (metis prod_cases3)
  from contexts.step_ok [OF ok call(1) this] obtain C where C: "context_call R (node_object n) call = Inr C" by blast
  obtain fs where fs: "outputs (signals C) = outputs (signals (node_object n)) @ wire fs" "context_ok R threadsafe C"
    using context_call_step [OF ok call(1) C] .
  let ?n = "n\<lparr>node_object := C, node_got := node_got n @ call_octets call, node_posted := node_posted n @ call_packets call\<rparr>"
  have "context_step R n ?n"
  proof (cases call)
    case (CallOctet octet)
    with C context_step.inputs [of R n octet C] show ?thesis by simp
  next
    case (CallWrite stack bs)
    with C call(1) context_step.sends [of stack bs R n C] show ?thesis by simp
  qed (use call(2) in simp)
  moreover have "node_put ?n = node_put n @ wire fs" using fs(1) by (simp add: node_put_def)
  moreover have "draws_ok (replicate (length (wire fs)) (replicate 9 1))" by (simp add: draws_ok_def)
  ultimately have "acts R p q (n, m) (?n, line_in p q (replicate (length (wire fs)) (replicate 9 1)) (wire fs) m)"
    by (intro acts.act) simp_all
  with that fs(2) show ?thesis by simp
qed

text \<open>A medium without delay is emptied octet by octet.\<close>

lemma medium_drains:
  assumes "mMedium ab = []" and "context_ok R threadsafe (node_object b)"
  shows "\<exists>b' ba' ab'. (echo_step R p q)\<^sup>*\<^sup>* ((a, ab), (ba, b)) ((a, ab'), (ba', b'))
    \<and> under_way ab' = [] \<and> node_posted b' = node_posted b"
  using assms
proof (induction "mWriteQueue ab" arbitrary: ab ba b)
  case Nil
  then show ?case by (intro exI [of _ b] exI [of _ ba] exI [of _ ab]) (simp add: under_way_def)
next
  case (Cons octet octets)
  have cycle: "medium_output (medium_cycle ab) = medium_output ab @ [octet]" "mWriteQueue (medium_cycle ab) = octets"
    "mMedium (medium_cycle ab) = []" using Cons.hyps(2) Cons.prems(1) by (simp_all add: medium_cycle_def flip: Cons.hyps(2))
  obtain b1 ba1 where b1: "acts R p q (b, ba) (b1, ba1)" "node_got b1 = node_got b @ [octet]" "node_posted b1 = node_posted b"
    "context_ok R threadsafe (node_object b1)"
    using call_acts [OF Cons.prems(2), of "CallOctet octet" p q ba] by auto
  from echo_step.to_bob [OF cycle(1) b1(1,2)] have "echo_step R p q ((a, ab), (ba, b)) ((a, medium_cycle ab), (ba1, b1))" .
  with Cons.hyps(1) [OF cycle(2) [symmetric] cycle(3) b1(4), of ba1] b1(3) show ?case
    by (metis converse_rtranclp_into_rtranclp)
qed

definition example_node :: "SFPpacket list context_node" where
  "example_node = \<lparr>node_object = example_wrapper, node_got = [], node_posted = []\<rparr>"

lemma example_node_opens: "context_opens list_ringbuffer example_node" "in_step (mContext (node_object example_node)) (mContext (node_object example_node))"
  using example_wrapper_ok
  by (auto simp: context_opens_def example_node_def)
    (simp_all add: example_wrapper_def initialize_def setup_defs abs_receiver_def idle_def isConnected_def sfpIsConnected_def
      in_step_def example_object_def)

text \<open>Alice sends a message, and when the medium is empty Bob has received it.\<close>

theorem echo_in_order_witness:
  "\<exists>a ab ba b. (echo_step list_ringbuffer 0 0)\<^sup>*\<^sup>* ((example_node, new_medium 0 9600), (new_medium 0 9600, example_node)) ((a, ab), (ba, b))
     \<and> node_posted a = [[1, 2]] \<and> node_given b = [[1, 2]]"
proof -
  have ok: "context_ok list_ringbuffer True (node_object example_node)" using example_wrapper_ok by (simp add: example_node_def)
  let ?call = "CallWrite (replicate SFP_CONFIG_MAX_PACKET_SIZE 0) [1, 2]" and ?m = "new_medium 0 9600"
  have call: "call_ok ?call" "?call \<noteq> CallConnect" by (simp_all add: sfp_consts)
  have none: "node_posted example_node = []" by (simp add: example_node_def)
  obtain a ab where a: "acts list_ringbuffer 0 0 (example_node, ?m) (a, ab)" "node_got a = node_got example_node"
    "node_posted a = [[1, 2]]"
    by (rule call_acts [OF ok call, of 0 0 ?m]) (simp only: none call_octets.simps call_packets.simps append_Nil append_Nil2)
  have "mMedium ?m = []" by (simp add: new_medium_def calculateCapacity_def)
  with a(1) have "mMedium ab = []"
    by (auto elim!: acts.cases simp: line_in_medium)
  from medium_drains [OF this ok, of 0 0 a ?m] obtain b ba ab' where
    b: "(echo_step list_ringbuffer 0 0)\<^sup>*\<^sup>* ((a, ab), (?m, example_node)) ((a, ab'), (ba, b))" "under_way ab' = []"
    "node_posted b = []" unfolding none by blast
  note run = converse_rtranclp_into_rtranclp [of "echo_step list_ringbuffer 0 0", OF echo_step.alice_sends [OF a(1,2)] b(1)]
  have "\<forall>bs \<in> set (node_posted a) \<union> set (node_posted b). length bs \<le> max_payload"
    using a(3) b(3) by (simp add: max_payload_def sfp_consts)
  from echo_in_order [OF example_node_opens(1,1,2) run this] a(3) b(2) have "node_given b = [[1, 2]]" by simp
  with run a(3) show ?thesis by blast
qed

end
