(* ===== verification/Sfp_Loopback.thy ===== *)
theory Sfp_Loopback
  imports Sfp_Echo Sfp_Handlers
begin

text \<open>
  The echo test, \<^verbatim>\<open>src/tests/sfp-echo.cpp\<close>: an object whose signal \<^verbatim>\<open>messageReceived\<close> is
  connected to its own slot \<^verbatim>\<open>sendMessage\<close>, so that the library is called from within a
  call of the library; and the program that sends messages and compares what comes back.
\<close>

section \<open>An object connected to itself\<close>

text \<open>
  \<^verbatim>\<open>input\<close> of such an object: the call of \<^verbatim>\<open>staticDeliver\<close> emits \<^verbatim>\<open>messageReceived\<close>, which
  calls \<^verbatim>\<open>sendMessage\<close>. \<open>stack\<close> is the memory of the packet that is sent.
\<close>

definition loopback :: "('h, 'z) ringbuffer_scheme \<Rightarrow> u8 list \<Rightarrow> 'h sfp \<Rightarrow> 'h sfp res" where
  "loopback R stack = sender R (\<lambda>bs. [CallWrite stack bs])"

definition looped_input :: "('h, 'z) ringbuffer_scheme \<Rightarrow> u8 list \<Rightarrow> 'h Context \<Rightarrow> u8 \<Rightarrow> 'h Context res" where
  "looped_input R stack C octet = in_library (\<lambda>c. deliver_octet_with R Inr (loopback R stack) c octet) C"

text \<open>The static functions do not look at the library's context.\<close>

lemma static_context: "call_static (C\<lparr>mContext := c\<rparr>) ev = mapR (\<lambda>C. C\<lparr>mContext := c\<rparr>) (call_static C ev)"
  by (cases ev) (simp_all add: staticWrite_eq staticDeliver_def staticLock_def staticUnlock_def)

lemma statics_context:
  "foldR call_static es (C\<lparr>mContext := c\<rparr>) = mapR (\<lambda>C. C\<lparr>mContext := c\<rparr>) (foldR call_static es C)"
  by (rule foldR_mapR) (rule static_context)

text \<open>Two calls of the library in one are two calls of it.\<close>

lemma in_library_seq:
  assumes "in_library f C = Inr C1" and "f (mContext C) = Inr c1" and "trace c1 = trace (mContext C) @ es"
    and "g c1 = Inr c2" and "trace c2 = trace c1 @ es'"
  shows "in_library (\<lambda>c. bindR (f c) g) C = in_library g C1"
proof -
  have "mapR (\<lambda>C. C\<lparr>mContext := c1\<rparr>) (foldR call_static es C) = Inr C1"
    using assms(1) by (simp add: in_library_def assms(2,3) statics_context)
  then obtain D where D: "foldR call_static es C = Inr D" "C1 = D\<lparr>mContext := c1\<rparr>"
    by (cases "foldR call_static es C") auto
  have "in_library g C1 = foldR call_static es' (D\<lparr>mContext := c2\<rparr>)"
    by (simp add: in_library_def D(2) assms(4,5))
  moreover have "in_library (\<lambda>c. bindR (f c) g) C = foldR call_static (es @ es') (C\<lparr>mContext := c2\<rparr>)"
    by (simp add: in_library_def assms(2-5))
  ultimately show ?thesis by (simp add: foldR_append statics_context D(1))
qed

lemma in_library_call: "context_call R C call = in_library (\<lambda>c. run_call R c call) C"
  by (cases call) (simp_all add: context_connect_def sendMessage_def context_input_def)

text \<open>A call of an object in order, with the call of the library that it makes.\<close>

lemma context_call_ok:
  assumes "context_ok R threadsafe C" and "call_ok call" and "on_call (abs_sfp R (mContext C)) call = (a, fs, ds)"
  obtains C' es where "context_call R C call = Inr C'" "context_ok R threadsafe C'" "context_shows C C' fs ds"
    "abs_sfp R (mContext C') = a" "run_call R (mContext C) call = Inr (mContext C')" "trace (mContext C') = trace (mContext C) @ es"
    "deliveries es = ds" "\<forall>ev \<in> set es. own_call (mContext C) ev"
proof -
  have inv: "sfp_inv R (mContext C)" and cb: "deliver (rx (mContext C)) \<noteq> None"
    using assms(1) by (auto simp: context_ok_def callbacks_def context_callbacks_def split: if_splits)
  obtain c' where c': "run_call R (mContext C) call = Inr c'" "sfp_inv R c'" "abs_sfp R c' = a"
    "reacts R (mContext C) c' (abs_endpoint R c') fs ds" using calls.step_ok [OF inv assms(2,3)] by blast
  obtain C' where "context_call R C call = Inr C'" "context_ok R threadsafe C'" "mContext C' = c'" "context_shows C C' fs ds"
    using in_library_ok [of R threadsafe C "\<lambda>c. run_call R c call" c' fs ds] assms(1) c'(1,2,4) in_library_call [of R C call] by auto
  with that [of C'] c' cb reacts_trace [OF c'(4)] show thesis by auto
qed

lemma sends_in_library:
  assumes "context_ok R threadsafe C" and "length stack = SFP_CONFIG_MAX_PACKET_SIZE"
    and "\<forall>bs \<in> set bss. length bs \<le> SFP_CONFIG_MAX_PACKET_SIZE"
  shows "in_library (\<lambda>c. run_calls R c (map (CallWrite stack) bss)) C = foldR (\<lambda>C bs. sendMessage R C stack bs) bss C"
  using assms(1,3)
proof (induction bss arbitrary: C)
  case Nil
  then show ?case by (simp add: in_library_def run_calls_def)
next
  case (Cons bs bss)
  have ok: "call_ok (CallWrite stack bs)" "\<forall>call \<in> set (map (CallWrite stack) bss). call_ok call"
    using Cons.prems(2) assms(2) by auto
  obtain a fs ds where "on_call (abs_sfp R (mContext C)) (CallWrite stack bs) = (a, fs, ds)" by (metis prod_cases3)
  then obtain C1 es where C1: "context_call R C (CallWrite stack bs) = Inr C1" "context_ok R threadsafe C1"
    "run_call R (mContext C) (CallWrite stack bs) = Inr (mContext C1)" "trace (mContext C1) = trace (mContext C) @ es"
    by (rule context_call_ok [OF Cons.prems(1) ok(1)])
  obtain a' fs' ds' where r: "run_spec on_call (abs_sfp R (mContext C1)) (map (CallWrite stack) bss) = (a', fs', ds')"
    by (metis prod_cases3)
  have "sfp_inv R (mContext C1)" using C1(2) by (simp add: context_ok_def)
  from run_calls_refines [OF this ok(2) r] obtain c2 es' where
    c2: "run_calls R (mContext C1) (map (CallWrite stack) bss) = Inr c2" "trace c2 = trace (mContext C1) @ es'"
    using reacts_trace by metis
  have "in_library (\<lambda>c. bindR (run_call R c (CallWrite stack bs)) (\<lambda>c. run_calls R c (map (CallWrite stack) bss))) C
      = in_library (\<lambda>c. run_calls R c (map (CallWrite stack) bss)) C1"
    by (rule in_library_seq [where f = "\<lambda>c. run_call R c (CallWrite stack bs)" and g = "\<lambda>c. run_calls R c (map (CallWrite stack) bss)",
          OF C1(1) [unfolded in_library_call] C1(3,4) c2])
  also have "\<dots> = foldR (\<lambda>C bs. sendMessage R C stack bs) bss C1"
    using Cons.IH [OF C1(2)] Cons.prems(2) by simp
  finally show ?case using C1(1) by (simp add: run_calls_def)
qed

text \<open>
  The object connected to itself does what it would do if it were given the octet and then, when
  that call has returned, sent back what it has received.
\<close>

lemma looped_input_eq:
  assumes "context_ok R threadsafe C" and "length stack = SFP_CONFIG_MAX_PACKET_SIZE"
  shows "\<exists>C'. context_input R C octet = Inr C' \<and> context_ok R threadsafe C'
    \<and> (\<forall>bs \<in> set (messages (emitted C C')). length bs \<le> SFP_CONFIG_MAX_PACKET_SIZE)
    \<and> looped_input R stack C octet = foldR (\<lambda>C bs. sendMessage R C stack bs) (messages (emitted C C')) C'"
proof -
  have inv: "sfp_inv R (mContext C)" using assms(1) by (simp add: context_ok_def)
  have ok: "call_ok (CallOctet octet)" by simp
  obtain a fs ds where "on_call (abs_sfp R (mContext C)) (CallOctet octet) = (a, fs, ds)" by (metis prod_cases3)
  then obtain C' es where C': "context_call R C (CallOctet octet) = Inr C'" "context_ok R threadsafe C'" "context_shows C C' fs ds"
    "run_call R (mContext C) (CallOctet octet) = Inr (mContext C')" "trace (mContext C') = trace (mContext C) @ es"
    "deliveries es = ds" "\<forall>ev \<in> set es. own_call (mContext C) ev"
    by (rule context_call_ok [OF assms(1) ok])
  have ds: "messages (emitted C C') = ds" "delivered (mContext C) (mContext C') = ds"
    using shows_emitted [OF C'(3)] C'(5,6) by (simp_all add: delivered_def)
  have fits: "\<forall>bs \<in> set ds. length bs \<le> SFP_CONFIG_MAX_PACKET_SIZE"
  proof
    fix bs assume "bs \<in> set ds"
    then obtain ev where "ev \<in> set es" "bs \<in> set (event_deliveries ev)"
      unfolding C'(6) [symmetric] deliveries_def by auto
    with C'(7) show "length bs \<le> SFP_CONFIG_MAX_PACKET_SIZE" by (cases ev) force+
  qed
  let ?calls = "map (CallWrite stack) ds"
  have "\<forall>call \<in> set ?calls. call_ok call" using fits assms(2) by auto
  moreover obtain a' fs' ds' where r: "run_spec on_call (abs_sfp R (mContext C')) ?calls = (a', fs', ds')" by (metis prod_cases3)
  moreover have "sfp_inv R (mContext C')" using C'(2) by (simp add: context_ok_def)
  ultimately obtain c2 es' where
    c2: "run_calls R (mContext C') ?calls = Inr c2" "trace c2 = trace (mContext C') @ es'"
    using run_calls_refines reacts_trace by metis
  let ?f = "\<lambda>c. run_call R c (CallOctet octet)"
  have "deliver_octet_with R Inr (loopback R stack) (mContext C) octet = run_calls R (mContext C') ?calls"
    using sending_handler_sequential [OF inv, of "\<lambda>bs. [CallWrite stack bs]" octet] C'(4) ds(2)
    by (simp add: loopback_def concat_map_singleton)
  then have "deliver_octet_with R Inr (loopback R stack) (mContext C) octet = bindR (?f (mContext C)) (\<lambda>c. run_calls R c ?calls)"
    using C'(4) by simp
  then have "looped_input R stack C octet = in_library (\<lambda>c. bindR (?f c) (\<lambda>c. run_calls R c ?calls)) C"
    unfolding looped_input_def in_library_def by simp
  also have "\<dots> = in_library (\<lambda>c. run_calls R c ?calls) C'"
    by (rule in_library_seq [where f = ?f and g = "\<lambda>c. run_calls R c ?calls", OF C'(1) [unfolded in_library_call] C'(4,5) c2])
  also have "\<dots> = foldR (\<lambda>C bs. sendMessage R C stack bs) ds C'"
    using sends_in_library [OF C'(2) assms(2)] fits by simp
  finally show ?thesis using C'(1,2) ds(1) fits by simp
qed

end
