(* ===== verification/Sfp_EchoTest.thy ===== *)
theory Sfp_EchoTest
  imports Sfp_Loopback
begin

text \<open>
  The main program of \<^verbatim>\<open>src/tests/sfp-echo.cpp\<close>: Alice connects to Bob, sends messages and
  compares what comes back with what she has sent; Bob is connected to himself. Each of
  them speaks through a garbler and a simulated medium.
\<close>

section \<open>The program\<close>

text \<open>
  The objects and variables of \<^verbatim>\<open>main\<close>: \<open>test_failed\<close> says that \<^verbatim>\<open>testResult\<close> is \<^verbatim>\<open>FAILED\<close>, which
  ends the program.
\<close>

record 'h echo_test =
  alice :: "'h context_node"
  aliceToBob :: SimulatedMedium
  bobToAlice :: SimulatedMedium
  bob :: "'h context_node"
  sentMessages :: "u8 list list"
  test_failed :: bool

text \<open>The front of an empty queue is undefined.\<close>

definition aliceMessageHandler :: "u8 list list \<times> bool \<Rightarrow> u8 list \<Rightarrow> (u8 list list \<times> bool) res" where
  "aliceMessageHandler = (\<lambda>(sent, failed) bs.
     if bs = [] then Inr (sent, failed)
     else (case sent of
             [] \<Rightarrow> Inl OutOfBounds
           | front # rest \<Rightarrow>
               if length bs = length front \<and> bs = front then Inr (rest, failed) else Inr (sent, True)))"

text \<open>An object hears an octet; Bob sends back what he receives.\<close>

definition alice_hears :: "('h, 'z) ringbuffer_scheme \<Rightarrow> 'h context_node \<Rightarrow> u8 \<Rightarrow> 'h context_node res" where
  "alice_hears R n octet = bindR (context_input R (node_object n) octet)
     (\<lambda>C. Inr (n\<lparr>node_object := C, node_got := node_got n @ [octet]\<rparr>))"

definition bob_hears :: "('h, 'z) ringbuffer_scheme \<Rightarrow> u8 list \<Rightarrow> 'h context_node \<Rightarrow> u8 \<Rightarrow> 'h context_node res" where
  "bob_hears R stack n octet = bindR (looped_input R stack (node_object n) octet)
     (\<lambda>C. Inr (n\<lparr>node_object := C, node_got := node_got n @ [octet],
                 node_posted := node_posted n @ messages (emitted (node_object n) C)\<rparr>))"

text \<open>
  What an object has put out goes through its garbler into the medium; \<open>draws i\<close> are the
  random numbers for the \<open>i\<close>-th octet.
\<close>

definition put_out ::
  "rat \<Rightarrow> rat \<Rightarrow> (nat \<Rightarrow> rat list) \<Rightarrow> 'h context_node \<Rightarrow> 'h context_node \<Rightarrow> SimulatedMedium \<Rightarrow> SimulatedMedium" where
  "put_out p q draws n n' m =
     (let octets = drop (length (node_put n)) (node_put n')
      in line_in p q (map draws [0..<length octets]) octets m)"

text \<open>
  What can happen: Alice sends a message (the memory of her packet is \<open>stack\<close>), the program
  keeps a line alive, a medium goes through its cycle, and what leaves it is heard.
\<close>

datatype test_event = Connect | Send "u8 list" "u8 list" | Alice_beats | Bob_beats | To_bob "u8 list" | To_alice

definition cycle_output :: "SimulatedMedium \<Rightarrow> u8 list" where
  "cycle_output m = drop (length (medium_output m)) (medium_output (medium_cycle m))"

fun test_step ::
  "('h, 'z) ringbuffer_scheme \<Rightarrow> rat \<Rightarrow> rat \<Rightarrow> 'h echo_test \<Rightarrow> (nat \<Rightarrow> rat list) \<times> test_event \<Rightarrow> 'h echo_test res" where
  "test_step R p q t (draws, ev) =
     (if test_failed t then Inr t else
      case ev of
        Connect \<Rightarrow>
          bindR (context_connect R (node_object (alice t)))
            (\<lambda>C. let a = (alice t)\<lparr>node_object := C\<rparr>
                  in Inr (t\<lparr>alice := a, aliceToBob := put_out p q draws (alice t) a (aliceToBob t)\<rparr>))
      | Send stack m \<Rightarrow>
          bindR (sendMessage R (node_object (alice t)) stack m)
            (\<lambda>C. let a = (alice t)\<lparr>node_object := C, node_posted := node_posted (alice t) @ [m]\<rparr>
                  in Inr (t\<lparr>alice := a, aliceToBob := put_out p q draws (alice t) a (aliceToBob t),
                            sentMessages := sentMessages t @ [m]\<rparr>))
      | Alice_beats \<Rightarrow>
          (let a = (alice t)\<lparr>node_object := heartbeat (node_object (alice t))\<rparr>
           in Inr (t\<lparr>alice := a, aliceToBob := put_out p q draws (alice t) a (aliceToBob t)\<rparr>))
      | Bob_beats \<Rightarrow>
          (let b = (bob t)\<lparr>node_object := heartbeat (node_object (bob t))\<rparr>
           in Inr (t\<lparr>bob := b, bobToAlice := put_out p q draws (bob t) b (bobToAlice t)\<rparr>))
      | To_bob stack \<Rightarrow>
          bindR (foldR (bob_hears R stack) (cycle_output (aliceToBob t)) (bob t))
            (\<lambda>b. Inr (t\<lparr>aliceToBob := medium_cycle (aliceToBob t), bob := b,
                        bobToAlice := put_out p q draws (bob t) b (bobToAlice t)\<rparr>))
      | To_alice \<Rightarrow>
          bindR (foldR (alice_hears R) (cycle_output (bobToAlice t)) (alice t))
            (\<lambda>a. bindR (foldR aliceMessageHandler (messages (emitted (node_object (alice t)) (node_object a)))
                          (sentMessages t, test_failed t))
            (\<lambda>(sent, failed). Inr (t\<lparr>bobToAlice := medium_cycle (bobToAlice t), alice := a,
                aliceToBob := put_out p q draws (alice t) a (aliceToBob t), sentMessages := sent, test_failed := failed\<rparr>))))"

declare test_step.simps [simp del]

definition run_test ::
  "('h, 'z) ringbuffer_scheme \<Rightarrow> rat \<Rightarrow> rat \<Rightarrow> 'h echo_test \<Rightarrow> ((nat \<Rightarrow> rat list) \<times> test_event) list \<Rightarrow> 'h echo_test res" where
  "run_test R p q t evs = foldR (test_step R p q) evs t"

text \<open>The messages of the test have ten octets.\<close>

fun event_ok :: "(nat \<Rightarrow> rat list) \<times> test_event \<Rightarrow> bool" where
  "event_ok (draws, ev) \<longleftrightarrow> (\<forall>i. length (draws i) = 9 \<and> (\<forall>r \<in> set (draws i). 0 \<le> r \<and> r \<le> 1))
     \<and> (case ev of
          Connect \<Rightarrow> False
        | Send stack m \<Rightarrow> length stack = SFP_CONFIG_MAX_PACKET_SIZE \<and> length m = 10
        | To_bob stack \<Rightarrow> length stack = SFP_CONFIG_MAX_PACKET_SIZE
        | _ \<Rightarrow> True)"

section \<open>What the parts do\<close>

lemma put_out_lossless:
  assumes "\<forall>i. length (draws i) = 9 \<and> (\<forall>r \<in> set (draws i). 0 \<le> r \<and> r \<le> 1)"
  shows "medium_output (put_out 0 0 draws n n' m) = medium_output m"
    "under_way (put_out 0 0 draws n n' m) = under_way m @ drop (length (node_put n)) (node_put n')"
    "mMedium (put_out 0 0 draws n n' m) = mMedium m"
  using assms by (auto simp: put_out_def Let_def line_in_nothing_lost line_in_medium draws_ok_def)

lemma put_out_carries:
  assumes "\<forall>i. length (draws i) = 9 \<and> (\<forall>r \<in> set (draws i). 0 \<le> r \<and> r \<le> 1)"
    and "prefix (node_put n) (node_put n')"
  shows "carries (put_out 0 0 draws n n' m) n' k \<longleftrightarrow> carries m n k"
  using assms(2) put_out_lossless [OF assms(1), of n n' m] by (auto simp: carries_def prefix_def)

lemma cycle_output: "medium_output (medium_cycle m) = medium_output m @ cycle_output m" "length (cycle_output m) \<le> 1"
  by (cases "mMedium m"; cases "mWriteQueue m"; simp add: cycle_output_def medium_cycle_def split: option.split)+

lemma cycle_output_cases:
  obtains (idle) "cycle_output m = []" | (octet) octet where "cycle_output m = [octet]"
  using cycle_output(2) [of m] by (cases "cycle_output m") auto

text \<open>Messages sent one after the other, as steps of the object.\<close>

lemma sends_steps:
  assumes "context_ok R threadsafe (node_object n)" and "length stack = SFP_CONFIG_MAX_PACKET_SIZE"
    and "\<forall>bs \<in> set bss. length bs \<le> SFP_CONFIG_MAX_PACKET_SIZE"
  shows "\<exists>C. foldR (\<lambda>C bs. sendMessage R C stack bs) bss (node_object n) = Inr C \<and> context_ok R threadsafe C
    \<and> (\<exists>ss. signals C = signals (node_object n) @ ss \<and> messages ss = [])
    \<and> (\<lambda>n n'. context_step R n n' \<and> node_got n' = node_got n)\<^sup>*\<^sup>* n (n\<lparr>node_object := C, node_posted := node_posted n @ bss\<rparr>)"
  using assms(1,3)
proof (induction bss arbitrary: n)
  case Nil
  then show ?case by simp
next
  case (Cons bs bss)
  have call: "call_ok (CallWrite stack bs)" using Cons.prems(2) assms(2) by simp
  obtain a fs ds where spec: "on_call (abs_sfp R (mContext (node_object n))) (CallWrite stack bs) = (a, fs, ds)" by (metis prod_cases3)
  then obtain C where C: "sendMessage R (node_object n) stack bs = Inr C" "context_ok R threadsafe C" "context_shows (node_object n) C fs ds"
    using contexts.step_ok [OF Cons.prems(1) call spec] by auto
  have "ds = []" using spec by (simp add: abs_sfp_def on_send_def)
  let ?n = "n\<lparr>node_object := C, node_posted := node_posted n @ [bs]\<rparr>"
  have step: "context_step R n ?n"
    using Cons.prems(2) by (intro context_step.sends [OF assms(2) _ C(1)]) simp
  have ok: "context_ok R threadsafe (node_object ?n)" "\<forall>bs \<in> set bss. length bs \<le> SFP_CONFIG_MAX_PACKET_SIZE"
    using C(2) Cons.prems(2) by simp_all
  from Cons.IH [OF this] obtain C' ss where C': "foldR (\<lambda>C bs. sendMessage R C stack bs) bss C = Inr C'" "context_ok R threadsafe C'"
    "signals C' = signals C @ ss" "messages ss = []"
    "(\<lambda>n n'. context_step R n n' \<and> node_got n' = node_got n)\<^sup>*\<^sup>* ?n (n\<lparr>node_object := C', node_posted := node_posted n @ bs # bss\<rparr>)"
    by auto
  have "(\<lambda>n n'. context_step R n n' \<and> node_got n' = node_got n)\<^sup>*\<^sup>* n (n\<lparr>node_object := C', node_posted := node_posted n @ bs # bss\<rparr>)"
    using step by (intro converse_rtranclp_into_rtranclp [OF _ C'(5)]) simp
  then show ?case
    using C(1,3) C'(1-4) \<open>ds = []\<close> by (auto simp: context_shows_def)
qed

section \<open>The invariant of the test\<close>

text \<open>The beginning: both are connected and nothing is under way.\<close>

definition test_opens :: "('h, 'z) ringbuffer_scheme \<Rightarrow> 'h echo_test \<Rightarrow> bool" where
  "test_opens R t \<longleftrightarrow> context_opens R (alice t) \<and> context_opens R (bob t)
     \<and> in_step (mContext (node_object (alice t))) (mContext (node_object (bob t)))
     \<and> medium_output (aliceToBob t) = [] \<and> under_way (aliceToBob t) = []
     \<and> medium_output (bobToAlice t) = [] \<and> under_way (bobToAlice t) = []
     \<and> sentMessages t = [] \<and> \<not> test_failed t"

definition objects_linked :: "('h, 'z) ringbuffer_scheme \<Rightarrow> 'h echo_test \<Rightarrow> 'h context_node \<Rightarrow> 'h context_node \<Rightarrow> bool" where
  "objects_linked R t0 a b \<longleftrightarrow> contexts_linked R (alice t0, bob t0) (a, b)
     \<and> set (node_posted b) \<subseteq> set (node_posted a) \<and> (\<forall>m \<in> set (node_posted a). length m = 10)"

text \<open>Every message that Alice has sent has come back or is waited for; Bob has sent all that he has received.\<close>

definition test_inv :: "('h, 'z) ringbuffer_scheme \<Rightarrow> 'h echo_test \<Rightarrow> 'h echo_test \<Rightarrow> bool" where
  "test_inv R t0 t \<longleftrightarrow> objects_linked R t0 (alice t) (bob t)
     \<and> carries (aliceToBob t) (alice t) (bob t) \<and> carries (bobToAlice t) (bob t) (alice t)
     \<and> node_posted (bob t) = node_given (bob t) \<and> node_posted (alice t) = node_given (alice t) @ sentMessages t
     \<and> \<not> test_failed t"

lemma objects_order:
  assumes "test_opens R t0" and "objects_linked R t0 a b"
  shows "prefix (node_given b) (node_posted a)" "prefix (node_given a) (node_posted b)"
    "node_got b = node_put a \<Longrightarrow> node_given b = node_posted a" "node_got a = node_put b \<Longrightarrow> node_given a = node_posted b"
proof -
  have fits: "\<forall>bs \<in> set (node_posted a) \<union> set (node_posted b). length bs \<le> max_payload"
    using assms(2) by (auto simp: objects_linked_def max_payload_def sfp_consts)
  have "rxs (node_view R (bob t0)) = txs (node_view R (alice t0))" "rxs (node_view R (alice t0)) = txs (node_view R (bob t0))"
    using assms(1) by (simp_all add: test_opens_def in_step_def node_view_def endpoint_simps)
  from contexts_link.delivered_in_order [OF _ _ this _ fits] assms
  show "prefix (node_given b) (node_posted a)" "prefix (node_given a) (node_posted b)"
    "node_got b = node_put a \<Longrightarrow> node_given b = node_posted a" "node_got a = node_put b \<Longrightarrow> node_given a = node_posted b"
    by (simp_all add: test_opens_def objects_linked_def)
qed

lemma objects_ok:
  assumes "test_opens R t0" and "objects_linked R t0 a b"
  obtains threadsafe threadsafe' where "context_ok R threadsafe (node_object a)" "context_ok R threadsafe' (node_object b)"
proof -
  have "context_opens R (alice t0)" "context_opens R (bob t0)" "contexts_linked R (alice t0, bob t0) (a, b)"
    using assms by (simp_all add: test_opens_def objects_linked_def)
  with context_explained [OF _ contexts_link.l_reach] context_explained [OF _ contexts_link.r_reach] that show ?thesis by metis
qed

lemma given_emitted:
  assumes "context_shows (node_object n) C fs ds"
  shows "node_given (n\<lparr>node_object := C, node_got := xs, node_posted := ms\<rparr>) = node_given n @ ds"
    "node_put (n\<lparr>node_object := C, node_got := xs, node_posted := ms\<rparr>) = node_put n @ wire fs"
  using assms by (auto simp: context_shows_def node_given_def node_put_def)

text \<open>Bob hears the next octet that Alice has put out.\<close>

lemma bob_hears_ok:
  assumes "test_opens R t0" and linked: "objects_linked R t0 a b" and "prefix (node_got b @ [octet]) (node_put a)"
    and posted: "node_posted b = node_given b" and "length stack = SFP_CONFIG_MAX_PACKET_SIZE"
  shows "\<exists>b'. bob_hears R stack b octet = Inr b' \<and> objects_linked R t0 a b' \<and> node_got b' = node_got b @ [octet]
    \<and> node_posted b' = node_given b' \<and> prefix (node_put b) (node_put b')"
proof -
  obtain threadsafe where ok: "context_ok R threadsafe (node_object b)" using objects_ok [OF assms(1) linked] .
  obtain C where C: "context_input R (node_object b) octet = Inr C" "context_ok R threadsafe C"
    "\<forall>bs \<in> set (messages (emitted (node_object b) C)). length bs \<le> SFP_CONFIG_MAX_PACKET_SIZE"
    "looped_input R stack (node_object b) octet
      = foldR (\<lambda>C bs. sendMessage R C stack bs) (messages (emitted (node_object b) C)) C"
    using looped_input_eq [OF ok assms(5)] by blast
  obtain s fs ds where "on_call (abs_sfp R (mContext (node_object b))) (CallOctet octet) = (s, fs, ds)" by (metis prod_cases3)
  from contexts.step_ok [OF ok _ this] C(1) have shows_b: "context_shows (node_object b) C fs ds" by auto
  let ?b = "b\<lparr>node_object := C, node_got := node_got b @ [octet]\<rparr>"
  have b1: "node_given ?b = node_given b @ ds" "node_put ?b = node_put b @ wire fs" "messages (emitted (node_object b) C) = ds"
    using given_emitted [OF shows_b, where xs = "node_got b @ [octet]" and ms = "node_posted b"] shows_emitted [OF shows_b] by simp_all
  have link1: "contexts_linked R (alice t0, bob t0) (a, ?b)"
    using linked assms(3) by (auto simp: objects_linked_def intro: linked.right context_step.inputs [OF C(1)])
  with linked have objects1: "objects_linked R t0 a ?b" by (simp add: objects_linked_def)
  have "\<forall>m \<in> set (node_given b @ ds). m \<in> set (node_posted a)"
    using set_mono_prefix [OF objects_order(1) [OF assms(1) objects1]] b1(1) by auto
  obtain C' ss where C': "foldR (\<lambda>C bs. sendMessage R C stack bs) ds C = Inr C'" "signals C' = signals C @ ss" "messages ss = []"
    "(\<lambda>n n'. context_step R n n' \<and> node_got n' = node_got n)\<^sup>*\<^sup>* ?b (?b\<lparr>node_object := C', node_posted := node_posted b @ ds\<rparr>)"
    using sends_steps [of R threadsafe ?b stack ds] C(2,3) assms(5) b1(3) by auto
  let ?b' = "b\<lparr>node_object := C', node_got := node_got b @ [octet], node_posted := node_posted b @ ds\<rparr>"
  have "(\<lambda>n n'. context_step R n n' \<and> node_got n' = node_got n)\<^sup>*\<^sup>* ?b ?b'" using C'(4) by (cases b) simp
  then have "(\<lambda>n n'. context_step R n n' \<and> prefix (node_got n') (node_put a))\<^sup>*\<^sup>* ?b ?b' \<and> node_got ?b' = node_got ?b"
    by (induction rule: rtranclp_induct) (use assms(3) in \<open>auto intro: rtranclp.rtrancl_into_rtrancl\<close>)
  then have "contexts_linked R (alice t0, bob t0) (a, ?b')" using right_alone [OF _ link1] by blast
  then have "objects_linked R t0 a ?b'"
    using linked \<open>\<forall>m \<in> set (node_given b @ ds). m \<in> set (node_posted a)\<close> by (auto simp: objects_linked_def)
  moreover have "node_given ?b' = node_given b @ ds" using b1(1) C'(2,3) by (simp add: node_given_def)
  moreover have "prefix (node_put b) (node_put ?b')"
    using b1(2) C'(2) by (simp add: node_put_def)
  moreover have "messages (emitted (node_object b) C') = ds"
    using shows_b C'(2,3) by (auto simp: context_shows_def emitted_def)
  ultimately show ?thesis using C(4) C'(1) b1(3) posted by (simp add: bob_hears_def)
qed

text \<open>Alice hears the next octet that Bob has put out: what she receives is what she waits for.\<close>

lemma handler_matches:
  "\<forall>bs \<in> set bss. bs \<noteq> [] \<Longrightarrow> foldR aliceMessageHandler bss (bss @ sent, False) = Inr (sent, False)"
  by (induction bss) (simp_all add: aliceMessageHandler_def)

lemma alice_hears_ok:
  assumes "test_opens R t0" and linked: "objects_linked R t0 a b" and "prefix (node_got a @ [octet]) (node_put b)"
    and posted: "node_posted b = node_given b" "node_posted a = node_given a @ sent"
  shows "\<exists>a' sent'. alice_hears R a octet = Inr a' \<and> objects_linked R t0 a' b \<and> node_got a' = node_got a @ [octet]
    \<and> node_posted a' = node_posted a \<and> node_posted a' = node_given a' @ sent' \<and> prefix (node_put a) (node_put a')
    \<and> foldR aliceMessageHandler (messages (emitted (node_object a) (node_object a'))) (sent, False) = Inr (sent', False)"
proof -
  obtain threadsafe where ok: "context_ok R threadsafe (node_object a)" using objects_ok [OF assms(1) linked] .
  obtain s fs ds where "on_call (abs_sfp R (mContext (node_object a))) (CallOctet octet) = (s, fs, ds)" by (metis prod_cases3)
  from contexts.step_ok [OF ok _ this] obtain C where
    C: "context_input R (node_object a) octet = Inr C" "context_shows (node_object a) C fs ds" by auto
  let ?a = "a\<lparr>node_object := C, node_got := node_got a @ [octet]\<rparr>"
  have a1: "node_given ?a = node_given a @ ds" "node_put ?a = node_put a @ wire fs" "messages (emitted (node_object a) C) = ds"
    using given_emitted [OF C(2), where xs = "node_got a @ [octet]" and ms = "node_posted a"] shows_emitted [OF C(2)] by simp_all
  have objects: "objects_linked R t0 ?a b"
    using linked assms(3) by (auto simp: objects_linked_def intro: linked.left context_step.inputs [OF C(1)])
  have "prefix (node_given a @ ds) (node_given b)" "prefix (node_given b) (node_given a @ sent)"
    using objects_order(2) [OF assms(1) objects] objects_order(1) [OF assms(1) linked] posted a1(1) by simp_all
  then have "prefix (node_given a @ ds) (node_given a @ sent)" by (rule prefix_order.trans)
  then obtain sent' where sent': "sent = ds @ sent'" by (auto elim: prefixE)
  have "\<forall>m \<in> set ds. length m = 10" using linked posted(2) sent' by (auto simp: objects_linked_def)
  then have "\<forall>m \<in> set ds. m \<noteq> []" by auto
  from handler_matches [OF this, of sent'] show ?thesis
    using C(1) objects a1 posted(2) sent' by (intro exI [of _ ?a] exI [of _ sent']) (simp add: alice_hears_def)
qed

section \<open>One event\<close>

lemma alice_acts_ok:
  assumes "test_inv R t0 t" and "event_ok (draws, ev)" and "context_step R (alice t) a" and "node_got a = node_got (alice t)"
    and "prefix (node_put (alice t)) (node_put a)" and "node_posted a = node_posted (alice t) @ ms" and "\<forall>m \<in> set ms. length m = 10"
    and "node_given a = node_given (alice t)"
  shows "test_inv R t0 (t\<lparr>alice := a, aliceToBob := put_out 0 0 draws (alice t) a (aliceToBob t), sentMessages := sentMessages t @ ms\<rparr>)"
proof -
  have inv: "objects_linked R t0 (alice t) (bob t)" "carries (aliceToBob t) (alice t) (bob t)"
    "carries (bobToAlice t) (bob t) (alice t)"
    using assms(1) by (simp_all add: test_inv_def)
  have "prefix (node_got a) (node_put (bob t))" using carries_prefix [OF inv(3)] assms(4) by simp
  with inv(1) assms(3,6,7) have "objects_linked R t0 a (bob t)" by (auto simp: objects_linked_def intro: linked.left)
  moreover have "carries (put_out 0 0 draws (alice t) a (aliceToBob t)) a (bob t)"
    using inv(2) put_out_carries [OF _ assms(5), of draws "aliceToBob t" "bob t"] assms(2) by simp
  moreover have "carries (bobToAlice t) (bob t) a" using inv(3) by (simp add: carries_got [OF assms(4)])
  ultimately show ?thesis using assms(1,6,8) by (simp add: test_inv_def)
qed

lemma send_ok:
  assumes "test_opens R t0" and inv: "test_inv R t0 t" and ev: "event_ok (draws, Send stack m)"
  shows "\<exists>t'. test_step R 0 0 t (draws, Send stack m) = Inr t' \<and> test_inv R t0 t'"
proof -
  obtain threadsafe where ok: "context_ok R threadsafe (node_object (alice t))"
    using objects_ok [OF assms(1), of "alice t" "bob t"] inv by (auto simp: test_inv_def)
  have call: "call_ok (CallWrite stack m)" using ev by (simp add: sfp_consts)
  obtain s fs ds where spec: "on_call (abs_sfp R (mContext (node_object (alice t)))) (CallWrite stack m) = (s, fs, ds)"
    by (metis prod_cases3)
  from contexts.step_ok [OF ok call spec] obtain C where
    C: "sendMessage R (node_object (alice t)) stack m = Inr C" "context_shows (node_object (alice t)) C fs ds" by auto
  have "ds = []" using spec by (simp add: abs_sfp_def on_send_def)
  let ?a = "(alice t)\<lparr>node_object := C, node_posted := node_posted (alice t) @ [m]\<rparr>"
  have "context_step R (alice t) ?a" using C(1) call by (intro context_step.sends) simp_all
  moreover have "node_put ?a = node_put (alice t) @ wire fs" "node_given ?a = node_given (alice t)"
    using C(2) \<open>ds = []\<close> by (auto simp: context_shows_def node_put_def node_given_def)
  ultimately have "test_inv R t0 (t\<lparr>alice := ?a, aliceToBob := put_out 0 0 draws (alice t) ?a (aliceToBob t),
      sentMessages := sentMessages t @ [m]\<rparr>)"
    using ev by (intro alice_acts_ok [OF inv ev]) simp_all
  with C(1) inv show ?thesis by (simp add: test_step.simps test_inv_def Let_def)
qed

lemma beats_ok:
  assumes inv: "test_inv R t0 t" and ev: "event_ok (draws, ev)" and "ev = Alice_beats \<or> ev = Bob_beats"
  shows "\<exists>t'. test_step R 0 0 t (draws, ev) = Inr t' \<and> test_inv R t0 t'"
  using assms(3)
proof
  assume ev': "ev = Alice_beats"
  let ?a = "(alice t)\<lparr>node_object := heartbeat (node_object (alice t))\<rparr>"
  have "test_inv R t0 (t\<lparr>alice := ?a, aliceToBob := put_out 0 0 draws (alice t) ?a (aliceToBob t),
      sentMessages := sentMessages t @ []\<rparr>)"
    by (intro alice_acts_ok [OF inv ev] context_step.beats) (simp_all add: node_put_def node_given_def)
  then show ?thesis using inv by (simp add: ev' test_step.simps test_inv_def Let_def)
next
  assume ev': "ev = Bob_beats"
  let ?b = "(bob t)\<lparr>node_object := heartbeat (node_object (bob t))\<rparr>"
  have linked: "objects_linked R t0 (alice t) (bob t)" "carries (aliceToBob t) (alice t) (bob t)"
    "carries (bobToAlice t) (bob t) (alice t)" using inv by (simp_all add: test_inv_def)
  then have "objects_linked R t0 (alice t) ?b"
    using carries_prefix [OF linked(2)] by (auto simp: objects_linked_def intro: linked.right context_step.beats)
  moreover have "carries (put_out 0 0 draws (bob t) ?b (bobToAlice t)) ?b (alice t)"
    using linked(3) ev by (subst put_out_carries) (simp_all add: node_put_def)
  moreover have "carries (aliceToBob t) (alice t) ?b" using linked(2) by (simp add: carries_got [of ?b "bob t"])
  ultimately show ?thesis
    using inv by (simp add: ev' test_step.simps test_inv_def Let_def node_given_def)
qed

lemma to_bob_ok:
  assumes "test_opens R t0" and inv: "test_inv R t0 t" and ev: "event_ok (draws, To_bob stack)"
  shows "\<exists>t'. test_step R 0 0 t (draws, To_bob stack) = Inr t' \<and> test_inv R t0 t'
    \<and> alice t' = alice t \<and> aliceToBob t' = medium_cycle (aliceToBob t)"
proof -
  have linked: "objects_linked R t0 (alice t) (bob t)" "carries (aliceToBob t) (alice t) (bob t)"
    "carries (bobToAlice t) (bob t) (alice t)" "node_posted (bob t) = node_given (bob t)" using inv by (simp_all add: test_inv_def)
  obtain b where b: "foldR (bob_hears R stack) (cycle_output (aliceToBob t)) (bob t) = Inr b" "objects_linked R t0 (alice t) b"
    "node_got b = node_got (bob t) @ cycle_output (aliceToBob t)" "node_posted b = node_given b" "prefix (node_put (bob t)) (node_put b)"
  proof (cases "aliceToBob t" rule: cycle_output_cases)
    case idle
    with linked that show ?thesis by simp
  next
    case (octet octet)
    then have "medium_output (medium_cycle (aliceToBob t)) = medium_output (aliceToBob t) @ [octet]" by (simp add: cycle_output(1))
    from cycle_carries(2) [OF linked(2) _ this, of "bob t\<lparr>node_got := node_got (bob t) @ [octet]\<rparr>"]
    have "prefix (node_got (bob t) @ [octet]) (node_put (alice t))" by simp
    from bob_hears_ok [OF assms(1) linked(1) this linked(4), of stack] ev octet that show ?thesis by auto
  qed
  have "carries (medium_cycle (aliceToBob t)) (alice t) b" by (rule cycle_carries(1) [OF linked(2) b(3) cycle_output(1)])
  moreover have "carries (put_out 0 0 draws (bob t) b (bobToAlice t)) b (alice t)"
    using linked(3) put_out_carries [OF _ b(5), of draws "bobToAlice t" "alice t"] ev by simp
  ultimately show ?thesis
    using inv b(1,2,4) by (simp add: test_step.simps test_inv_def Let_def)
qed

lemma to_alice_ok:
  assumes "test_opens R t0" and inv: "test_inv R t0 t" and ev: "event_ok (draws, To_alice)"
  shows "\<exists>t'. test_step R 0 0 t (draws, To_alice) = Inr t' \<and> test_inv R t0 t'
    \<and> bob t' = bob t \<and> bobToAlice t' = medium_cycle (bobToAlice t) \<and> node_posted (alice t') = node_posted (alice t)"
proof -
  have linked: "objects_linked R t0 (alice t) (bob t)" "carries (aliceToBob t) (alice t) (bob t)"
    "carries (bobToAlice t) (bob t) (alice t)" "node_posted (bob t) = node_given (bob t)"
    "node_posted (alice t) = node_given (alice t) @ sentMessages t" "\<not> test_failed t" using inv by (simp_all add: test_inv_def)
  obtain a sent where a: "foldR (alice_hears R) (cycle_output (bobToAlice t)) (alice t) = Inr a" "objects_linked R t0 a (bob t)"
    "node_got a = node_got (alice t) @ cycle_output (bobToAlice t)" "node_posted a = node_posted (alice t)"
    "node_posted a = node_given a @ sent" "prefix (node_put (alice t)) (node_put a)"
    "foldR aliceMessageHandler (messages (emitted (node_object (alice t)) (node_object a))) (sentMessages t, False) = Inr (sent, False)"
  proof (cases "bobToAlice t" rule: cycle_output_cases)
    case idle
    with linked that [of "alice t"] show ?thesis by (simp add: emitted_def)
  next
    case (octet octet)
    then have "medium_output (medium_cycle (bobToAlice t)) = medium_output (bobToAlice t) @ [octet]" by (simp add: cycle_output(1))
    from cycle_carries(2) [OF linked(3) _ this, of "alice t\<lparr>node_got := node_got (alice t) @ [octet]\<rparr>"]
    have "prefix (node_got (alice t) @ [octet]) (node_put (bob t))" by simp
    from alice_hears_ok [OF assms(1) linked(1) this linked(4,5)] octet that show ?thesis by auto
  qed
  have "carries (medium_cycle (bobToAlice t)) (bob t) a" by (rule cycle_carries(1) [OF linked(3) a(3) cycle_output(1)])
  moreover have "carries (put_out 0 0 draws (alice t) a (aliceToBob t)) a (bob t)"
    using linked(2) put_out_carries [OF _ a(6), of draws "aliceToBob t" "bob t"] ev by simp
  ultimately show ?thesis
    using linked(4,6) a(1,2,4,5,7) by (simp add: test_step.simps test_inv_def Let_def)
qed

lemma test_step_ok:
  assumes "test_opens R t0" and "test_inv R t0 t" and "event_ok ev"
  shows "\<exists>t'. test_step R 0 0 t ev = Inr t' \<and> test_inv R t0 t'"
proof (cases ev)
  case (Pair draws e)
  show ?thesis
  proof (cases e)
    case Connect
    with assms(3) show ?thesis by (simp add: Pair)
  next
    case (Send stack m)
    with assms send_ok [of R t0 t draws] show ?thesis by (simp only: Pair)
  next
    case (To_bob stack)
    with assms to_bob_ok [of R t0 t draws] show ?thesis unfolding Pair by blast
  next
    case To_alice
    with assms to_alice_ok [of R t0 t draws] show ?thesis unfolding Pair by blast
  qed (use assms beats_ok [of R t0 t draws] in \<open>simp_all only: Pair\<close>, simp_all)
qed

lemma run_test_ok:
  assumes "test_opens R t0" and "test_inv R t0 t" and "\<forall>ev \<in> set evs. event_ok ev"
  shows "\<exists>t'. run_test R 0 0 t evs = Inr t' \<and> test_inv R t0 t'"
  using assms(2,3)
proof (induction evs arbitrary: t)
  case Nil
  then show ?case by (simp add: run_test_def)
next
  case (Cons ev evs)
  from test_step_ok [OF assms(1) Cons.prems(1), of ev] Cons.prems(2) obtain t' where
    "test_step R 0 0 t ev = Inr t'" "test_inv R t0 t'" by auto
  with Cons.IH [of t'] Cons.prems(2) show ?case by (auto simp: run_test_def)
qed

lemma test_begins:
  assumes "test_opens R t0"
  shows "test_inv R t0 t0"
proof -
  have "node_put (alice t0) = []" "node_put (bob t0) = []" "node_got (alice t0) = []" "node_got (bob t0) = []"
    "node_given (alice t0) = []" "node_given (bob t0) = []" "node_posted (alice t0) = []" "node_posted (bob t0) = []"
    using assms by (simp_all add: test_opens_def context_opens_def node_put_def node_given_def)
  then show ?thesis using assms by (simp add: test_inv_def objects_linked_def carries_def test_opens_def linked.start)
qed

section \<open>The test passes and ends\<close>

text \<open>The messages that Alice sends in a run.\<close>

fun sent_in :: "(nat \<Rightarrow> rat list) \<times> test_event \<Rightarrow> u8 list list" where
  "sent_in (draws, Send stack m) = [m]"
| "sent_in _ = []"

lemma alice_hears_posted: "foldR (alice_hears R) xs n = Inr n' \<Longrightarrow> node_posted n' = node_posted n"
  by (induction xs arbitrary: n) (force simp: alice_hears_def bindR_eq_Inr)+

lemma test_step_posted:
  assumes "test_step R p q t (draws, e) = Inr t'" and "\<not> test_failed t"
  shows "node_posted (alice t') = node_posted (alice t) @ sent_in (draws, e)"
  using assms by (cases e) (auto simp: test_step.simps Let_def bindR_eq_Inr dest: alice_hears_posted)

lemma run_test_posted:
  assumes "test_opens R t0" and "test_inv R t0 t" and "\<forall>ev \<in> set evs. event_ok ev" and "run_test R 0 0 t evs = Inr t'"
  shows "node_posted (alice t') = node_posted (alice t) @ concat (map sent_in evs)"
  using assms(2-4)
proof (induction evs arbitrary: t)
  case Nil
  then show ?case by (simp add: run_test_def)
next
  case (Cons ev evs)
  from test_step_ok [OF assms(1) Cons.prems(1), of ev] Cons.prems(2) obtain t1 where
    t1: "test_step R 0 0 t ev = Inr t1" "test_inv R t0 t1" by auto
  then have "node_posted (alice t1) = node_posted (alice t) @ sent_in ev"
    using Cons.prems(1) test_step_posted [of R 0 0 t "fst ev" "snd ev" t1] by (simp add: test_inv_def)
  with Cons.IH [OF t1(2)] Cons.prems(2,3) t1(1) show ?case by (simp add: run_test_def)
qed

lemma all_delivered:
  assumes "carries m n k" and "under_way m = []"
  shows "node_got k = node_put n"
  using assms by (auto simp: carries_def)

text \<open>
  C10. On lines without errors, the echo test never fails, from the moment when both objects
  are connected and nothing is under way: whatever Alice sends, whenever the program keeps the
  lines alive and however the media take turns, one whole call after the other, each returns, the
  message handler finds each echo equal to the front of its queue, and the queue holds
  the messages of the run that have not come back, in order; none when nothing is under way.
\<close>

theorem echo_test_passes:
  assumes "test_opens R t0" and "\<forall>ev \<in> set evs. event_ok ev"
  shows "\<exists>t. run_test R 0 0 t0 evs = Inr t \<and> \<not> test_failed t
    \<and> concat (map sent_in evs) = node_given (alice t) @ sentMessages t
    \<and> (under_way (aliceToBob t) = [] \<and> under_way (bobToAlice t) = [] \<longrightarrow> sentMessages t = [])"
proof -
  obtain t where t: "run_test R 0 0 t0 evs = Inr t" "test_inv R t0 t"
    using run_test_ok [OF assms(1) test_begins [OF assms(1)] assms(2)] by blast
  then have inv: "objects_linked R t0 (alice t) (bob t)" "carries (aliceToBob t) (alice t) (bob t)"
    "carries (bobToAlice t) (bob t) (alice t)" "node_posted (bob t) = node_given (bob t)"
    "node_posted (alice t) = node_given (alice t) @ sentMessages t" "\<not> test_failed t" by (simp_all add: test_inv_def)
  have "node_posted (alice t0) = []" using assms(1) by (simp add: test_opens_def context_opens_def)
  then have "node_posted (alice t) = concat (map sent_in evs)"
    using run_test_posted [OF assms(1) test_begins [OF assms(1)] assms(2) t(1)] by simp
  moreover have "sentMessages t = []" if "under_way (aliceToBob t) = []" "under_way (bobToAlice t) = []"
    using objects_order(3,4) [OF assms(1) inv(1)] all_delivered [OF inv(2) that(1)] all_delivered [OF inv(3) that(2)] inv(4,5) by simp
  ultimately show ?thesis using t(1) inv(5,6) by auto
qed

text \<open>The cycles of the media in a run.\<close>

fun cycles_to_bob :: "(nat \<Rightarrow> rat list) \<times> test_event \<Rightarrow> bool" where
  "cycles_to_bob (draws, To_bob stack) = True"
| "cycles_to_bob _ = False"

fun cycles_to_alice :: "(nat \<Rightarrow> rat list) \<times> test_event \<Rightarrow> bool" where
  "cycles_to_alice (draws, To_alice) = True"
| "cycles_to_alice _ = False"

text \<open>An event puts octets into a medium, and may let it go through a cycle before.\<close>

lemma put_out_inputs: "\<exists>xs. put_out p q draws n n' m = fold medium_input xs m"
  by (auto simp: put_out_def line_in_def Let_def)

lemma test_step_media:
  assumes "test_step R p q t ev = Inr t'" and "\<not> test_failed t"
  shows "\<exists>xs. aliceToBob t' = fold medium_input xs ((if cycles_to_bob ev then medium_cycle else id) (aliceToBob t))"
    "\<exists>xs. bobToAlice t' = fold medium_input xs ((if cycles_to_alice ev then medium_cycle else id) (bobToAlice t))"
proof -
  obtain draws e where ev: "ev = (draws, e)" by (rule prod.exhaust)
  have none: "\<exists>xs. m = fold medium_input xs m" for m by (rule exI [of _ "[]"]) simp
  show "\<exists>xs. aliceToBob t' = fold medium_input xs ((if cycles_to_bob ev then medium_cycle else id) (aliceToBob t))"
    using assms none by (cases e) (auto simp: ev test_step.simps Let_def bindR_eq_Inr put_out_inputs)
  show "\<exists>xs. bobToAlice t' = fold medium_input xs ((if cycles_to_alice ev then medium_cycle else id) (bobToAlice t))"
    using assms none by (cases e) (auto simp: ev test_step.simps Let_def bindR_eq_Inr put_out_inputs)
qed

text \<open>
  Messages of the earlier state that were on the way have arrived once the medium has gone
  through enough cycles.
\<close>

lemma failed_stays: "run_test R p q t evs = Inr t' \<Longrightarrow> test_failed t \<Longrightarrow> test_failed t'"
  by (induction evs arbitrary: t) (auto simp: run_test_def test_step.simps)

lemma run_test_media:
  assumes "run_test R p q t evs = Inr t'" and "\<not> test_failed t'"
    and "ahead_of i m (aliceToBob t)" and "ahead_of j m' (bobToAlice t)"
  shows "ahead_of (i + length (filter cycles_to_bob evs)) m (aliceToBob t')"
    "ahead_of (j + length (filter cycles_to_alice evs)) m' (bobToAlice t')"
proof -
  have "ahead_of (i + length (filter cycles_to_bob evs)) m (aliceToBob t')
    \<and> ahead_of (j + length (filter cycles_to_alice evs)) m' (bobToAlice t')"
    using assms
  proof (induction evs arbitrary: t i j)
    case Nil
    then show ?case by (simp add: run_test_def)
  next
    case (Cons ev evs)
    then obtain t1 where t1: "test_step R p q t ev = Inr t1" "run_test R p q t1 evs = Inr t'"
      by (auto simp: run_test_def bindR_eq_Inr)
    moreover have "\<not> test_failed t" using Cons.prems(1,2) failed_stays by blast
    ultimately have "ahead_of (if cycles_to_bob ev then Suc i else i) m (aliceToBob t1)"
      "ahead_of (if cycles_to_alice ev then Suc j else j) m' (bobToAlice t1)"
      using test_step_media [of R p q t ev t1] Cons.prems(3,4) by (auto simp: ahead_inputs ahead_cycle)
    from Cons.IH [OF t1(2) Cons.prems(2) this] show ?case by (auto split: if_splits)
  qed
  then show "ahead_of (i + length (filter cycles_to_bob evs)) m (aliceToBob t')"
    "ahead_of (j + length (filter cycles_to_alice evs)) m' (bobToAlice t')" by blast+
qed

lemma carried_since:
  assumes "carries m n k" and "carries m' n' k'" and "ahead_of i m m'" and "length (places m) \<le> i"
  shows "prefix (node_put n) (node_got k')"
  using ahead_delivers [OF assms(3,4)] conjunct2 [OF assms(1) [unfolded carries_def]]
    conjunct1 [OF assms(2) [unfolded carries_def]] by (simp only:)

lemma objects_since:
  assumes "test_opens R t0" and "objects_linked R t0 a1 b1" and "objects_linked R t0 a b" and "node_posted a1 = node_posted a"
  shows "prefix (node_put a1) (node_got b) \<Longrightarrow> node_given b = node_posted a"
    "prefix (node_put b1) (node_got a) \<Longrightarrow> node_posted b1 = node_posted b \<Longrightarrow> node_given a = node_posted b"
proof -
  have good: "context_opens R (alice t0)" "context_opens R (bob t0)" using assms(1) by (simp_all add: test_opens_def)
  have fits: "\<forall>bs \<in> set (node_posted a) \<union> set (node_posted b). length bs \<le> max_payload"
      "\<forall>bs \<in> set (node_posted a1) \<union> set (node_posted b1). length bs \<le> max_payload"
    using assms(2,3) by (auto simp: objects_linked_def max_payload_def sfp_consts)
  have "rxs (node_view R (bob t0)) = txs (node_view R (alice t0))" "rxs (node_view R (alice t0)) = txs (node_view R (bob t0))"
    using assms(1) by (simp_all add: test_opens_def in_step_def node_view_def endpoint_simps)
  note since = contexts_link.delivered_since [OF good this _ _ fits]
  have "contexts_linked R (alice t0, bob t0) (a1, b1)" "contexts_linked R (alice t0, bob t0) (a, b)"
    using assms(2,3) by (simp_all add: objects_linked_def)
  from since [OF this] assms(4)
  show "prefix (node_put a1) (node_got b) \<Longrightarrow> node_given b = node_posted a"
    "prefix (node_put b1) (node_got a) \<Longrightarrow> node_posted b1 = node_posted b \<Longrightarrow> node_given a = node_posted b" by simp_all
qed

text \<open>
  C11. The last loop of the echo test ends, whatever the turns of the program and of the media:
  after any run (from the same beginning as in C10) on lines without errors, if Alice sends nothing more, once the medium to Bob
  has gone through as many cycles as it had places, and after that the one to Alice, every
  message has come back and the queue of the test is empty.
\<close>

theorem echo_test_ends:
  assumes "test_opens R t0" and "\<forall>ev \<in> set (evs @ evs1 @ evs2). event_ok ev" and "\<forall>ev \<in> set (evs1 @ evs2). sent_in ev = []"
    and "run_test R 0 0 t0 evs = Inr t" and "length (places (aliceToBob t)) \<le> length (filter cycles_to_bob evs1)"
    and "run_test R 0 0 t evs1 = Inr t1" and "length (places (bobToAlice t1)) \<le> length (filter cycles_to_alice evs2)"
  shows "\<exists>t2. run_test R 0 0 t1 evs2 = Inr t2 \<and> sentMessages t2 = [] \<and> \<not> test_failed t2"
proof -
  have ok: "\<forall>ev \<in> set evs. event_ok ev" "\<forall>ev \<in> set evs1. event_ok ev" "\<forall>ev \<in> set evs2. event_ok ev"
    "\<forall>ev \<in> set (evs1 @ evs2). event_ok ev" using assms(2) by auto
  have inv: "test_inv R t0 t" using run_test_ok [OF assms(1) test_begins [OF assms(1)] ok(1)] assms(4) by simp
  have inv1: "test_inv R t0 t1" using run_test_ok [OF assms(1) inv ok(2)] assms(6) by simp
  obtain t2 where t2: "run_test R 0 0 t1 evs2 = Inr t2" "test_inv R t0 t2" using run_test_ok [OF assms(1) inv1 ok(3)] by blast
  have run: "run_test R 0 0 t (evs1 @ evs2) = Inr t2" using assms(6) t2(1) by (simp add: run_test_def foldR_append)
  have silent: "concat (map sent_in evs1) = []" "concat (map sent_in evs2) = []" using assms(3) by auto
  have posted: "node_posted (alice t1) = node_posted (alice t)" "node_posted (alice t2) = node_posted (alice t)"
    using run_test_posted [OF assms(1) inv ok(2) assms(6)] run_test_posted [OF assms(1) inv1 ok(3) t2(1)]
    by (simp_all add: silent)
  have lines: "carries (aliceToBob t) (alice t) (bob t)" "carries (aliceToBob t1) (alice t1) (bob t1)"
    "carries (aliceToBob t2) (alice t2) (bob t2)" "carries (bobToAlice t1) (bob t1) (alice t1)"
    "carries (bobToAlice t2) (bob t2) (alice t2)" using inv inv1 t2(2) by (simp_all add: test_inv_def)
  have fine: "\<not> test_failed t1" "\<not> test_failed t2" using inv1 t2(2) by (simp_all add: test_inv_def)
  have to_bob: "prefix (node_put (alice t)) (node_got (bob t1))" "prefix (node_put (alice t)) (node_got (bob t2))"
    using carried_since [OF lines(1,2) run_test_media(1) [OF assms(6) fine(1) ahead_start ahead_start]]
      carried_since [OF lines(1,3) run_test_media(1) [OF run fine(2) ahead_start ahead_start]] assms(5)
    by simp_all
  have to_alice: "prefix (node_put (bob t1)) (node_got (alice t2))"
    using carried_since [OF lines(4,5) run_test_media(2) [OF t2(1) fine(2) ahead_start ahead_start]] assms(7)
    by simp
  have objects: "objects_linked R t0 (alice t) (bob t)" "objects_linked R t0 (alice t1) (bob t1)"
    "objects_linked R t0 (alice t2) (bob t2)" using inv inv1 t2(2) by (simp_all add: test_inv_def)
  have heard: "node_given (bob t1) = node_posted (alice t1)" "node_given (bob t2) = node_posted (alice t2)"
    using objects_since(1) [OF assms(1) objects(1,2) _ to_bob(1)] objects_since(1) [OF assms(1) objects(1,3) _ to_bob(2)] posted
    by simp_all
  have echoed: "node_posted (bob t1) = node_given (bob t1)" "node_posted (bob t2) = node_given (bob t2)"
    "node_posted (alice t2) = node_given (alice t2) @ sentMessages t2" "\<not> test_failed t2"
    using inv1 t2(2) by (simp_all add: test_inv_def)
  have same: "node_posted (alice t1) = node_posted (alice t2)" using posted by simp
  then have "node_posted (bob t1) = node_posted (bob t2)" using heard echoed(1,2) by simp
  from objects_since(2) [OF assms(1) objects(2,3) same to_alice this] have "node_given (alice t2) = node_posted (bob t2)" .
  then have "node_given (alice t2) = node_posted (alice t2)" using heard(2) echoed(2) by (simp only:)
  with echoed(3) have "sentMessages t2 = []" by simp
  with t2(1) echoed(4) show ?thesis by blast
qed

section \<open>An example\<close>

definition example_test :: "SFPpacket list echo_test" where
  "example_test = \<lparr>alice = example_node, aliceToBob = new_medium 0 9600, bobToAlice = new_medium 0 9600,
     bob = example_node, sentMessages = [], test_failed = False\<rparr>"

abbreviation harmless :: "nat \<Rightarrow> rat list" where
  "harmless \<equiv> \<lambda>_. replicate 9 1"

abbreviation some_stack :: "u8 list" where
  "some_stack \<equiv> replicate SFP_CONFIG_MAX_PACKET_SIZE 0"

lemma example_test_opens: "test_opens list_ringbuffer example_test"
  using example_node_opens by (simp add: test_opens_def example_test_def new_medium_def under_way_def calculateCapacity_def)

lemma example_events:
  "event_ok (harmless, Send some_stack (replicate 10 7))" "event_ok (harmless, To_bob some_stack)" "event_ok (harmless, To_alice)"
  by simp_all

theorem echo_test_passes_witness:
  "\<exists>t. run_test list_ringbuffer 0 0 example_test
        [(harmless, Send some_stack (replicate 10 7)), (harmless, To_bob some_stack), (harmless, Bob_beats), (harmless, To_alice)] = Inr t
     \<and> \<not> test_failed t \<and> [replicate 10 7] = node_given (alice t) @ sentMessages t"
proof -
  let ?evs = "[(harmless, Send some_stack (replicate 10 7)), (harmless, To_bob some_stack), (harmless, Bob_beats), (harmless, To_alice)]"
  have "\<forall>ev \<in> set ?evs. event_ok ev" by simp
  from echo_test_passes [OF example_test_opens this] show ?thesis unfolding list.map sent_in.simps concat.simps append.simps by blast
qed

text \<open>A message goes to Bob and comes back.\<close>

theorem echo_test_ends_witness:
  "\<exists>i j t. run_test list_ringbuffer 0 0 example_test ((harmless, Send some_stack (replicate 10 7))
        # replicate i (harmless, To_bob some_stack) @ replicate j (harmless, To_alice)) = Inr t
     \<and> sentMessages t = [] \<and> \<not> test_failed t"
proof -
  let ?evs = "[(harmless, Send some_stack (replicate 10 7))]"
  have ok: "\<forall>ev \<in> set ?evs. event_ok ev" by simp
  obtain t where t: "run_test list_ringbuffer 0 0 example_test ?evs = Inr t" "test_inv list_ringbuffer example_test t"
    using run_test_ok [OF example_test_opens test_begins [OF example_test_opens] ok] by blast
  define evs1 where "evs1 = replicate (length (places (aliceToBob t))) (harmless, To_bob some_stack)"
  have ok1: "\<forall>ev \<in> set evs1. event_ok ev \<and> sent_in ev = []" "length (filter cycles_to_bob evs1) = length (places (aliceToBob t))"
    by (simp_all add: evs1_def filter_replicate)
  then obtain t1 where t1: "run_test list_ringbuffer 0 0 t evs1 = Inr t1"
    using run_test_ok [OF example_test_opens t(2), of evs1] by blast
  define evs2 where "evs2 = replicate (length (places (bobToAlice t1))) ((harmless, To_alice) :: (nat \<Rightarrow> rat list) \<times> test_event)"
  have ok2: "\<forall>ev \<in> set evs2. event_ok ev \<and> sent_in ev = []" "length (filter cycles_to_alice evs2) = length (places (bobToAlice t1))"
    by (simp_all add: evs2_def filter_replicate)
  have all: "\<forall>ev \<in> set (?evs @ evs1 @ evs2). event_ok ev" "\<forall>ev \<in> set (evs1 @ evs2). sent_in ev = []"
    using ok ok1(1) ok2(1) by (simp_all add: ball_Un del: event_ok.simps)
  from echo_test_ends [OF example_test_opens all t(1) _ t1] obtain t2 where
    "run_test list_ringbuffer 0 0 t1 evs2 = Inr t2" "sentMessages t2 = []" "\<not> test_failed t2"
    using ok1(2) ok2(2) by auto
  moreover from this(1) have "run_test list_ringbuffer 0 0 example_test (?evs @ evs1 @ evs2) = Inr t2"
    using t(1) t1 by (simp only: run_test_def foldR_append bindR_Inr)
  ultimately show ?thesis unfolding evs1_def evs2_def by auto
qed

end
