(* ===== verification/Sfp_EchoStart.thy ===== *)
theory Sfp_EchoStart
  imports Sfp_EchoTest
begin

text \<open>
  The echo test from its beginning: two objects that have just been constructed, the
  handshake over the two media while Alice keeps her line alive, and then the test of
  \<open>Sfp_EchoTest\<close>, with the octets that are still under way.
\<close>

section \<open>What follows the last frame\<close>

lemma wire_last: "gs \<noteq> [] \<Longrightarrow> \<exists>xs. wire gs = xs @ [SFP_FLAG]"
proof -
  assume "gs \<noteq> []"
  then obtain gs' t s bs where "gs = gs' @ [(t, s, bs)]" by (metis append_butlast_last_id prod_cases3)
  then show ?thesis by (simp add: frame_octets_def)
qed

text \<open>The last frame counts when its last octet has come.\<close>

lemma wire_cut:
  assumes "\<forall>f \<in> set (gs @ [g]). frame_ok f" and "wire (gs @ [g]) = xs @ [y]"
  shows "snd (deframe idle xs) = map Some gs"
proof -
  obtain t s bs where g: "g = (t, s, bs)" by (metis prod_cases3)
  let ?body = "frame_body (makeHeader t s) bs"
  have "xs = wire gs @ SFP_FLAG # escape ?body" using assms(2) by (simp add: g frame_octets_def)
  moreover have "\<exists>esc. deframe idle (escape ?body) = (\<lparr>escaping = esc, body = ?body\<rparr>, [])"
    using deframe_data [of "escape ?body" idle] assms(1) escape_no_flag
    by (auto simp: g max_payload_def sfp_consts idle_def)
  ultimately show ?thesis
    using deframe_wire [of gs] assms(1) by (auto simp: deframe_append)
qed

lemma deframe_snd_append: "snd (deframe r (xs @ ys)) = snd (deframe r xs) @ snd (deframe (fst (deframe r xs)) ys)"
  by (simp add: deframe_append split: prod.splits)

lemma wire_arrived:
  assumes "us @ vs = wire gs" and "gs \<noteq> []" and "\<forall>f \<in> set gs. frame_ok f" and "length (snd (deframe idle us)) = length gs"
  shows "vs = []"
proof (rule ccontr)
  assume "vs \<noteq> []"
  then obtain vs' v where v: "vs = vs' @ [v]" by (metis append_butlast_last_id)
  obtain gs' g where g: "gs = gs' @ [g]" using assms(2) by (metis append_butlast_last_id)
  have "snd (deframe idle (us @ vs')) = map Some gs'"
    using wire_cut [of gs' g "us @ vs'" v] assms(1,3) v g by simp
  then have "length (snd (deframe idle us)) \<le> length gs'"
    unfolding deframe_snd_append by (metis length_append length_map le_add1)
  with assms(4) g show False by simp
qed

lemma rest_flags:
  assumes "on_line fs zs" and "\<forall>f \<in> set fs. frame_ok f" and "zs = xs @ ys" and "length (snd (deframe idle xs)) = length fs"
  shows "set ys \<subseteq> {SFP_FLAG} \<and> fst (deframe idle xs) = idle"
  using assms
proof (induction arbitrary: ys rule: on_line.induct)
  case silence
  then show ?case by simp
next
  case (framed fs zs gs)
  show ?case
  proof (cases "gs = []")
    case True
    with framed show ?thesis by simp
  next
    case False
    have ok: "\<forall>f \<in> set fs. frame_ok f" "\<forall>f \<in> set gs. frame_ok f" using framed.prems(1) by auto
    from framed.prems(2) consider us where "zs = xs @ us" | us where "xs = zs @ us" "us @ ys = wire gs"
      by (auto simp: append_eq_append_conv2)
    then show ?thesis
    proof cases
      case 1
      have "snd (deframe idle (xs @ us)) = map Some fs" using on_line_deframe [OF framed.hyps ok(1)] 1 by simp
      then have "length (snd (deframe idle xs)) \<le> length fs"
        unfolding deframe_snd_append by (metis length_append length_map le_add1)
      with framed.prems(3) False show ?thesis by simp
    next
      case 2
      have zs: "deframe idle zs = (idle, map Some fs)" by (rule on_line_deframe [OF framed.hyps ok(1)])
      then have "length (snd (deframe idle us)) = length gs"
        using framed.prems(3) 2(1) by (simp add: deframe_snd_append)
      from wire_arrived [OF 2(2) False ok(2) this] have "ys = []" .
      with 2 zs deframe_wire [OF ok(2)] show ?thesis by (simp add: deframe_append)
    qed
  qed
next
  case (alive fs zs)
  show ?case
  proof (cases ys rule: rev_cases)
    case Nil
    with alive on_line_deframe [OF on_line.alive [OF alive.hyps(1)] alive.prems(1)] show ?thesis by simp
  next
    case (snoc ys' y)
    with alive.IH [of ys'] alive.prems show ?thesis by auto
  qed
qed

section \<open>The logs do not matter\<close>

text \<open>
  What an object has emitted before is recorded in the model only; two objects that differ
  in that go on in the same way.
\<close>

definition same_object :: "'h Context \<Rightarrow> 'h Context \<Rightarrow> bool" where
  "same_object C D \<longleftrightarrow> mContext C = mContext D \<and> mTransmitterMutex C = mTransmitterMutex D \<and> self C = self D"

definition same_emissions :: "'h Context \<Rightarrow> 'h Context \<Rightarrow> 'h Context \<Rightarrow> 'h Context \<Rightarrow> bool" where
  "same_emissions C C' D D' \<longleftrightarrow> same_object C' D' \<and> (\<exists>ss. signals C' = signals C @ ss \<and> signals D' = signals D @ ss)"

lemma same_emissions_refl: "same_object C D \<Longrightarrow> same_emissions C C D D"
  by (simp add: same_emissions_def)

lemma same_emissions_trans:
  "same_emissions C C' D D' \<Longrightarrow> same_emissions C' C'' D' D'' \<Longrightarrow> same_emissions C C'' D D''"
  by (auto simp: same_emissions_def)

lemma same_emissions_object: "same_emissions C C' D D' \<Longrightarrow> same_object C' D'"
  by (simp add: same_emissions_def)

lemma static_same:
  assumes "same_object C D" and "call_static C ev = Inr C'"
  shows "\<exists>D'. call_static D ev = Inr D' \<and> same_emissions C C' D D'"
  using assms
  by (cases ev) (auto simp: same_object_def same_emissions_def staticWrite_eq staticDeliver_def staticLock_def staticUnlock_def
      split: if_splits)

text \<open>The same for a loop of steps of anything that contains an object.\<close>

lemma loop_same:
  fixes g :: "'n \<Rightarrow> 'h Context"
  assumes step: "\<And>n n' x m. same_object (g n) (g n') \<Longrightarrow> f n x = Inr m
      \<Longrightarrow> \<exists>m'. f n' x = Inr m' \<and> same_emissions (g n) (g m) (g n') (g m')"
    and "same_object (g n) (g n')" and "foldR f xs n = Inr m"
  shows "\<exists>m'. foldR f xs n' = Inr m' \<and> same_emissions (g n) (g m) (g n') (g m')"
  using assms(2,3)
proof (induction xs arbitrary: n n')
  case Nil
  then show ?case by (simp add: same_emissions_refl)
next
  case (Cons x xs)
  then obtain m1 where m1: "f n x = Inr m1" "foldR f xs m1 = Inr m" by (auto simp: bindR_eq_Inr)
  with step [OF Cons.prems(1)] obtain m1' where "f n' x = Inr m1'" "same_emissions (g n) (g m1) (g n') (g m1')" by blast
  with Cons.IH [OF same_emissions_object m1(2)] same_emissions_trans show ?case by fastforce
qed

lemma in_library_same:
  assumes "same_object C D" and "in_library f C = Inr C'"
  shows "\<exists>D'. in_library f D = Inr D' \<and> same_emissions C C' D D'"
proof -
  obtain c where c: "f (mContext C) = Inr c"
    "foldR call_static (drop (length (trace (mContext C))) (trace c)) (C\<lparr>mContext := c\<rparr>) = Inr C'"
    using assms(2) by (auto simp: in_library_def bindR_eq_Inr)
  have "same_object (C\<lparr>mContext := c\<rparr>) (D\<lparr>mContext := c\<rparr>)" using assms(1) by (simp add: same_object_def)
  from loop_same [of "\<lambda>C. C" call_static, OF static_same this c(2)] c(1) assms(1) show ?thesis
    by (auto simp: in_library_def same_object_def same_emissions_def)
qed

lemma same_emitted: "same_emissions C C' D D' \<Longrightarrow> emitted C C' = emitted D D'"
  by (auto simp: same_emissions_def emitted_def)

lemma hears_same:
  assumes "same_object (node_object n) (node_object n')"
  shows "foldR (alice_hears R) xs n = Inr m \<Longrightarrow> \<exists>m'. foldR (alice_hears R) xs n' = Inr m'
      \<and> same_emissions (node_object n) (node_object m) (node_object n') (node_object m')"
    and "foldR (bob_hears R stack) xs n = Inr m \<Longrightarrow> \<exists>m'. foldR (bob_hears R stack) xs n' = Inr m'
      \<and> same_emissions (node_object n) (node_object m) (node_object n') (node_object m')"
proof -
  have "\<exists>m'. alice_hears R n' x = Inr m' \<and> same_emissions (node_object n) (node_object m) (node_object n') (node_object m')"
    if "same_object (node_object n) (node_object n')" "alice_hears R n x = Inr m" for n n' m x
    using that in_library_same [OF that(1), of "\<lambda>c. deliver_octet R c x"]
    by (auto simp: alice_hears_def context_input_def bindR_eq_Inr)
  then show "foldR (alice_hears R) xs n = Inr m \<Longrightarrow> \<exists>m'. foldR (alice_hears R) xs n' = Inr m'
      \<and> same_emissions (node_object n) (node_object m) (node_object n') (node_object m')"
    by (rule loop_same [where g = node_object]) (use assms in simp_all)
  have "\<exists>m'. bob_hears R stack n' x = Inr m' \<and> same_emissions (node_object n) (node_object m) (node_object n') (node_object m')"
    if "same_object (node_object n) (node_object n')" "bob_hears R stack n x = Inr m" for n n' m x
    using that in_library_same [OF that(1), of "\<lambda>c. deliver_octet_with R Inr (loopback R stack) c x"]
    by (auto simp: bob_hears_def looped_input_def bindR_eq_Inr)
  then show "foldR (bob_hears R stack) xs n = Inr m \<Longrightarrow> \<exists>m'. foldR (bob_hears R stack) xs n' = Inr m'
      \<and> same_emissions (node_object n) (node_object m) (node_object n') (node_object m')"
    by (rule loop_same [where g = node_object]) (use assms in simp_all)
qed

definition same_line :: "SimulatedMedium \<Rightarrow> SimulatedMedium \<Rightarrow> bool" where
  "same_line m m' \<longleftrightarrow> mMedium m = mMedium m' \<and> mWriteQueue m = mWriteQueue m'"

lemma same_line_cycle:
  assumes "same_line m m'"
  shows "same_line (medium_cycle m) (medium_cycle m')" "cycle_output m = cycle_output m'"
  using assms by (auto simp: same_line_def medium_cycle_def cycle_output_def Let_def split: list.splits prod.splits)

lemma same_line_inputs: "same_line m m' \<Longrightarrow> same_line (fold medium_input xs m) (fold medium_input xs m')"
  by (induction xs arbitrary: m m') (simp_all add: same_line_def medium_input_def)

lemma same_put_out:
  assumes "same_emissions (node_object n) (node_object k) (node_object n') (node_object k')" and "same_line m m'"
  shows "same_line (put_out p q draws n k m) (put_out p q draws n' k' m')"
proof -
  have "drop (length (node_put n)) (node_put k) = drop (length (node_put n')) (node_put k')"
    using assms(1) by (auto simp: same_emissions_def node_put_def)
  with same_line_inputs [OF assms(2)] show ?thesis by (simp add: put_out_def line_in_def Let_def)
qed

definition same_test :: "'h echo_test \<Rightarrow> 'h echo_test \<Rightarrow> bool" where
  "same_test t t' \<longleftrightarrow> same_object (node_object (alice t)) (node_object (alice t'))
     \<and> same_object (node_object (bob t)) (node_object (bob t')) \<and> node_given (alice t) = node_given (alice t')
     \<and> same_line (aliceToBob t) (aliceToBob t') \<and> same_line (bobToAlice t) (bobToAlice t')
     \<and> sentMessages t = sentMessages t' \<and> test_failed t = test_failed t'"

lemma same_given:
  "same_emissions (node_object n) (node_object m) (node_object n') (node_object m') \<Longrightarrow> node_given n = node_given n'
    \<Longrightarrow> node_given m = node_given m'"
  by (auto simp: same_emissions_def node_given_def)

lemma heartbeat_same: "same_object C D \<Longrightarrow> same_emissions C (heartbeat C) D (heartbeat D)"
  by (simp add: same_object_def same_emissions_def heartbeat_def)

lemma step_same:
  assumes "same_test t t'" and "test_step R p q t (draws, ev) = Inr u"
  shows "\<exists>u'. test_step R p q t' (draws, ev) = Inr u' \<and> same_test u u'"
proof (cases "test_failed t")
  case True
  with assms show ?thesis by (simp add: test_step.simps same_test_def)
next
  case False
  have same: "same_object (node_object (alice t)) (node_object (alice t'))" "same_object (node_object (bob t)) (node_object (bob t'))"
    "node_given (alice t) = node_given (alice t')" "same_line (aliceToBob t) (aliceToBob t')"
    "same_line (bobToAlice t) (bobToAlice t')" "sentMessages t = sentMessages t'" "test_failed t = test_failed t'"
    using assms(1) by (simp_all add: same_test_def)
  show ?thesis
  proof (cases ev)
    case Connect
    with assms(2) False obtain C where C: "context_connect R (node_object (alice t)) = Inr C"
      "u = t\<lparr>alice := (alice t)\<lparr>node_object := C\<rparr>,
             aliceToBob := put_out p q draws (alice t) ((alice t)\<lparr>node_object := C\<rparr>) (aliceToBob t)\<rparr>"
      by (auto simp: test_step.simps bindR_eq_Inr Let_def)
    from in_library_same [OF same(1) C(1) [unfolded context_connect_def]] obtain D where
      D: "context_connect R (node_object (alice t')) = Inr D"
        "same_emissions (node_object (alice t)) C (node_object (alice t')) D" by (auto simp: context_connect_def)
    have "same_emissions (node_object (alice t)) (node_object ((alice t)\<lparr>node_object := C\<rparr>))
        (node_object (alice t')) (node_object ((alice t')\<lparr>node_object := D\<rparr>))" using D(2) by simp
    from same_given [OF this same(3)] same_put_out [OF this same(4)] show ?thesis
      using C(2) D(1) Connect False same same_emissions_object [OF D(2)]
      by (simp add: test_step.simps same_test_def Let_def)
  next
    case (Send stack m)
    with assms(2) False obtain C where C: "sendMessage R (node_object (alice t)) stack m = Inr C"
      "u = t\<lparr>alice := (alice t)\<lparr>node_object := C, node_posted := node_posted (alice t) @ [m]\<rparr>,
             aliceToBob := put_out p q draws (alice t)
               ((alice t)\<lparr>node_object := C, node_posted := node_posted (alice t) @ [m]\<rparr>) (aliceToBob t),
             sentMessages := sentMessages t @ [m]\<rparr>"
      by (auto simp: test_step.simps bindR_eq_Inr Let_def)
    from in_library_same [OF same(1) C(1) [unfolded sendMessage_def]] obtain D where
      D: "sendMessage R (node_object (alice t')) stack m = Inr D"
        "same_emissions (node_object (alice t)) C (node_object (alice t')) D" by (auto simp: sendMessage_def)
    have "same_emissions (node_object (alice t)) (node_object ((alice t)\<lparr>node_object := C, node_posted := node_posted (alice t) @ [m]\<rparr>))
        (node_object (alice t')) (node_object ((alice t')\<lparr>node_object := D, node_posted := node_posted (alice t') @ [m]\<rparr>))"
      using D(2) by simp
    from same_given [OF this same(3)] same_put_out [OF this same(4)] show ?thesis
      using C(2) D(1) Send False same same_emissions_object [OF D(2)]
      by (simp add: test_step.simps same_test_def Let_def)
  next
    case Alice_beats
    have e: "same_emissions (node_object (alice t)) (node_object ((alice t)\<lparr>node_object := heartbeat (node_object (alice t))\<rparr>))
        (node_object (alice t')) (node_object ((alice t')\<lparr>node_object := heartbeat (node_object (alice t'))\<rparr>))"
      using heartbeat_same [OF same(1)] by simp
    from same_given [OF e same(3)] same_put_out [OF e same(4)] same_emissions_object [OF e] show ?thesis
      using assms(2) False same Alice_beats by (auto simp: test_step.simps same_test_def Let_def)
  next
    case Bob_beats
    have e: "same_emissions (node_object (bob t)) (node_object ((bob t)\<lparr>node_object := heartbeat (node_object (bob t))\<rparr>))
        (node_object (bob t')) (node_object ((bob t')\<lparr>node_object := heartbeat (node_object (bob t'))\<rparr>))"
      using heartbeat_same [OF same(2)] by simp
    from same_put_out [OF e same(5)] same_emissions_object [OF e] show ?thesis
      using assms(2) False same Bob_beats by (auto simp: test_step.simps same_test_def Let_def)
  next
    case (To_bob stack)
    with assms(2) False obtain b where b: "foldR (bob_hears R stack) (cycle_output (aliceToBob t)) (bob t) = Inr b"
      "u = t\<lparr>aliceToBob := medium_cycle (aliceToBob t), bob := b, bobToAlice := put_out p q draws (bob t) b (bobToAlice t)\<rparr>"
      by (auto simp: test_step.simps bindR_eq_Inr)
    from hears_same(2) [OF same(2) b(1)] obtain b' where
      "foldR (bob_hears R stack) (cycle_output (aliceToBob t')) (bob t') = Inr b'"
      "same_emissions (node_object (bob t)) (node_object b) (node_object (bob t')) (node_object b')"
      unfolding same_line_cycle(2) [OF same(4)] by blast
    then show ?thesis
      using b(2) To_bob False same same_emissions_object same_put_out [OF _ same(5)] same_line_cycle(1) [OF same(4)]
      by (auto simp: test_step.simps same_test_def)
  next
    case To_alice
    with assms(2) False obtain a sent failed where
      a: "foldR (alice_hears R) (cycle_output (bobToAlice t)) (alice t) = Inr a"
      "foldR aliceMessageHandler (messages (emitted (node_object (alice t)) (node_object a))) (sentMessages t, test_failed t)
        = Inr (sent, failed)"
      "u = t\<lparr>bobToAlice := medium_cycle (bobToAlice t), alice := a,
             aliceToBob := put_out p q draws (alice t) a (aliceToBob t), sentMessages := sent, test_failed := failed\<rparr>"
      by (auto simp: test_step.simps bindR_eq_Inr)
    from hears_same(1) [OF same(1) a(1)] obtain a' where
      a': "foldR (alice_hears R) (cycle_output (bobToAlice t')) (alice t') = Inr a'"
      "same_emissions (node_object (alice t)) (node_object a) (node_object (alice t')) (node_object a')"
      unfolding same_line_cycle(2) [OF same(5)] by blast
    then show ?thesis
      using a(2,3) To_alice False same same_emissions_object [OF a'(2)] same_put_out [OF a'(2) same(4)]
        same_line_cycle(1) [OF same(5)] same_given [OF a'(2)] same_emitted [OF a'(2)]
      by (auto simp: test_step.simps same_test_def)
  qed
qed

lemma run_same:
  assumes "same_test t t'" and "run_test R p q t evs = Inr u"
  shows "\<exists>u'. run_test R p q t' evs = Inr u' \<and> same_test u u'"
  using assms
proof (induction evs arbitrary: t t')
  case Nil
  then show ?case by (simp add: run_test_def)
next
  case (Cons ev evs)
  then obtain t1 where t1: "test_step R p q t ev = Inr t1" "run_test R p q t1 evs = Inr u"
    by (auto simp: run_test_def bindR_eq_Inr)
  with step_same [OF Cons.prems(1), of R p q "fst ev" "snd ev"] obtain t1' where
    "test_step R p q t' ev = Inr t1'" "same_test t1 t1'" by auto
  with Cons.IH [of t1 t1'] t1(2) show ?case by (auto simp: run_test_def)
qed

section \<open>The handshake over the media\<close>

definition greeting :: "frame list" where
  "greeting = [SYN SFP_SEQ_SYN0, SYN SFP_SEQ_SYN2]"

text \<open>
  Alice, when she has received \<open>i\<close> frames, and Bob, when he has received \<open>j\<close>; before that he
  is \<open>e0\<close>.
\<close>

definition alice_endpoint :: "nat \<Rightarrow> endpoint" where
  "alice_endpoint i = fresh_endpoint (if i = 0 then SFP_CONNECT_STATE_SENT_SYN0 else SFP_CONNECT_STATE_CONNECTED)"

definition bob_endpoint :: "endpoint \<Rightarrow> nat \<Rightarrow> endpoint" where
  "bob_endpoint e0 j =
     (if j = 0 then e0
      else fresh_endpoint (if j = 1 then SFP_CONNECT_STATE_SENT_SYN1 else SFP_CONNECT_STATE_CONNECTED))"

lemma frames_ok:
  "\<forall>f \<in> set greeting. frame_ok f" "\<forall>f \<in> set (take k greeting). frame_ok f" "\<forall>f \<in> set (take k [SYN SFP_SEQ_SYN1]). frame_ok f"
proof -
  show "\<forall>f \<in> set greeting. frame_ok f" by (simp add: greeting_def sfp_consts seq_ok_def)
  then show "\<forall>f \<in> set (take k greeting). frame_ok f" by (meson in_set_takeD)
  have "frame_ok (SYN SFP_SEQ_SYN1)" by (simp add: sfp_consts seq_ok_def)
  then show "\<forall>f \<in> set (take k [SYN SFP_SEQ_SYN1]). frame_ok f" by (cases k) simp_all
qed

text \<open>One octet more completes at most one frame more.\<close>

lemma next_frame:
  assumes "on_line fs zs" and "\<forall>f \<in> set fs. frame_ok f" and "prefix (got @ [x]) zs" and "snd (deframe idle got) = map Some gs"
  obtains gs' where "deframe (fst (deframe idle got)) [x] = (fst (deframe idle (got @ [x])), map Some gs')"
    "snd (deframe idle (got @ [x])) = map Some (gs @ gs')" "length gs' \<le> 1" "prefix (gs @ gs') fs"
proof -
  obtain ys where ys: "zs = (got @ [x]) @ ys" using assms(3) by (auto elim: prefixE)
  obtain r "is" where r: "deframe (fst (deframe idle got)) [x] = (r, is)" "length is \<le> 1" using deframe_single by blast
  have more: "snd (deframe idle (got @ [x])) = map Some gs @ is" "fst (deframe idle (got @ [x])) = r"
    using r(1) assms(4) by (cases "deframe idle got"; simp add: deframe_append del: deframe.simps)+
  have "map Some fs = snd (deframe idle zs)" using on_line_deframe [OF assms(1,2)] by simp
  then obtain js where js: "map Some fs = (map Some gs @ is) @ js"
    unfolding ys deframe_snd_append [of _ "got @ [x]"] more(1) by blast
  then obtain gs' where gs': "is = map Some gs'" "prefix (gs @ gs') fs"
    by (auto simp: map_eq_append_conv append_eq_map_conv)
  with that [of gs'] r more show thesis by simp
qed

lemma alice_next:
  assumes "i \<le> 1" and "prefix (take i [SYN SFP_SEQ_SYN1] @ gs) [SYN SFP_SEQ_SYN1]"
  shows "\<exists>i' fs. i' \<le> 1 \<and> take i [SYN SFP_SEQ_SYN1] @ gs = take i' [SYN SFP_SEQ_SYN1]
    \<and> on_inputs (alice_endpoint i) (map Some gs) = (alice_endpoint i', fs, [])
    \<and> take (Suc i) greeting @ fs = take (Suc i') greeting"
proof (cases "i = 0 \<and> gs \<noteq> []")
  case True
  then have "gs = [SYN SFP_SEQ_SYN1]" using assms(2) by (cases gs) auto
  with True show ?thesis
    by (intro exI [of _ 1] exI [of _ "[SYN SFP_SEQ_SYN2]"])
      (simp add: greeting_def alice_endpoint_def fresh_endpoint_def on_input_def on_syn_def resend_all_def sfp_consts)
next
  case False
  then have "gs = []" using assms by (cases i) auto
  with assms(1) show ?thesis by (intro exI [of _ i] exI [of _ "[]"]) simp
qed

lemma bob_next:
  assumes "j \<le> 2" and "prefix (take j greeting @ gs) greeting" and "length gs \<le> 1"
  shows "\<exists>j' fs. j' \<le> 2 \<and> take j greeting @ gs = take j' greeting
    \<and> on_inputs (bob_endpoint e0 j) (map Some gs) = (bob_endpoint e0 j', fs, [])
    \<and> take j [SYN SFP_SEQ_SYN1] @ fs = take j' [SYN SFP_SEQ_SYN1]"
proof (cases gs)
  case Nil
  with assms(1) show ?thesis by (intro exI [of _ j] exI [of _ "[]"]) simp
next
  case (Cons f gs')
  then have gs: "gs = [f]" using assms(3) by simp
  then consider "j = 0" "f = SYN SFP_SEQ_SYN0" | "j = 1" "f = SYN SFP_SEQ_SYN2"
    using assms(1,2) by (auto simp: greeting_def numeral_2_eq_2 le_Suc_eq)
  then show ?thesis
  proof cases
    case 1
    with gs show ?thesis
      by (intro exI [of _ 1] exI [of _ "[SYN SFP_SEQ_SYN1]"])
        (simp add: greeting_def bob_endpoint_def fresh_endpoint_def on_input_def on_syn_def)
  next
    case 2
    with gs show ?thesis
      by (intro exI [of _ 2] exI [of _ "[]"])
        (simp add: greeting_def bob_endpoint_def fresh_endpoint_def on_input_def on_syn_def resend_all_def sfp_consts)
  qed
qed

text \<open>An object that is given an octet.\<close>

lemma object_hears:
  assumes "context_ok R threadsafe C" and "abs_sfp R (mContext C) = (e, r)"
    and "deframe r [x] = (r', map Some gs)" and "on_inputs e (map Some gs) = (e', fs, [])"
  shows "\<exists>C'. context_input R C x = Inr C' \<and> context_ok R threadsafe C' \<and> context_shows C C' fs []
    \<and> abs_sfp R (mContext C') = (e', r')"
proof -
  have "on_call (abs_sfp R (mContext C)) (CallOctet x) = ((e', r'), fs, [])"
    using assms(2-4) by (simp add: on_octet_deframe del: deframe.simps)
  from contexts.step_ok [OF assms(1) _ this] show ?thesis by auto
qed

definition handshaking :: "('h, 'z) ringbuffer_scheme \<Rightarrow> endpoint \<Rightarrow> nat \<Rightarrow> nat \<Rightarrow> 'h echo_test \<Rightarrow> bool" where
  "handshaking R e0 i j t \<longleftrightarrow> i \<le> 1 \<and> j \<le> 2
     \<and> (\<exists>threadsafe. context_ok R threadsafe (node_object (alice t)))
     \<and> abs_sfp R (mContext (node_object (alice t))) = (alice_endpoint i, fst (deframe idle (node_got (alice t))))
     \<and> snd (deframe idle (node_got (alice t))) = map Some (take i [SYN SFP_SEQ_SYN1])
     \<and> on_line (take (Suc i) greeting) (node_put (alice t))
     \<and> (\<exists>threadsafe. context_ok R threadsafe (node_object (bob t)))
     \<and> abs_sfp R (mContext (node_object (bob t))) = (bob_endpoint e0 j, fst (deframe idle (node_got (bob t))))
     \<and> snd (deframe idle (node_got (bob t))) = map Some (take j greeting)
     \<and> on_line (take j [SYN SFP_SEQ_SYN1]) (node_put (bob t))
     \<and> node_given (alice t) = [] \<and> carries (aliceToBob t) (alice t) (bob t) \<and> carries (bobToAlice t) (bob t) (alice t)
     \<and> sentMessages t = [] \<and> \<not> test_failed t"

lemma alice_handshakes:
  assumes hs: "handshaking R e0 i j t" and "prefix (node_got (alice t) @ [x]) (node_put (bob t))"
  shows "\<exists>a i'. alice_hears R (alice t) x = Inr a \<and> i' \<le> 1 \<and> (\<exists>threadsafe. context_ok R threadsafe (node_object a))
    \<and> node_got a = node_got (alice t) @ [x]
    \<and> abs_sfp R (mContext (node_object a)) = (alice_endpoint i', fst (deframe idle (node_got a)))
    \<and> snd (deframe idle (node_got a)) = map Some (take i' [SYN SFP_SEQ_SYN1])
    \<and> on_line (take (Suc i') greeting) (node_put a) \<and> prefix (node_put (alice t)) (node_put a)
    \<and> messages (emitted (node_object (alice t)) (node_object a)) = [] \<and> node_given a = []"
proof -
  let ?got = "node_got (alice t)"
  from hs obtain threadsafe where ok: "context_ok R threadsafe (node_object (alice t))" by (auto simp: handshaking_def)
  have a: "i \<le> 1" "abs_sfp R (mContext (node_object (alice t))) = (alice_endpoint i, fst (deframe idle ?got))"
    "snd (deframe idle ?got) = map Some (take i [SYN SFP_SEQ_SYN1])"
    "on_line (take (Suc i) greeting) (node_put (alice t))" "on_line (take j [SYN SFP_SEQ_SYN1]) (node_put (bob t))"
    "node_given (alice t) = []"
    using hs by (simp_all add: handshaking_def)
  obtain gs where gs: "deframe (fst (deframe idle ?got)) [x] = (fst (deframe idle (?got @ [x])), map Some gs)"
    "snd (deframe idle (?got @ [x])) = map Some (take i [SYN SFP_SEQ_SYN1] @ gs)"
    "prefix (take i [SYN SFP_SEQ_SYN1] @ gs) (take j [SYN SFP_SEQ_SYN1])"
    using next_frame [OF a(5) frames_ok(3) assms(2) a(3)] .
  have "prefix (take i [SYN SFP_SEQ_SYN1] @ gs) [SYN SFP_SEQ_SYN1]" using gs(3) take_is_prefix by (rule prefix_order.trans)
  from alice_next [OF a(1) this] obtain i' fs where i': "i' \<le> 1" "take i [SYN SFP_SEQ_SYN1] @ gs = take i' [SYN SFP_SEQ_SYN1]"
    "on_inputs (alice_endpoint i) (map Some gs) = (alice_endpoint i', fs, [])"
    "take (Suc i) greeting @ fs = take (Suc i') greeting" by blast
  from object_hears [OF ok a(2) gs(1) i'(3)] obtain C where C: "context_input R (node_object (alice t)) x = Inr C"
    "context_ok R threadsafe C" "context_shows (node_object (alice t)) C fs []"
    "abs_sfp R (mContext C) = (alice_endpoint i', fst (deframe idle (?got @ [x])))" by blast
  let ?a = "(alice t)\<lparr>node_object := C, node_got := ?got @ [x]\<rparr>"
  have put: "node_put ?a = node_put (alice t) @ wire fs" "node_given ?a = node_given (alice t)"
    using C(3) by (auto simp: context_shows_def node_put_def node_given_def)
  have "on_line (take (Suc i') greeting) (node_put ?a)"
    using on_line.framed [OF a(4), of fs] unfolding put i'(4) .
  with C gs(2) i'(1,2) put a(6) shows_emitted [OF C(3)] show ?thesis
    by (intro exI [of _ ?a] exI [of _ i'] conjI) (auto simp: alice_hears_def)
qed

lemma bob_handshakes:
  assumes hs: "handshaking R e0 i j t" and "prefix (node_got (bob t) @ [x]) (node_put (alice t))"
    and "length stack = SFP_CONFIG_MAX_PACKET_SIZE"
  shows "\<exists>b j'. bob_hears R stack (bob t) x = Inr b \<and> j' \<le> 2 \<and> (\<exists>threadsafe. context_ok R threadsafe (node_object b))
    \<and> node_got b = node_got (bob t) @ [x]
    \<and> abs_sfp R (mContext (node_object b)) = (bob_endpoint e0 j', fst (deframe idle (node_got b)))
    \<and> snd (deframe idle (node_got b)) = map Some (take j' greeting)
    \<and> on_line (take j' [SYN SFP_SEQ_SYN1]) (node_put b) \<and> prefix (node_put (bob t)) (node_put b)"
proof -
  let ?got = "node_got (bob t)"
  from hs obtain threadsafe where ok: "context_ok R threadsafe (node_object (bob t))" by (auto simp: handshaking_def)
  have b: "j \<le> 2" "abs_sfp R (mContext (node_object (bob t))) = (bob_endpoint e0 j, fst (deframe idle ?got))"
    "snd (deframe idle ?got) = map Some (take j greeting)"
    "on_line (take j [SYN SFP_SEQ_SYN1]) (node_put (bob t))" "on_line (take (Suc i) greeting) (node_put (alice t))"
    using hs by (simp_all add: handshaking_def)
  obtain gs where gs: "deframe (fst (deframe idle ?got)) [x] = (fst (deframe idle (?got @ [x])), map Some gs)"
    "snd (deframe idle (?got @ [x])) = map Some (take j greeting @ gs)" "length gs \<le> 1"
    "prefix (take j greeting @ gs) (take (Suc i) greeting)"
    using next_frame [OF b(5) frames_ok(2) assms(2) b(3)] .
  have "prefix (take j greeting @ gs) greeting" using gs(4) take_is_prefix by (rule prefix_order.trans)
  from bob_next [OF b(1) this gs(3)] obtain j' fs where j': "j' \<le> 2" "take j greeting @ gs = take j' greeting"
    "on_inputs (bob_endpoint e0 j) (map Some gs) = (bob_endpoint e0 j', fs, [])"
    "take j [SYN SFP_SEQ_SYN1] @ fs = take j' [SYN SFP_SEQ_SYN1]" by blast
  from object_hears [OF ok b(2) gs(1) j'(3)] obtain C where C: "context_input R (node_object (bob t)) x = Inr C"
    "context_ok R threadsafe C" "context_shows (node_object (bob t)) C fs []"
    "abs_sfp R (mContext C) = (bob_endpoint e0 j', fst (deframe idle (?got @ [x])))" by blast
  have none: "messages (emitted (node_object (bob t)) C) = []" using shows_emitted [OF C(3)] by simp
  with looped_input_eq [OF ok assms(3), of x] C(1) have looped: "looped_input R stack (node_object (bob t)) x = Inr C" by auto
  let ?b = "(bob t)\<lparr>node_object := C, node_got := ?got @ [x], node_posted := node_posted (bob t) @ []\<rparr>"
  have put: "node_put ?b = node_put (bob t) @ wire fs"
    using C(3) by (auto simp: context_shows_def node_put_def)
  have "on_line (take j' [SYN SFP_SEQ_SYN1]) (node_put ?b)"
    using on_line.framed [OF b(4), of fs] unfolding put j'(4) .
  with C gs(2) j'(1,2) put looped none show ?thesis
    by (intro exI [of _ ?b] exI [of _ j'] conjI) (auto simp: bob_hears_def)
qed

text \<open>Everything that can happen while the connection is made, but for new calls of Alice.\<close>

definition no_call :: "(nat \<Rightarrow> rat list) \<times> test_event \<Rightarrow> bool" where
  "no_call ev \<longleftrightarrow> event_ok ev \<and> sent_in ev = []"

lemma handshaking_lines:
  assumes "handshaking R e0 i j t"
  shows "carries (aliceToBob t) (alice t) (bob t)" "carries (bobToAlice t) (bob t) (alice t)" "\<not> test_failed t"
    "sentMessages t = []"
  using assms by (simp_all add: handshaking_def)

lemma handshaking_beats:
  assumes hs: "handshaking R e0 i j t" and ev: "event_ok (draws, ev)" and "ev = Alice_beats \<or> ev = Bob_beats"
  shows "\<exists>t'. test_step R 0 0 t (draws, ev) = Inr t' \<and> handshaking R e0 i j t'"
  using assms(3)
proof
  note c = handshaking_lines [OF hs]
  have ok: "\<forall>i. length (draws i) = 9 \<and> (\<forall>r \<in> set (draws i). 0 \<le> r \<and> r \<le> 1)" using ev(1) by simp
  assume ev': "ev = Alice_beats"
  let ?a = "(alice t)\<lparr>node_object := heartbeat (node_object (alice t))\<rparr>"
  have put: "node_put ?a = node_put (alice t) @ [SFP_FLAG]" "node_given ?a = node_given (alice t)"
    by (simp_all add: node_put_def node_given_def)
  then have "carries (put_out 0 0 draws (alice t) ?a (aliceToBob t)) ?a (bob t)"
    using put_out_carries [OF ok, of "alice t" ?a "aliceToBob t" "bob t"] c(1) by simp
  moreover have "carries (bobToAlice t) (bob t) ?a" using c(2) by (simp add: carries_got [of ?a "alice t"])
  ultimately have "handshaking R e0 i j (t\<lparr>alice := ?a, aliceToBob := put_out 0 0 draws (alice t) ?a (aliceToBob t)\<rparr>)"
    using hs put on_line.alive by (simp add: handshaking_def)
  then show ?thesis using c(3) by (auto simp: ev' test_step.simps Let_def)
next
  note c = handshaking_lines [OF hs]
  have ok: "\<forall>i. length (draws i) = 9 \<and> (\<forall>r \<in> set (draws i). 0 \<le> r \<and> r \<le> 1)" using ev(1) by simp
  assume ev': "ev = Bob_beats"
  let ?b = "(bob t)\<lparr>node_object := heartbeat (node_object (bob t))\<rparr>"
  have put: "node_put ?b = node_put (bob t) @ [SFP_FLAG]" by (simp add: node_put_def)
  then have "carries (put_out 0 0 draws (bob t) ?b (bobToAlice t)) ?b (alice t)"
    using put_out_carries [OF ok, of "bob t" ?b "bobToAlice t" "alice t"] c(2) by simp
  moreover have "carries (aliceToBob t) (alice t) ?b" using c(1) by (simp add: carries_got [of ?b "bob t"])
  ultimately have "handshaking R e0 i j (t\<lparr>bob := ?b, bobToAlice := put_out 0 0 draws (bob t) ?b (bobToAlice t)\<rparr>)"
    using hs put on_line.alive by (simp add: handshaking_def)
  then show ?thesis using c(3) by (auto simp: ev' test_step.simps Let_def)
qed

lemma handshaking_to_bob:
  assumes hs: "handshaking R e0 i j t" and ev: "event_ok (draws, To_bob stack)"
  shows "\<exists>t' j'. test_step R 0 0 t (draws, To_bob stack) = Inr t' \<and> handshaking R e0 i j' t'"
proof -
  note c = handshaking_lines [OF hs]
  have ok: "\<forall>i. length (draws i) = 9 \<and> (\<forall>r \<in> set (draws i). 0 \<le> r \<and> r \<le> 1)" "length stack = SFP_CONFIG_MAX_PACKET_SIZE"
    using ev(1) by simp_all
  obtain b j' where b: "foldR (bob_hears R stack) (cycle_output (aliceToBob t)) (bob t) = Inr b" "j' \<le> 2"
    "\<exists>threadsafe. context_ok R threadsafe (node_object b)" "node_got b = node_got (bob t) @ cycle_output (aliceToBob t)"
    "abs_sfp R (mContext (node_object b)) = (bob_endpoint e0 j', fst (deframe idle (node_got b)))"
    "snd (deframe idle (node_got b)) = map Some (take j' greeting)"
    "on_line (take j' [SYN SFP_SEQ_SYN1]) (node_put b)" "prefix (node_put (bob t)) (node_put b)"
  proof (cases "aliceToBob t" rule: cycle_output_cases)
    case idle
    with hs that [of "bob t" j] show ?thesis by (simp add: handshaking_def)
  next
    case (octet octet)
    then have "medium_output (medium_cycle (aliceToBob t)) = medium_output (aliceToBob t) @ [octet]" by (simp add: cycle_output(1))
    from cycle_carries(2) [OF c(1) _ this, of "bob t\<lparr>node_got := node_got (bob t) @ [octet]\<rparr>"]
    have "prefix (node_got (bob t) @ [octet]) (node_put (alice t))" by simp
    from bob_handshakes [OF hs this ok(2)] obtain b j' where
      b: "bob_hears R stack (bob t) octet = Inr b" "j' \<le> 2" "\<exists>threadsafe. context_ok R threadsafe (node_object b)"
        "node_got b = node_got (bob t) @ [octet]"
        "abs_sfp R (mContext (node_object b)) = (bob_endpoint e0 j', fst (deframe idle (node_got b)))"
        "snd (deframe idle (node_got b)) = map Some (take j' greeting)"
        "on_line (take j' [SYN SFP_SEQ_SYN1]) (node_put b)" "prefix (node_put (bob t)) (node_put b)" by blast
    show ?thesis by (rule that [OF _ b(2,3) _ b(5-8)]) (simp_all add: octet b(1,4))
  qed
  let ?t = "t\<lparr>aliceToBob := medium_cycle (aliceToBob t), bob := b, bobToAlice := put_out 0 0 draws (bob t) b (bobToAlice t)\<rparr>"
  have "carries (medium_cycle (aliceToBob t)) (alice t) b" by (rule cycle_carries(1) [OF c(1) b(4) cycle_output(1)])
  moreover have "carries (put_out 0 0 draws (bob t) b (bobToAlice t)) b (alice t)"
    using c(2) put_out_carries [OF ok(1) b(8), of "bobToAlice t" "alice t"] by simp
  ultimately have "handshaking R e0 i j' ?t" using hs b(2,3,5-7) by (simp add: handshaking_def)
  then show ?thesis using b(1) c(3) by (auto simp: test_step.simps)
qed

lemma handshaking_to_alice:
  assumes hs: "handshaking R e0 i j t" and ev: "event_ok (draws, To_alice)"
  shows "\<exists>t' i'. test_step R 0 0 t (draws, To_alice) = Inr t' \<and> handshaking R e0 i' j t'"
proof -
  note c = handshaking_lines [OF hs]
  have ok: "\<forall>i. length (draws i) = 9 \<and> (\<forall>r \<in> set (draws i). 0 \<le> r \<and> r \<le> 1)" using ev(1) by simp
  obtain a i' where a: "foldR (alice_hears R) (cycle_output (bobToAlice t)) (alice t) = Inr a" "i' \<le> 1"
    "\<exists>threadsafe. context_ok R threadsafe (node_object a)" "node_got a = node_got (alice t) @ cycle_output (bobToAlice t)"
    "abs_sfp R (mContext (node_object a)) = (alice_endpoint i', fst (deframe idle (node_got a)))"
    "snd (deframe idle (node_got a)) = map Some (take i' [SYN SFP_SEQ_SYN1])"
    "on_line (take (Suc i') greeting) (node_put a)" "prefix (node_put (alice t)) (node_put a)"
    "messages (emitted (node_object (alice t)) (node_object a)) = []" "node_given a = []"
  proof (cases "bobToAlice t" rule: cycle_output_cases)
    case idle
    with hs that [of "alice t" i] show ?thesis by (simp add: handshaking_def emitted_def)
  next
    case (octet octet)
    then have "medium_output (medium_cycle (bobToAlice t)) = medium_output (bobToAlice t) @ [octet]" by (simp add: cycle_output(1))
    from cycle_carries(2) [OF c(2) _ this, of "alice t\<lparr>node_got := node_got (alice t) @ [octet]\<rparr>"]
    have "prefix (node_got (alice t) @ [octet]) (node_put (bob t))" by simp
    from alice_handshakes [OF hs this] obtain a i' where
      a: "alice_hears R (alice t) octet = Inr a" "i' \<le> 1" "\<exists>threadsafe. context_ok R threadsafe (node_object a)"
        "node_got a = node_got (alice t) @ [octet]"
        "abs_sfp R (mContext (node_object a)) = (alice_endpoint i', fst (deframe idle (node_got a)))"
        "snd (deframe idle (node_got a)) = map Some (take i' [SYN SFP_SEQ_SYN1])"
        "on_line (take (Suc i') greeting) (node_put a)" "prefix (node_put (alice t)) (node_put a)"
        "messages (emitted (node_object (alice t)) (node_object a)) = []" "node_given a = []" by blast
    show ?thesis by (rule that [OF _ a(2,3) _ a(5-10)]) (simp_all add: octet a(1,4))
  qed
  let ?t = "t\<lparr>bobToAlice := medium_cycle (bobToAlice t), alice := a, aliceToBob := put_out 0 0 draws (alice t) a (aliceToBob t),
      sentMessages := [], test_failed := False\<rparr>"
  have "carries (medium_cycle (bobToAlice t)) (bob t) a" by (rule cycle_carries(1) [OF c(2) a(4) cycle_output(1)])
  moreover have "carries (put_out 0 0 draws (alice t) a (aliceToBob t)) a (bob t)"
    using c(1) put_out_carries [OF ok a(8), of "aliceToBob t" "bob t"] by simp
  ultimately have "handshaking R e0 i' j ?t" using hs a(2,3,5-7,10) by (simp add: handshaking_def)
  then show ?thesis using a(1,9) c(3,4) by (auto simp: test_step.simps)
qed

lemma handshaking_step:
  assumes "handshaking R e0 i j t" and "no_call ev"
  shows "\<exists>t' i' j'. test_step R 0 0 t ev = Inr t' \<and> handshaking R e0 i' j' t'"
proof -
  obtain draws e where ev: "ev = (draws, e)" "event_ok (draws, e)" "sent_in (draws, e) = []"
    using assms(2) by (cases ev) (auto simp: no_call_def)
  show ?thesis
  proof (cases e)
    case (To_bob stack)
    with handshaking_to_bob [OF assms(1)] ev show ?thesis by blast
  next
    case To_alice
    with handshaking_to_alice [OF assms(1)] ev show ?thesis by blast
  qed (use ev handshaking_beats [OF assms(1) ev(2)] in auto)
qed

lemma handshaking_run:
  assumes "handshaking R e0 i j t" and "\<forall>ev \<in> set evs. no_call ev"
  shows "\<exists>t' i' j'. run_test R 0 0 t evs = Inr t' \<and> handshaking R e0 i' j' t'"
  using assms
proof (induction evs arbitrary: t i j)
  case Nil
  then show ?case by (auto simp: run_test_def)
next
  case (Cons ev evs)
  from handshaking_step [OF Cons.prems(1), of ev] Cons.prems(2) obtain t1 i1 j1 where
    "test_step R 0 0 t ev = Inr t1" "handshaking R e0 i1 j1 t1" by auto
  with Cons.IH [of i1 j1 t1] Cons.prems(2) show ?case by (auto simp: run_test_def)
qed

section \<open>The test after the handshake\<close>

text \<open>
  Both are connected. What is still under way are flags, so the state is one that the test of
  \<open>Sfp_EchoTest\<close> reaches from its beginning by nothing but flags, if the records of the
  handshake are cleared: \<open>cleared_node\<close>, and with the flags \<open>flagged_node\<close>.
\<close>

definition cleared_node :: "'h context_node \<Rightarrow> 'h context_node" where
  "cleared_node n = \<lparr>node_object = (node_object n)\<lparr>signals := []\<rparr>, node_got = [], node_posted = []\<rparr>"

definition flagged_node :: "nat \<Rightarrow> 'h context_node \<Rightarrow> 'h context_node" where
  "flagged_node k n =
     \<lparr>node_object = (node_object n)\<lparr>signals := map Output (replicate k SFP_FLAG)\<rparr>, node_got = [], node_posted = []\<rparr>"

lemma flagged_simps [simp]:
  "node_got (flagged_node k n) = []" "node_posted (flagged_node k n) = []" "node_given (flagged_node k n) = []"
  "node_put (flagged_node k n) = replicate k SFP_FLAG" "same_object (node_object (flagged_node k n)) (node_object n)"
  using outputs_map [of "replicate k SFP_FLAG"]
  by (simp_all add: flagged_node_def node_given_def node_put_def same_object_def)

lemma cleared_beats:
  "(\<lambda>a b. context_step R a b \<and> prefix (node_got b) ys)\<^sup>*\<^sup>* (cleared_node n) (flagged_node k n)"
proof (induction k)
  case 0
  then show ?case by (simp add: cleared_node_def flagged_node_def)
next
  case (Suc k)
  let ?n = "flagged_node k n"
  have "context_step R ?n (?n\<lparr>node_object := heartbeat (node_object ?n)\<rparr>)" by (rule context_step.beats)
  moreover have "?n\<lparr>node_object := heartbeat (node_object ?n)\<rparr> = flagged_node (Suc k) n"
    by (simp add: flagged_node_def heartbeat_def replicate_append_same)
  ultimately have "context_step R ?n (flagged_node (Suc k) n) \<and> prefix (node_got (flagged_node (Suc k) n)) ys"
    by (simp add: flagged_node_def del: replicate.simps)
  with Suc show ?case by (rule rtranclp.rtrancl_into_rtrancl)
qed

lemma flags_replicate: "set xs \<subseteq> {x} \<Longrightarrow> xs = replicate (length xs) x"
  by (induction xs) auto

lemma handshaken:
  assumes hs: "handshaking R e0 i j t" and "conn e0 = SFP_CONNECT_STATE_DISCONNECTED"
    and "isConnected (node_object (alice t))" and "isConnected (node_object (bob t))"
  shows "i = 1" "j = 2" "set (under_way (aliceToBob t)) \<subseteq> {SFP_FLAG}" "set (under_way (bobToAlice t)) \<subseteq> {SFP_FLAG}"
    "abs_sfp R (mContext (node_object (alice t))) = (fresh_endpoint SFP_CONNECT_STATE_CONNECTED, idle)"
    "abs_sfp R (mContext (node_object (bob t))) = (fresh_endpoint SFP_CONNECT_STATE_CONNECTED, idle)"
proof -
  have a: "abs_sfp R (mContext (node_object (alice t))) = (alice_endpoint i, fst (deframe idle (node_got (alice t))))"
    "snd (deframe idle (node_got (alice t))) = map Some (take i [SYN SFP_SEQ_SYN1])"
    "on_line (take (Suc i) greeting) (node_put (alice t))" "i \<le> 1" "carries (bobToAlice t) (bob t) (alice t)"
    and b: "abs_sfp R (mContext (node_object (bob t))) = (bob_endpoint e0 j, fst (deframe idle (node_got (bob t))))"
    "snd (deframe idle (node_got (bob t))) = map Some (take j greeting)"
    "on_line (take j [SYN SFP_SEQ_SYN1]) (node_put (bob t))" "j \<le> 2" "carries (aliceToBob t) (alice t) (bob t)"
    using hs by (simp_all add: handshaking_def)
  have "conn (fst (abs_sfp R (mContext (node_object (alice t))))) = SFP_CONNECT_STATE_CONNECTED"
    "conn (fst (abs_sfp R (mContext (node_object (bob t))))) = SFP_CONNECT_STATE_CONNECTED"
    using assms(3,4) by (simp_all add: abs_sfp_def isConnected_def sfpIsConnected_def endpoint_simps)
  then have "conn (alice_endpoint i) = SFP_CONNECT_STATE_CONNECTED" "conn (bob_endpoint e0 j) = SFP_CONNECT_STATE_CONNECTED"
    by (simp_all add: a(1) b(1))
  then show i: "i = 1" and j: "j = 2"
    using a(4) b(4) assms(2) by (auto simp: alice_endpoint_def bob_endpoint_def fresh_endpoint_def split: if_splits)
  have put: "node_put (alice t) = node_got (bob t) @ under_way (aliceToBob t)"
    "node_put (bob t) = node_got (alice t) @ under_way (bobToAlice t)"
    using a(5) b(5) by (auto simp: carries_def)
  from rest_flags [OF a(3) frames_ok(2) put(1)] b(2) i j
  have "set (under_way (aliceToBob t)) \<subseteq> {SFP_FLAG}" "fst (deframe idle (node_got (bob t))) = idle"
    by (simp_all add: numeral_2_eq_2)
  moreover from rest_flags [OF b(3) frames_ok(3) put(2)] a(2) i j
  have "set (under_way (bobToAlice t)) \<subseteq> {SFP_FLAG}" "fst (deframe idle (node_got (alice t))) = idle" by simp_all
  ultimately show "set (under_way (aliceToBob t)) \<subseteq> {SFP_FLAG}" "set (under_way (bobToAlice t)) \<subseteq> {SFP_FLAG}"
    "abs_sfp R (mContext (node_object (alice t))) = (fresh_endpoint SFP_CONNECT_STATE_CONNECTED, idle)"
    "abs_sfp R (mContext (node_object (bob t))) = (fresh_endpoint SFP_CONNECT_STATE_CONNECTED, idle)"
    using a(1) b(1) i j by (simp_all add: alice_endpoint_def bob_endpoint_def)
qed

lemma cleared_opens:
  assumes "context_ok R threadsafe (node_object n)" and "isConnected (node_object n)"
    and "abs_sfp R (mContext (node_object n)) = (fresh_endpoint SFP_CONNECT_STATE_CONNECTED, idle)"
  shows "context_opens R (cleared_node n)"
proof -
  have "context_ok R threadsafe ((node_object n)\<lparr>signals := []\<rparr>)" using assms(1) by (simp add: context_ok_def)
  with assms(2,3) show ?thesis
    by (auto simp: context_opens_def cleared_node_def isConnected_def abs_sfp_def)
qed

lemma handshaken_test:
  assumes hs: "handshaking R e0 i j t" and e0: "conn e0 = SFP_CONNECT_STATE_DISCONNECTED"
    and connected: "isConnected (node_object (alice t))" "isConnected (node_object (bob t))"
  obtains t0 t' where "test_opens R t0" "test_inv R t0 t'" "same_test t' t"
    "node_posted (alice t') = []"
proof -
  note h = handshaken [OF hs e0 connected]
  have ok: "\<exists>threadsafe. context_ok R threadsafe (node_object (alice t))" "\<exists>threadsafe. context_ok R threadsafe (node_object (bob t))"
    "node_given (alice t) = []" "sentMessages t = []" "\<not> test_failed t" using hs by (simp_all add: handshaking_def)
  let ?ab = "under_way (aliceToBob t)" and ?ba = "under_way (bobToAlice t)"
  let ?acl = "cleared_node (alice t)" and ?bcl = "cleared_node (bob t)"
  let ?a = "flagged_node (length ?ab) (alice t)" and ?b = "flagged_node (length ?ba) (bob t)"
  define t0 where "t0 = \<lparr>alice = ?acl, aliceToBob = new_medium 0 0, bobToAlice = new_medium 0 0, bob = ?bcl,
    sentMessages = [], test_failed = False\<rparr>"
  define t' where "t' = \<lparr>alice = ?a, aliceToBob = (aliceToBob t)\<lparr>medium_output := []\<rparr>,
    bobToAlice = (bobToAlice t)\<lparr>medium_output := []\<rparr>, bob = ?b, sentMessages = [], test_failed = False\<rparr>"
  have "context_opens R ?acl" "context_opens R ?bcl"
    using ok(1,2) cleared_opens connected h(5,6) by blast+
  moreover have "in_step (mContext (node_object (alice t))) (mContext (node_object (bob t)))"
    using h(5,6) by (simp add: in_step_def abs_sfp_def abs_endpoint_def fresh_endpoint_def)
  ultimately have opens: "test_opens R t0"
    by (simp add: test_opens_def t0_def cleared_node_def new_medium_def under_way_def calculateCapacity_def)
  have "contexts_linked R (?acl, ?bcl) (?a, ?bcl)" by (rule left_alone [OF cleared_beats linked.start])
  then have "contexts_linked R (?acl, ?bcl) (?a, ?b)" by (rule right_alone [OF cleared_beats])
  moreover have "node_put ?a = ?ab" "node_put ?b = ?ba"
    using flags_replicate [OF h(3)] flags_replicate [OF h(4)] by simp_all
  moreover have "under_way (m\<lparr>medium_output := []\<rparr>) = under_way m" for m by (simp add: under_way_def)
  ultimately have "test_inv R t0 t'"
    by (simp add: test_inv_def objects_linked_def t0_def t'_def carries_def)
  moreover have "same_test t' t"
    using ok(3-5) by (simp add: same_test_def t'_def same_line_def)
  moreover have "node_posted (alice t') = []" by (simp add: t'_def)
  ultimately show thesis using that opens by blast
qed

section \<open>From the beginning\<close>

text \<open>The objects of \<^verbatim>\<open>main\<close>, constructed in the memory of \<open>A\<close> and \<open>B\<close>.\<close>

definition new_test :: "bool \<Rightarrow> 'h Context \<Rightarrow> 'h Context \<Rightarrow> rat \<Rightarrow> nat \<Rightarrow> 'h echo_test" where
  "new_test threadsafe A B propagationDelay baud =
     \<lparr>alice = \<lparr>node_object = initialize threadsafe A, node_got = [], node_posted = []\<rparr>,
      aliceToBob = new_medium propagationDelay baud, bobToAlice = new_medium propagationDelay baud,
      bob = \<lparr>node_object = initialize threadsafe B, node_got = [], node_posted = []\<rparr>,
      sentMessages = [], test_failed = False\<rparr>"

definition raw_object :: "('h, 'z) ringbuffer_scheme \<Rightarrow> 'h Context \<Rightarrow> bool" where
  "raw_object R C \<longleftrightarrow> memory_ok R (mContext C) \<and> \<not> mTransmitterMutex C \<and> signals C = []"

lemma initialized_object:
  assumes "ringbuffer_laws R" and "raw_object R C"
  shows "context_ok R threadsafe (initialize threadsafe C)" "signals (initialize threadsafe C) = []"
    "abs_receiver (mContext (initialize threadsafe C)) = idle"
    "connectState (mContext (initialize threadsafe C)) = SFP_CONNECT_STATE_DISCONNECTED"
  using assms initialize_ok [of R C threadsafe]
  by (simp_all add: raw_object_def) (simp_all add: initialize_def setup_defs abs_receiver_def idle_def Let_def)

lemma test_connects:
  assumes laws: "ringbuffer_laws R" and raw: "raw_object R A" "raw_object R B" and ev: "event_ok (draws, To_alice)"
  shows "\<exists>t e0. test_step R 0 0 (new_test threadsafe A B d baud) (draws, Connect) = Inr t
    \<and> conn e0 = SFP_CONNECT_STATE_DISCONNECTED \<and> handshaking R e0 0 0 t"
proof -
  let ?A = "initialize threadsafe A" and ?B = "initialize threadsafe B" and ?t = "new_test threadsafe A B d baud"
  let ?e0 = "abs_endpoint R (mContext ?B)"
  note A = initialized_object [OF laws raw(1), of threadsafe] and B = initialized_object [OF laws raw(2), of threadsafe]
  have "on_call (abs_sfp R (mContext ?A)) CallConnect
      = ((fresh_endpoint SFP_CONNECT_STATE_SENT_SYN0, idle), [SYN SFP_SEQ_SYN0], [])"
    by (simp add: abs_sfp_def on_connect_def fresh_endpoint_def abs_endpoint_def)
  from contexts.step_ok [OF A(1) _ this] obtain C where C: "context_connect R ?A = Inr C" "context_ok R threadsafe C"
    "abs_sfp R (mContext C) = (fresh_endpoint SFP_CONNECT_STATE_SENT_SYN0, idle)"
    "context_shows ?A C [SYN SFP_SEQ_SYN0] []" by auto
  let ?a = "(alice ?t)\<lparr>node_object := C\<rparr>"
  have put: "node_put ?a = wire [SYN SFP_SEQ_SYN0]" "node_given ?a = []" "node_put (alice ?t) = []" "node_put (bob ?t) = []"
    using C(4) A(2) B(2) by (auto simp: context_shows_def node_put_def node_given_def new_test_def)
  have "carries (aliceToBob ?t) (alice ?t) (bob ?t)"
    using put(3) by (simp add: carries_def new_test_def new_medium_def under_way_def)
  then have "carries (put_out 0 0 draws (alice ?t) ?a (aliceToBob ?t)) ?a (bob ?t)"
    using put_out_carries [of draws "alice ?t" ?a "aliceToBob ?t" "bob ?t"] ev put(3) by simp
  moreover have "carries (bobToAlice ?t) (bob ?t) ?a"
    using put(4) by (simp add: carries_def new_test_def new_medium_def under_way_def)
  moreover have "on_line (take (Suc 0) greeting) (wire [SYN SFP_SEQ_SYN0])" unfolding greeting_def by (simp del: wire_simps)
  ultimately have "handshaking R ?e0 0 0 (?t\<lparr>alice := ?a, aliceToBob := put_out 0 0 draws (alice ?t) ?a (aliceToBob ?t)\<rparr>)"
    using C(2,3) B put by (auto simp: handshaking_def new_test_def abs_sfp_def alice_endpoint_def bob_endpoint_def on_line.silence)
  moreover have "test_step R 0 0 ?t (draws, Connect)
      = Inr (?t\<lparr>alice := ?a, aliceToBob := put_out 0 0 draws (alice ?t) ?a (aliceToBob ?t)\<rparr>)"
    using C(1) by (simp add: test_step.simps new_test_def Let_def)
  moreover have "conn ?e0 = SFP_CONNECT_STATE_DISCONNECTED" using B(4) by (simp add: abs_endpoint_def)
  ultimately show ?thesis by blast
qed

text \<open>
  From their construction on: Alice connects, and whatever the turns of the program and the
  media, every call returns; once both are connected, with flags that keep the lines alive
  under way or not, the test can begin, and never fails.
\<close>

theorem echo_test_from_start:
  assumes "ringbuffer_laws R" and "raw_object R A" and "raw_object R B"
    and "event_ok (draws, To_alice)" and "\<forall>ev \<in> set evs. no_call ev"
  shows "\<exists>t1. run_test R 0 0 (new_test threadsafe A B d baud) ((draws, Connect) # evs) = Inr t1 \<and> \<not> test_failed t1
    \<and> (isConnected (node_object (alice t1)) \<and> isConnected (node_object (bob t1)) \<longrightarrow>
        (\<forall>evs'. (\<forall>ev \<in> set evs'. event_ok ev) \<longrightarrow>
          (\<exists>t. run_test R 0 0 t1 evs' = Inr t \<and> \<not> test_failed t
            \<and> concat (map sent_in evs') = node_given (alice t) @ sentMessages t)))"
proof -
  obtain t e0 where t: "test_step R 0 0 (new_test threadsafe A B d baud) (draws, Connect) = Inr t"
    "conn e0 = SFP_CONNECT_STATE_DISCONNECTED" "handshaking R e0 0 0 t"
    using test_connects [OF assms(1-4)] by blast
  from handshaking_run [OF t(3) assms(5)] obtain t1 i j where t1: "run_test R 0 0 t evs = Inr t1" "handshaking R e0 i j t1"
    by blast
  have passes: "\<exists>u. run_test R 0 0 t1 evs' = Inr u \<and> \<not> test_failed u
      \<and> concat (map sent_in evs') = node_given (alice u) @ sentMessages u"
    if connected: "isConnected (node_object (alice t1))" "isConnected (node_object (bob t1))"
      and ok: "\<forall>ev \<in> set evs'. event_ok ev" for evs'
  proof -
    obtain t0 t' where t': "test_opens R t0" "test_inv R t0 t'" "same_test t' t1" "node_posted (alice t') = []"
      using handshaken_test [OF t1(2) t(2) connected] .
    obtain u' where u': "run_test R 0 0 t' evs' = Inr u'" "test_inv R t0 u'" using run_test_ok [OF t'(1,2) ok] by blast
    from run_same [OF t'(3) u'(1)] obtain u where u: "run_test R 0 0 t1 evs' = Inr u" "same_test u' u" by blast
    have "concat (map sent_in evs') = node_given (alice u') @ sentMessages u'" "\<not> test_failed u'"
      using run_test_posted [OF t'(1,2) ok u'(1)] t'(4) u'(2) by (simp_all add: test_inv_def)
    with u show ?thesis by (auto simp: same_test_def)
  qed
  have "run_test R 0 0 (new_test threadsafe A B d baud) ((draws, Connect) # evs) = Inr t1"
    using t(1) t1(1) by (simp add: run_test_def)
  moreover have "\<not> test_failed t1" using t1(2) by (simp add: handshaking_def)
  ultimately show ?thesis using passes by blast
qed

lemma arrived_frames:
  assumes "arrived fs xs" and "\<forall>f \<in> set fs. frame_ok f"
  shows "length fs \<le> length (snd (deframe idle xs))"
proof -
  obtain ys zs where ys: "on_line fs ys" "xs = ys @ zs" using assms(1) by (auto simp: arrived_def elim: prefixE)
  then have "map Some fs = snd (deframe idle ys)" using on_line_deframe [OF _ assms(2)] by simp
  then show ?thesis unfolding ys(2) deframe_snd_append by (metis length_append length_map le_add1)
qed

text \<open>One side has heard what the other had put out, when the medium has gone through enough cycles.\<close>

lemma bob_heard:
  assumes "handshaking R e0 i j t" and "run_test R 0 0 t evs = Inr t'" and "handshaking R e0 i' j' t'"
    and "length (places (aliceToBob t)) \<le> length (filter cycles_to_bob evs)"
  shows "Suc i \<le> j'"
proof -
  have "\<not> test_failed t'" using assms(3) by (simp add: handshaking_def)
  from run_test_media(1) [OF assms(2) this ahead_start ahead_start] assms(4)
  have "prefix (node_put (alice t)) (node_got (bob t'))"
    using carried_since [OF handshaking_lines(1) [OF assms(1)] handshaking_lines(1) [OF assms(3)]] by simp
  moreover have "on_line (take (Suc i) greeting) (node_put (alice t))" using assms(1) by (simp add: handshaking_def)
  ultimately have "arrived (take (Suc i) greeting) (node_got (bob t'))" unfolding arrived_def by blast
  from arrived_frames [OF this frames_ok(2)] assms(1,3) show ?thesis by (simp add: handshaking_def greeting_def)
qed

lemma alice_heard:
  assumes "handshaking R e0 i j t" and "run_test R 0 0 t evs = Inr t'" and "handshaking R e0 i' j' t'" and "0 < j"
    and "length (places (bobToAlice t)) \<le> length (filter cycles_to_alice evs)"
  shows "i' = 1"
proof -
  have "\<not> test_failed t'" using assms(3) by (simp add: handshaking_def)
  from run_test_media(2) [OF assms(2) this ahead_start ahead_start] assms(5)
  have "prefix (node_put (bob t)) (node_got (alice t'))"
    using carried_since [OF handshaking_lines(2) [OF assms(1)] handshaking_lines(2) [OF assms(3)]] by simp
  moreover have "on_line (take j [SYN SFP_SEQ_SYN1]) (node_put (bob t))" using assms(1) by (simp add: handshaking_def)
  ultimately have "arrived (take j [SYN SFP_SEQ_SYN1]) (node_got (alice t'))" unfolding arrived_def by blast
  from arrived_frames [OF this frames_ok(3)] assms(1,3,4) show ?thesis by (auto simp: handshaking_def)
qed

text \<open>
  The loops of the program that wait for the connection end: when the medium to Bob has gone
  through as many cycles as it had places, then the one to Alice, and again the one to Bob,
  both objects are connected, whatever else has taken its turn.
\<close>

theorem echo_test_connects:
  assumes "ringbuffer_laws R" and "raw_object R A" and "raw_object R B"
    and "event_ok (draws, To_alice)" and "\<forall>ev \<in> set (evs1 @ evs2 @ evs3). no_call ev"
    and "run_test R 0 0 (new_test threadsafe A B d baud) [(draws, Connect)] = Inr t"
    and "run_test R 0 0 t evs1 = Inr t1" and "length (places (aliceToBob t)) \<le> length (filter cycles_to_bob evs1)"
    and "run_test R 0 0 t1 evs2 = Inr t2" and "length (places (bobToAlice t1)) \<le> length (filter cycles_to_alice evs2)"
    and "length (places (aliceToBob t2)) \<le> length (filter cycles_to_bob evs3)"
  shows "\<exists>t3. run_test R 0 0 t2 evs3 = Inr t3
    \<and> isConnected (node_object (alice t3)) \<and> isConnected (node_object (bob t3))"
proof -
  have ok: "\<forall>ev \<in> set evs1. no_call ev" "\<forall>ev \<in> set evs2. no_call ev" "\<forall>ev \<in> set evs3. no_call ev" using assms(5) by auto
  obtain e0 where hs: "handshaking R e0 0 0 t"
    using test_connects [OF assms(1-4), where threadsafe = threadsafe and d = d and baud = baud] assms(6) by (auto simp: run_test_def)
  obtain i1 j1 where hs1: "handshaking R e0 i1 j1 t1" using handshaking_run [OF hs ok(1)] assms(7) by auto
  obtain i2 j2 where hs2: "handshaking R e0 i2 j2 t2" using handshaking_run [OF hs1 ok(2)] assms(9) by auto
  obtain t3 i3 j3 where t3: "run_test R 0 0 t2 evs3 = Inr t3" "handshaking R e0 i3 j3 t3"
    using handshaking_run [OF hs2 ok(3)] by blast
  have "0 < j1" using bob_heard [OF hs assms(7) hs1 assms(8)] by simp
  then have "i2 = 1" by (rule alice_heard [OF hs1 assms(9) hs2 _ assms(10)])
  then have j3: "j3 = 2" using bob_heard [OF hs2 t3(1,2) assms(11)] t3(2) by (simp add: handshaking_def)
  have "\<forall>f \<in> set (take (Suc i3) greeting). frame_ok f" by (rule frames_ok)
  from on_line_deframe [OF _ this] t3(2) have line: "snd (deframe idle (node_put (alice t3))) = map Some (take (Suc i3) greeting)"
    by (auto simp: handshaking_def)
  obtain ys where "node_put (alice t3) = node_got (bob t3) @ ys"
    using carries_prefix [OF handshaking_lines(1) [OF t3(2)]] by (auto elim: prefixE)
  with line have "length (snd (deframe idle (node_got (bob t3)))) \<le> length (take (Suc i3) greeting)"
    by (metis deframe_snd_append length_append length_map le_add1)
  then have "i3 \<noteq> 0" using t3(2) j3 by (auto simp: handshaking_def greeting_def)
  then have "conn (abs_endpoint R (mContext (node_object (alice t3)))) = SFP_CONNECT_STATE_CONNECTED"
    "conn (abs_endpoint R (mContext (node_object (bob t3)))) = SFP_CONNECT_STATE_CONNECTED"
    using t3(2) j3 by (auto simp: handshaking_def abs_sfp_def alice_endpoint_def bob_endpoint_def fresh_endpoint_def)
  then show ?thesis using t3(1) by (auto simp: isConnected_def sfpIsConnected_def endpoint_simps)
qed

text \<open>The hypotheses about the memory of the objects can hold.\<close>

lemma example_raw_object: "raw_object list_ringbuffer example_object"
  using raw_memory_ok by (simp add: raw_object_def example_object_def)

end
