(* ===== verification/Sfp_Debug.thy ===== *)
theory Sfp_Debug
  imports Sfp_Context
begin

text \<open>
  The debugging aids, compiled with \<^verbatim>\<open>SFP_CONFIG_DEBUG\<close>, \<^verbatim>\<open>WARN\<close> and \<^verbatim>\<open>ERROR\<close>: the names of
  contexts, the names of states and frame types, and the texts that are logged.
\<close>

section \<open>Numbers as text\<close>

text \<open>\<^verbatim>\<open>%d\<close> of a value that is not negative, \<^verbatim>\<open>%02x\<close>.\<close>

fun digits :: "nat \<Rightarrow> nat \<Rightarrow> nat list" where
  "digits b n = (if b < 2 \<or> n < b then [n] else digits b (n div b) @ [n mod b])"

declare digits.simps [simp del]

definition digit_char :: "nat \<Rightarrow> char" where
  "digit_char d = char_of (if d < 10 then 48 + d else 87 + d)"

definition dec :: "nat \<Rightarrow> string" where
  "dec n = map digit_char (digits 10 n)"

definition hex2 :: "nat \<Rightarrow> string" where
  "hex2 n = (let s = map digit_char (digits 16 n) in replicate (2 - length s) (CHR ''0'') @ s)"

lemma length_digits: "1 < b \<Longrightarrow> n < b ^ Suc k \<Longrightarrow> length (digits b n) \<le> Suc k"
proof (induction k arbitrary: n)
  case 0
  then show ?case by (subst digits.simps) simp
next
  case (Suc k)
  show ?case
  proof (cases "n < b")
    case True
    then show ?thesis by (subst digits.simps) simp
  next
    case False
    have "n div b < b ^ Suc k" using Suc.prems by (simp add: div_less_iff_less_mult mult.commute)
    then have "length (digits b (n div b)) \<le> Suc k" using Suc by blast
    with False Suc.prems show ?thesis by (subst digits.simps) simp
  qed
qed

lemma digits_bound: "1 < b \<Longrightarrow> \<forall>d \<in> set (digits b n). d < b"
proof (induction b n rule: digits.induct)
  case (1 b n)
  then show ?case by (cases "n < b") (simp_all add: digits.simps [of b n])
qed

text \<open>The digits determine the number.\<close>

lemma digits_value: "1 < b \<Longrightarrow> foldl (\<lambda>v d. b * v + d) 0 (digits b n) = n"
proof (induction b n rule: digits.induct)
  case (1 b n)
  then show ?case by (cases "n < b") (simp_all add: digits.simps [of b n])
qed

lemma digits_inject: "1 < b \<Longrightarrow> digits b m = digits b n \<longleftrightarrow> m = n"
  using digits_value by metis

section \<open>Names of states and frame types\<close>

text \<open>
  A value of an enumeration is an integer of 32 bits; values without a name are printed as
  numbers, into a buffer of 64 octets, which \<^verbatim>\<open>snprintf\<close> does not exceed.
\<close>

definition BUFSIZE :: nat where "BUFSIZE = 64"

definition snprintf :: "nat \<Rightarrow> string \<Rightarrow> string" where
  "snprintf n text = take (n - 1) text"

definition unknown :: "string \<Rightarrow> 32 word \<Rightarrow> string" where
  "unknown what s =
     ''(unknown '' @ what @ '' '' @ (if sint s < 0 then ''-'' else '''') @ dec (nat \<bar>sint s\<bar>)
       @ '' (0x'' @ hex2 (unat s) @ ''))''"

definition escapeStateToString :: "32 word \<Rightarrow> string" where
  "escapeStateToString s =
     (if s = 0 then ''SFP_ESCAPE_STATE_NORMAL''
      else if s = 1 then ''SFP_ESCAPE_STATE_ESCAPING''
      else snprintf BUFSIZE (unknown ''escape state'' s))"

definition frameStateToString :: "32 word \<Rightarrow> string" where
  "frameStateToString s =
     (if s = 0 then ''SFP_FRAME_STATE_NEW''
      else if s = 1 then ''SFP_FRAME_STATE_RECEIVING''
      else snprintf BUFSIZE (unknown ''frame state'' s))"

definition connectStateToString :: "32 word \<Rightarrow> string" where
  "connectStateToString s =
     (if s = 0 then ''SFP_CONNECT_STATE_DISCONNECTED''
      else if s = 1 then ''SFP_CONNECT_STATE_SENT_SYN0''
      else if s = 2 then ''SFP_CONNECT_STATE_SENT_SYN1''
      else if s = 3 then ''SFP_CONNECT_STATE_CONNECTED''
      else snprintf BUFSIZE (unknown ''connect state'' s))"

definition frameTypeToString :: "32 word \<Rightarrow> string" where
  "frameTypeToString t =
     (if t = 0 then ''SFP_FRAME_USR''
      else if t = 1 then ''SFP_FRAME_RTX''
      else if t = 2 then ''SFP_FRAME_NAK''
      else if t = 3 then ''SFP_FRAME_SYN''
      else snprintf BUFSIZE (unknown ''frame type'' t))"

lemma length_unknown:
  assumes "length what \<le> 14"
  shows "length (unknown what s) \<le> 51"
proof -
  have "\<bar>sint s\<bar> < 10 ^ Suc 9"
    using sint_greater_eq [of s] sint_less [of s] by simp
  then have d: "length (dec (nat \<bar>sint s\<bar>)) \<le> 10"
    using length_digits [of 10 "nat \<bar>sint s\<bar>" 9] by (simp add: dec_def nat_less_iff)
  have "unat s < 16 ^ Suc 7" using unsigned_less [of s, where 'a = nat] by simp
  then have "length (digits 16 (unat s)) \<le> 8" using length_digits [of 16 "unat s" 7] by simp
  then have "length (hex2 (unat s)) \<le> 8" by (simp add: hex2_def Let_def)
  with d assms show ?thesis by (cases "sint s < 0") (simp_all add: unknown_def)
qed

text \<open>No text is cut off.\<close>

lemma snprintf_unknown: "length what \<le> 14 \<Longrightarrow> snprintf BUFSIZE (unknown what s) = unknown what s"
  using length_unknown [of what s] by (simp add: snprintf_def BUFSIZE_def)

lemma unknown_printed_whole:
  "s \<notin> {0, 1} \<Longrightarrow> escapeStateToString s = unknown ''escape state'' s"
  "s \<notin> {0, 1} \<Longrightarrow> frameStateToString s = unknown ''frame state'' s"
  "s \<notin> {0, 1, 2, 3} \<Longrightarrow> connectStateToString s = unknown ''connect state'' s"
  "s \<notin> {0, 1, 2, 3} \<Longrightarrow> frameTypeToString s = unknown ''frame type'' s"
  by (simp_all add: escapeStateToString_def frameStateToString_def connectStateToString_def frameTypeToString_def
      snprintf_unknown)

text \<open>The names of the frame types tell them apart.\<close>

lemma frame_types_named:
  "frameTypeToString (ucast (frametype_code t)) = frameTypeToString (ucast (frametype_code u)) \<longleftrightarrow> t = u"
  by (cases t; cases u) (simp_all add: frameTypeToString_def)

section \<open>The name of a context\<close>

definition SFP_CONFIG_MAX_DEBUG_NAME_SIZE :: nat where
  "SFP_CONFIG_MAX_DEBUG_NAME_SIZE = 256"

text \<open>A context as it is compiled for debugging: the memory of its name is one more member.\<close>

record 'h sfp_debug =
  sfp_of :: "'h sfp"
  debugName :: "u8 list"

definition named_ok :: "'h sfp_debug \<Rightarrow> bool" where
  "named_ok c \<longleftrightarrow> length (debugName c) = SFP_CONFIG_MAX_DEBUG_NAME_SIZE"

text \<open>A C string ends before the first NUL.\<close>

definition c_str :: "u8 list \<Rightarrow> u8 list" where
  "c_str s = takeWhile (\<lambda>x. x \<noteq> 0) s"

definition sfpInit_debug :: "'h sfp_debug \<Rightarrow> 'h sfp_debug" where
  "sfpInit_debug c = c\<lparr>debugName := (debugName c)[0 := 0], sfp_of := sfpInit (sfp_of c)\<rparr>"

definition sfpSetDebugName :: "'h sfp_debug \<Rightarrow> u8 list \<Rightarrow> 'h sfp_debug res" where
  "sfpSetDebugName c name =
     assertR (length (c_str name) < SFP_CONFIG_MAX_DEBUG_NAME_SIZE)
       (Inr (c\<lparr>debugName := c_str name @ 0 # drop (Suc (length (c_str name))) (debugName c)\<rparr>))"

text \<open>\<^verbatim>\<open>set_debug_name\<close> of the stream and \<^verbatim>\<open>setDebugName\<close> of the queue pass on \<^verbatim>\<open>c_str ()\<close>.\<close>

definition set_debug_name :: "'h sfp_debug \<Rightarrow> u8 list \<Rightarrow> 'h sfp_debug res" where
  "set_debug_name c name = sfpSetDebugName c (c_str name)"

definition setDebugName :: "'h sfp_debug \<Rightarrow> u8 list \<Rightarrow> 'h sfp_debug res" where
  "setDebugName c name = sfpSetDebugName c (c_str name)"

text \<open>\<^verbatim>\<open>Context::initialize\<close> names its context after it is initialised.\<close>

definition initialize_debug :: "bool \<Rightarrow> u8 list \<Rightarrow> 'h Context \<Rightarrow> 'h sfp_debug \<Rightarrow> ('h Context \<times> 'h sfp_debug) res" where
  "initialize_debug threadsafe mDebugName C c =
     (let C = initialize threadsafe (C\<lparr>mContext := sfp_of c\<rparr>);
          c = (sfpInit_debug c)\<lparr>sfp_of := mContext C\<rparr>
      in bindR (sfpSetDebugName c (c_str mDebugName)) (\<lambda>c. Inr (C, c)))"

definition debug_name :: "'h sfp_debug \<Rightarrow> u8 list" where
  "debug_name c = c_str (debugName c)"

lemma c_str_idem [simp]: "c_str (c_str s) = c_str s"
  by (simp add: c_str_def takeWhile_idem)

lemma c_str_zero [simp]: "c_str (c_str s @ 0 # xs) = c_str s"
  by (induction s) (auto simp: c_str_def)

lemma sfpSetDebugName_ok:
  assumes "named_ok c" and "length (c_str name) < SFP_CONFIG_MAX_DEBUG_NAME_SIZE"
  obtains c' where "sfpSetDebugName c name = Inr c'" "debug_name c' = c_str name" "sfp_of c' = sfp_of c" "named_ok c'"
proof -
  let ?c = "c\<lparr>debugName := c_str name @ 0 # drop (Suc (length (c_str name))) (debugName c)\<rparr>"
  have "sfpSetDebugName c name = Inr ?c" using assms(2) by (simp add: sfpSetDebugName_def assertR_def)
  moreover have "debug_name ?c = c_str name" by (simp add: debug_name_def)
  moreover have "named_ok ?c" using assms by (simp add: named_ok_def)
  ultimately show ?thesis using that [of ?c] by simp
qed

lemma init_forgets_name: "named_ok c \<Longrightarrow> debug_name (sfpInit_debug c) = [] \<and> named_ok (sfpInit_debug c)"
  by (cases "debugName c") (simp_all add: sfpInit_debug_def debug_name_def c_str_def named_ok_def SFP_CONFIG_MAX_DEBUG_NAME_SIZE_def)

text \<open>
  The name that was set is the context's name, up to its first NUL, and nothing else changes;
  256 characters are too many, and fail the assertion.
\<close>

lemma set_debug_name_ok:
  assumes "named_ok c" and "length (c_str name) < SFP_CONFIG_MAX_DEBUG_NAME_SIZE"
  obtains c' where "set_debug_name c name = Inr c'" "debug_name c' = c_str name" "sfp_of c' = sfp_of c" "named_ok c'"
  using sfpSetDebugName_ok [of c "c_str name"] assms by (auto simp: set_debug_name_def)

lemma long_name_refused:
  "SFP_CONFIG_MAX_DEBUG_NAME_SIZE \<le> length (c_str name) \<Longrightarrow> set_debug_name c name = Inl AssertFailed"
  by (simp add: set_debug_name_def sfpSetDebugName_def assertR_def)

text \<open>
  The handshakes of the stream and of the message queue begin with \<^verbatim>\<open>sfpInit\<close>: the name that
  the client has set before is gone.
\<close>

lemma handshake_forgets_name:
  assumes "named_ok c" and "set_debug_name c name = Inr c'"
  shows "debug_name (sfpInit_debug c') = []"
proof -
  have "length (c_str name) < SFP_CONFIG_MAX_DEBUG_NAME_SIZE"
    using assms(2) by (simp add: set_debug_name_def sfpSetDebugName_def assertR_def split: if_splits)
  from set_debug_name_ok [OF assms(1) this] assms(2) have "named_ok c'" by auto
  then show ?thesis by (simp add: init_forgets_name)
qed

text \<open>\<^verbatim>\<open>sfp::Context\<close> names its context after the initialisation, and keeps the name.\<close>

lemma initialize_keeps_name:
  assumes "named_ok c" and "length (c_str name) < SFP_CONFIG_MAX_DEBUG_NAME_SIZE"
  shows "\<exists>c'. initialize_debug threadsafe name C c = Inr (initialize threadsafe (C\<lparr>mContext := sfp_of c\<rparr>), c')
    \<and> debug_name c' = c_str name"
proof -
  let ?c = "(sfpInit_debug c)\<lparr>sfp_of := mContext (initialize threadsafe (C\<lparr>mContext := sfp_of c\<rparr>))\<rparr>"
  have "named_ok ?c" using init_forgets_name [OF assms(1)] by (simp add: named_ok_def)
  then obtain c' where "sfpSetDebugName ?c (c_str name) = Inr c'" "debug_name c' = c_str name"
    using sfpSetDebugName_ok [of ?c "c_str name"] assms(2) by auto
  then show ?thesis by (simp add: initialize_debug_def Let_def)
qed

section \<open>What is logged\<close>

text \<open>
  \<^verbatim>\<open>boost::log::dump\<close> is a parameter: how octets are shown. A \<^verbatim>\<open>uint8_t\<close> that is not
  converted is streamed as the character of that code.
\<close>

definition name_text :: "'h sfp_debug \<Rightarrow> string" where
  "name_text c = ''(sfp) DEBUG('' @ map (\<lambda>x. char_of (unat x)) (debug_name c) @ '')''"

definition frame_text :: "(u8 list \<Rightarrow> string) \<Rightarrow> u8 \<Rightarrow> u8 list \<Rightarrow> string" where
  "frame_text dump hdr bs =
     frameTypeToString (ucast (frametype_code (getFrameType hdr)))
       @ '' | SEQ<'' @ dec (unat (getFrameSeq hdr)) @ ''>) | '' @ dump bs"

definition log_received :: "(u8 list \<Rightarrow> string) \<Rightarrow> 'h sfp_debug \<Rightarrow> string" where
  "log_received dump c =
     name_text c @ '': Received frame: (''
       @ frame_text dump (header (rx (sfp_of c))) (payload (packet (rx (sfp_of c))))"

definition log_sent :: "(u8 list \<Rightarrow> string) \<Rightarrow> 'h sfp_debug \<Rightarrow> u8 \<Rightarrow> SFPpacket option \<Rightarrow> string" where
  "log_sent dump c hdr pkt =
     name_text c @ '': Sent frame: ('' @ frame_text dump hdr (case pkt of None \<Rightarrow> [] | Some p \<Rightarrow> payload p)"

definition log_connected :: "'h sfp_debug \<Rightarrow> string" where
  "log_connected c = name_text c @ '': Connected!''"

definition log_nak :: "'h sfp_debug \<Rightarrow> u8 \<Rightarrow> string" where
  "log_nak c seq =
     name_text c @ '': received NAK<'' @ [char_of (unat seq)] @ ''> for SEQ<''
       @ [char_of (unat (tx_seq (tx (sfp_of c))))] @ ''>.''"

definition log_underrun :: "nat \<Rightarrow> string" where
  "log_underrun fastforward =
     ''(sfp) ERROR: '' @ dec (unat SFP_SEQ_RANGE - fastforward)
       @ '' outgoing frame(s) lost by history buffer underrun.''"

text \<open>
  The number in the report of an underrun is the number of packets that the peer asks for
  and that have left the history: the oldest one there is the \<open>k\<close>-th after the requested.
\<close>

lemma lost_frames_counted:
  assumes "seq_ok q" and "0 < k" and "k < 64" and "t = (nextSeq ^^ n) ((nextSeq ^^ k) q)"
  shows "log_underrun (unat (fastforward_of q t n)) =
    ''(sfp) ERROR: '' @ dec k @ '' outgoing frame(s) lost by history buffer underrun.''"
proof -
  let ?s = "(nextSeq ^^ k) q"
  have "(nextSeq ^^ (64 - k)) ?s = (nextSeq ^^ 64) q"
    using assms(3) by (simp flip: funpow_add [THEN fun_cong, unfolded comp_def])
  moreover have "unat ((nextSeq ^^ 64) q) = unat q"
    using unat_funpow_nextSeq [OF assms(1), of 64] assms(1) by (simp add: seq_ok_unat)
  then have "(nextSeq ^^ 64) q = q" by (simp only: unsigned_word_eqI)
  ultimately have "unat (fastforward_of q t n) = 64 - k"
    using fastforward_window [of ?s "64 - k" n] assms by simp
  then show ?thesis using assms(3) by (simp add: log_underrun_def sfp_consts)
qed

text \<open>
  The report of a NAK shows its numbers as characters, mostly control characters: where the
  other reports show \<open>5\<close>, it has the character with code 5.
\<close>

lemma nak_logged_raw:
  assumes "unat q < 48"
  shows "\<exists>x. log_nak c q = name_text c @ '': received NAK<'' @ x @ ''> for SEQ<''
      @ [char_of (unat (tx_seq (tx (sfp_of c))))] @ ''>.'' \<and> x \<noteq> dec (unat q)"
proof -
  have "[char_of (unat q)] \<noteq> dec (unat q)"
  proof
    assume eq: "[char_of (unat q)] = dec (unat q)"
    then obtain d where d: "digits 10 (unat q) = [d]" "char_of (unat q) = digit_char d" by (auto simp: dec_def)
    have "d < 10" using digits_bound [of 10 "unat q"] d(1) by simp
    then have "(of_char (digit_char d) :: nat) = 48 + d" by (simp add: digit_char_def)
    moreover have "(of_char (char_of (unat q)) :: nat) = unat q" using assms by simp
    ultimately show False using d(2) assms by simp
  qed
  then show ?thesis unfolding log_nak_def by blast
qed

end
