(* ===== verification/Spec2Isabelle.thy ===== *)
theory Spec2Isabelle
  imports Sfp_Connection Sfp_Calls Sfp_Reliable Sfp_Threads Sfp_EchoStart Sfp_Debug
begin

text \<open>
  A verification development for libsfp, the Serial Framing Protocol: a link layer that
  turns octets into messages, in order and without duplicates, over a serial line that may
  lose or damage octets; with two asynchronous front ends in C++.

  \<^bold>\<open>The parts and how they interact.\<close> The library proper
  (\<^verbatim>\<open>src/src/serial_framing_protocol.cpp\<close>, \<^verbatim>\<open>src/include/sfp/serial_framing_protocol.h\<close>) is a
  state in memory, \<^verbatim>\<open>SFPcontext\<close>, with three entry points: \<^verbatim>\<open>sfpConnect\<close>,
  \<^verbatim>\<open>sfpWritePacket\<close> and \<^verbatim>\<open>sfpDeliverOctet\<close>. It calls its client back to write octets, to
  deliver a message and to lock its transmitter. \<^verbatim>\<open>sfp::Context\<close>
  (\<^verbatim>\<open>context.hpp\<close>) wraps it into signals and slots; \<^verbatim>\<open>sfp::stream\<close> (\<^verbatim>\<open>stream.hpp\<close>) into a
  message stream with coroutines over any stream; \<^verbatim>\<open>sfp::asio::MessageQueue\<close>
  (\<^verbatim>\<open>asio/messagequeue.hpp\<close>) into a queue of messages with its own read and write pump.

  \<^bold>\<open>The theories.\<close>
  \<^item> \<open>Sfp_Prelude\<close>: faults as values (\<open>'a res\<close>), loops over inputs, \<open>safe\<close>, the hint
    collections, and the locale \<open>simulation\<close> of a machine by a specification.
  \<^item> \<open>Sfp_Crc\<close>: \<^verbatim>\<open>_crc_ccitt_update\<close> on words, equal to the bit-serial checksum; which
    bodies it accepts, which damage it detects.
  \<^item> \<open>Sfp_Types\<close>, \<open>Sfp_Setup\<close>: the structures, enumerations and constants of the header
    file, \<^verbatim>\<open>sfpInit\<close> and the setters; the history's ring buffer, which is not part of
    the repository, is a parameter with its contract (\<open>ringbuffer_laws\<close>).
  \<^item> \<open>Sfp_Transmitter\<close>, \<open>Sfp_History\<close>, \<open>Sfp_Receiver\<close>: the functions of the library, one
    definition each, with every assertion and array access a branch of the result.
    Calls of the client's callbacks are events appended to the context's trace.
  \<^item> \<open>Sfp_Protocol\<close>, \<open>Sfp_Framing\<close>, \<open>Sfp_Link\<close>: the abstract specification - an endpoint
    (connection state, numbers, history) that maps frames to frames and deliveries, and a
    receiver that maps octets to frames - and the proof that the library refines it.
  \<^item> \<open>Sfp_Api\<close>: runs of the three entry points in any order (\<open>reachable\<close>, \<open>run_calls\<close>).
  \<^item> \<open>Sfp_Session\<close>, \<open>Sfp_Connection\<close>, \<open>Sfp_Reliable\<close>, \<open>Sfp_Calls\<close>: what follows for one and
    for two endpoints: handshake, transfer, recovery from loss, damage and noise; the
    single calls on all their branches.
  \<^item> \<open>Sfp_Handlers\<close>: the receiver again, with what happens in its midst as arguments - what
    another thread does when the lock is released (\<open>other\<close>), and what the deliver callback
    does to the context (\<open>D\<close>); equal to the receiver of \<open>Sfp_Receiver\<close> when nothing happens.
    A callback that sends is as good as sending afterwards, one that connects is not.
    \<open>Sfp_Threads\<close>: a thread that sends while another one receives.
  \<^item> \<open>Sfp_Context\<close>: \<^verbatim>\<open>sfp::Context\<close>; signals are emitted in a list, the mutex is a flag.
  \<^item> \<open>Sfp_Error\<close>: \<^verbatim>\<open>sfp::Status\<close>, its error category, completions of asynchronous operations,
    and the locale \<open>coroutine\<close> for operations that suspend.
  \<^item> \<open>Sfp_Stream\<close>, \<open>Sfp_StreamOps\<close>, \<open>Sfp_StreamHandshake\<close>, \<open>Sfp_StreamSession\<close>,
    \<open>Sfp_StreamFaults\<close>: \<^verbatim>\<open>sfp::stream\<close>: its callback, \<^verbatim>\<open>deliver_input_sequence\<close>, its four
    operations as resumable machines; the handshake against any environment; a reader and
    a writer interleaved at their suspensions; what can break it.
  \<^item> \<open>Sfp_Queue\<close>: \<^verbatim>\<open>MessageQueueImpl\<close>: pumps, outbox, receive queue, handshake and keepalive.
    \<open>Sfp_QueueSafe\<close> has the invariant and what each part does to it, \<open>Sfp_QueueRun\<close> the
    machine of client calls and completions, \<open>Sfp_QueueSession\<close> its runs,
    \<open>Sfp_QueueHandshake\<close> the termination of the handshake, \<open>Sfp_QueueFaults\<close> the silent
    peer and two ways to break the queue, \<open>Sfp_QueueRefines\<close> the refinement of the library.
  \<^item> \<open>Sfp_Duplex\<close>: two ends that both send, over a link that delays (\<open>linked\<close>); the locale
    \<open>front_end\<close> is what an end promises, the locale \<open>link\<close> what follows for two of them.
    \<open>Sfp_Exchange\<close> shows that streams and message queues are such ends and takes the
    consequences for two programs; \<open>Sfp_Passage\<close> that a message can always pass, step by
    step, with the examples.
  \<^item> \<open>Sfp_Medium\<close>: the garbler and the simulated medium of the tests, which is a link;
    \<open>Sfp_Echo\<close>: contexts as ends of a link, with flags that keep it alive (\<open>heartbeat\<close>), and
    the connections of \<^verbatim>\<open>tests/sfp-echo.cpp\<close>; \<open>Sfp_Loopback\<close>: the object whose messages go
    back into its own \<^verbatim>\<open>sendMessage\<close>, from within the library; \<open>Sfp_EchoTest\<close>: the program of
    that test, with its queue of messages and its check, as a machine of events, from the
    moment when both objects are connected; \<open>Sfp_EchoStart\<close>: its beginning, from the
    construction of the objects through the two loops that wait for the connection.
  \<^item> \<open>Sfp_Debug\<close>: the debug name of a context, the \<^verbatim>\<open>toString\<close> functions and the texts that
    are logged.

  \<^bold>\<open>What the groups of lemmas show.\<close> Below, that the library does what its specification
  says, on every branch and without a fault; above that, that each front end is explained
  by one run of library calls (\<open>context_runs\<close>, \<open>stream_refines_library\<close>,
  \<open>queue_refines_library\<close>); on top, that two front ends of any kind, over a link that
  keeps octets in their order, hand over messages in order and once. The link errors that
  the protocol is for - lost and damaged frames - are the subject of \<open>Sfp_Reliable\<close> and
  \<open>Sfp_Session\<close>, at the level of the library. On one line of this the echo test rests: over
  lines without errors it connects (\<open>echo_test_connects\<close>), never fails (\<open>echo_test_passes\<close>
  once the lines are empty, \<open>echo_test_from_start\<close> from its beginning) and ends
  (\<open>echo_test_ends\<close>).

  \<^bold>\<open>What is left to the client.\<close> The library does not keep a writer from writing more than
  the history holds; \<open>reliable_delivery\<close> is for writers that keep within \<open>window_open\<close>, and
  \<open>late_request_duplicates\<close> shows one that does not. It accepts packets of 255 and 256
  octets, which do not arrive (\<open>long_packet_never_delivered\<close>); what is said of transfers is
  for at most 254. A stream asserts that it is connected when an operation begins, which the
  peer can end at any time (\<open>reconnecting_peer_breaks_stream\<close>); in the runs of
  \<open>Sfp_StreamSession\<close>, operations are begun while it is, and the writes of the next layer
  succeed. A message queue does not keep its client from a handshake during a keepalive
  operation (\<open>handshake_breaks_keepalive\<close>), and \<open>queue_safe\<close> is for clients that do without.

  \<^bold>\<open>How the model corresponds to the code.\<close> Definitions keep the names of the source. A
  structure is a record, an enumeration a datatype, \<^verbatim>\<open>uint8_t\<close> and \<^verbatim>\<open>uint16_t\<close> are words of
  their width, buffers are lists with their capacity checked. A function returns the new
  context, or a fault: a failed assertion, an access out of bounds, a null pointer, a loop
  that does not end, misuse of the mutex, or a buffer that throws \<^verbatim>\<open>std::length_error\<close>. An
  asynchronous operation is cut at its \<^verbatim>\<open>yield\<close>s: each stretch is a function of the state
  and of the completion that resumes it.

  \<^bold>\<open>Contracts of code that is not in the repository\<close> are named hypotheses: \<open>ringbuffer_laws\<close>
  (the ring buffer of cxx-util), \<open>dynbuf_laws\<close> (a dynamic buffer), \<open>pcqueue_laws\<close> (the
  producer-consumer queue of cxx-util) and \<open>stream_laws\<close>. Each has an instance on lists,
  with which the examples are evaluated.

  \<^bold>\<open>Bounds.\<close> Loops over octets or packets are recursions on lists. The loops of
  \<^verbatim>\<open>voidReceives\<close> and \<^verbatim>\<open>voidOutbox\<close> are \<open>while_option\<close>, so that not ending is a fault, and are
  shown to end. Coroutines take the list of completions they are resumed with, of any
  length; \<open>handshake_terminates\<close> bounds the number of resumptions (51 attempts of three).
  The configuration is the default of the header: packets of 256 octets, a history of 8, a
  write buffer of 512.

  \<^bold>\<open>Not modelled.\<close> When which debug text is logged, and the constant texts of warnings: they
  are compiled in on demand and do not affect the protocol; \<^verbatim>\<open>sfpPrintReceiverState\<close>, which
  is disabled; \<^verbatim>\<open>sfpGetSizeof\<close>; declarations, executors, allocators, handler hooks and other
  glue of Asio; the elapse of time (a timer completes at any moment, a cycle of the
  simulated medium takes place at any moment); memory management of shared pointers; the
  main program of \<^verbatim>\<open>sfp-asio-echo.cpp\<close>, which only strings the operations of a message queue
  together, and the build files. The events of the echo test are whole calls: a flag that
  \<^verbatim>\<open>sfp-echo.cpp\<close> emits for Bob while the thread of the medium is in the middle of writing
  a frame for him is not one of them. Handlers of a message queue are recorded when they
  are called; one that calls the queue again at once is modelled where it does harm
  (\<open>handleWrite_calling\<close>).
\<close>

section \<open>A whole session\<close>

text \<open>
  C18. A session from its beginning: \<open>a\<close> connects to \<open>b\<close>, which is in the middle of no frame,
  whatever their states were; then everything that \<open>a\<close> writes, in packets of at most 254
  octets, is delivered by \<open>b\<close>, and everything that \<open>b\<close> writes after that is delivered by
  \<open>a\<close>, in order and exactly once.
\<close>

theorem session_exchange:
  assumes "sfp_inv R a" and "sfp_inv R' b" and "abs_receiver b = idle"
    and "deliver (rx a) \<noteq> None" and "deliver (rx b) \<noteq> None"
    and "length stack = SFP_CONFIG_MAX_PACKET_SIZE"
    and "\<forall>bs \<in> set (bss @ css). length bs \<le> SFP_CONFIG_MAX_PACKET_SIZE - SFP_CRC_SIZE"
  shows "\<exists>a1 b1 a2 b2 a3 b3 b4 a4. sfpConnect R a = Inr a1
    \<and> deliver_octets R' b (written a a1) = Inr b1
    \<and> deliver_octets R a1 (written b b1) = Inr a2
    \<and> deliver_octets R' b1 (written a1 a2) = Inr b2
    \<and> run_calls R a2 (map (CallWrite stack) bss) = Inr a3
    \<and> deliver_octets R' b2 (written a2 a3) = Inr b3 \<and> delivered b2 b3 = bss
    \<and> run_calls R' b3 (map (CallWrite stack) css) = Inr b4
    \<and> deliver_octets R a3 (written b3 b4) = Inr a4 \<and> delivered a3 a4 = css
    \<and> sfpIsConnected a4 \<and> sfpIsConnected b4"
proof -
  obtain a1 b1 a2 b2 where run: "sfpConnect R a = Inr a1" "deliver_octets R' b (written a a1) = Inr b1"
      "deliver_octets R a1 (written b b1) = Inr a2" "deliver_octets R' b1 (written a1 a2) = Inr b2"
    and a2: "sfp_inv R a2" "abs_receiver a2 = idle" "callbacks a2 = callbacks a"
      "abs_endpoint R a2 = fresh_endpoint SFP_CONNECT_STATE_CONNECTED"
    and b2: "sfp_inv R' b2" "abs_receiver b2 = idle" "callbacks b2 = callbacks b"
      "abs_endpoint R' b2 = fresh_endpoint SFP_CONNECT_STATE_CONNECTED"
    using handshake_run [OF assms(1-3)] by blast
  have up: "connectState a2 = SFP_CONNECT_STATE_CONNECTED" "connectState b2 = SFP_CONNECT_STATE_CONNECTED"
    "rx_seq (rx b2) = tx_seq (tx a2)" "rx_seq (rx a2) = tx_seq (tx b2)"
    "deliver (rx b2) \<noteq> None" "deliver (rx a2) \<noteq> None"
    using a2(3,4) b2(3,4) assms(4,5) by (simp_all add: abs_endpoint_def fresh_endpoint_def callbacks_def)
  have fits: "\<forall>bs \<in> set bss. length bs \<le> SFP_CONFIG_MAX_PACKET_SIZE - SFP_CRC_SIZE"
    "\<forall>bs \<in> set css. length bs \<le> SFP_CONFIG_MAX_PACKET_SIZE - SFP_CRC_SIZE"
    using assms(7) by auto
  obtain a3 b3 where ab: "run_calls R a2 (map (CallWrite stack) bss) = Inr a3"
      "deliver_octets R' b2 (written a2 a3) = Inr b3" "delivered b2 b3 = bss"
      "sfp_inv R a3" "sfp_inv R' b3" "abs_receiver a3 = idle" "connectState b3 = SFP_CONNECT_STATE_CONNECTED"
      "connectState a3 = SFP_CONNECT_STATE_CONNECTED" "rx_seq (rx a3) = tx_seq (tx b3)"
      "deliver (rx a3) \<noteq> None"
    using packets_run [OF a2(1) b2(1,2) up(2,3,5) assms(6) fits(1)] up a2(2)
    by (auto simp: callbacks_def)
  obtain b4 a4 where "run_calls R' b3 (map (CallWrite stack) css) = Inr b4"
      "deliver_octets R a3 (written b3 b4) = Inr a4" "delivered a3 a4 = css"
      "connectState a4 = SFP_CONNECT_STATE_CONNECTED" "connectState b4 = SFP_CONNECT_STATE_CONNECTED"
    using packets_run [OF ab(5,4,6,8,9,10) assms(6) fits(2)] ab(7) by auto
  with run ab(1-3) show ?thesis unfolding sfpIsConnected_def by metis
qed

theorem session_exchange_witness:
  "\<exists>a2 b2 a3 b3 b4 a4.
      run_calls list_ringbuffer a2 (map (CallWrite (replicate SFP_CONFIG_MAX_PACKET_SIZE 0)) [[1], [2, 3]]) = Inr a3
    \<and> deliver_octets list_ringbuffer b2 (written a2 a3) = Inr b3 \<and> delivered b2 b3 = [[1], [2, 3]]
    \<and> deliver_octets list_ringbuffer a3 (written b3 b4) = Inr a4 \<and> delivered a3 a4 = [[4]]"
proof -
  let ?stack = "replicate SFP_CONFIG_MAX_PACKET_SIZE (0 :: u8)"
  have d: "deliver (rx example_context) \<noteq> None" "deliver (rx example_connected) \<noteq> None"
    "length ?stack = SFP_CONFIG_MAX_PACKET_SIZE" by simp_all
  have "\<forall>bs \<in> set ([[1], [2, 3]] @ [[4 :: u8]]). length bs \<le> SFP_CONFIG_MAX_PACKET_SIZE - SFP_CRC_SIZE"
    by (simp add: sfp_consts)
  from session_exchange [OF example_inv connected_inv example_simps(2) d this] show ?thesis
    by blast
qed

end
